(* ===== verification/Ondris_Prelude.thy ===== *)
theory Ondris_Prelude
  imports Main "HOL-Library.Word" "HOL-Library.List_Lexorder"
begin

text \<open>
  Shared vocabulary of the development: the machine integers of the Rust code as words, the
  saturating operations of \<open>std\<close>, the fixed-width byte encodings \<open>to_le_bytes\<close>,
  \<open>to_be_bytes\<close> and their inverses, big-endian comparison of byte arrays, slices and chunks.
  Plain \<open>+\<close>, \<open>-\<close> and \<open>*\<close> of the code are the wrapping operations of the release
  profile (\<open>Cargo.toml\<close> leaves \<open>overflow-checks\<close> off there).
\<close>

unbundle bit_operations_syntax

type_synonym u8 = "8 word"
type_synonym u16 = "16 word"
type_synonym u32 = "32 word"
type_synonym u64 = "64 word"
type_synonym u128 = "128 word"
type_synonym bytes = "u8 list"

named_theorems sat_simps \<open>unsigned readings of the saturating operations\<close>
named_theorems codec_simps \<open>lengths and round trips of the fixed-width encodings\<close>

section \<open>Saturating arithmetic of \<open>std\<close>\<close>

definition sat_add :: "'a::len word \<Rightarrow> 'a word \<Rightarrow> 'a word" where
  "sat_add a b = (if unat a + unat b < 2 ^ LENGTH('a) then a + b else - 1)"

definition sat_sub :: "'a::len word \<Rightarrow> 'a word \<Rightarrow> 'a word" where
  "sat_sub a b = (if b \<le> a then a - b else 0)"

definition sat_mul :: "'a::len word \<Rightarrow> 'a word \<Rightarrow> 'a word" where
  "sat_mul a b = (if unat a * unat b < 2 ^ LENGTH('a) then a * b else - 1)"

lemma unat_minus_1: "unat (- 1 :: 'a::len word) = 2 ^ LENGTH('a) - 1"
  by (simp add: unsigned_minus_1_eq_mask mask_eq_exp_minus_1)

lemma unat_less_pow: "unat (w :: 'a::len word) < 2 ^ LENGTH('a)"
  by (rule unsigned_less)

lemma unat_sat_add [sat_simps]:
  "unat (sat_add a b) = min (unat a + unat b) (2 ^ LENGTH('a) - 1)" for a b :: "'a::len word"
  by (auto simp: sat_add_def unat_minus_1 unat_add_lem [symmetric])

lemma unat_sat_sub [sat_simps]: "unat (sat_sub a b) = unat a - unat b"
  by (auto simp: sat_sub_def unat_sub word_le_nat_alt)

lemma unat_sat_mul [sat_simps]:
  "unat (sat_mul a b) = min (unat a * unat b) (2 ^ LENGTH('a) - 1)" for a b :: "'a::len word"
  by (auto simp: sat_mul_def unat_minus_1 unat_mult_lem [symmetric])

lemma unat_add_bounded:
  "unat a + unat b < 2 ^ LENGTH('a) \<Longrightarrow> unat (a + b) = unat a + unat b" for a b :: "'a::len word"
  by (simp add: unat_add_lem [symmetric])

lemma unat_mult_bounded:
  "unat a * unat b < 2 ^ LENGTH('a) \<Longrightarrow> unat (a * b) = unat a * unat b" for a b :: "'a::len word"
  by (simp add: unat_mult_lem [symmetric])

lemma unat_ucast_mod: "unat (ucast w :: 'b::len word) = unat w mod 2 ^ LENGTH('b)" for w :: "'a::len word"
  by (simp add: unsigned_ucast_eq take_bit_eq_mod)

lemma unat_max: "unat (max a b) = max (unat a) (unat b)"
  by (simp add: max_def word_le_nat_alt)

lemma unat_min: "unat (min a b) = min (unat a) (unat b)"
  by (simp add: min_def word_le_nat_alt)


section \<open>Fixed-width encodings\<close>

text \<open>
  \<open>le_bytes n w\<close> is \<open>w.to_le_bytes()\<close> for a word of \<open>n\<close> bytes, \<open>le_word\<close> is
  \<open>from_le_bytes\<close>, and the big-endian versions are their reversals.
\<close>

fun le_bytes :: "nat \<Rightarrow> 'a::len word \<Rightarrow> bytes" where
  "le_bytes 0 w = []"
| "le_bytes (Suc n) w = ucast w # le_bytes n (drop_bit 8 w)"

fun le_word :: "bytes \<Rightarrow> 'a::len word" where
  "le_word [] = 0"
| "le_word (b # bs) = ucast b OR push_bit 8 (le_word bs)"

definition be_bytes :: "nat \<Rightarrow> 'a::len word \<Rightarrow> bytes" where
  "be_bytes n w = rev (le_bytes n w)"

definition be_word :: "bytes \<Rightarrow> 'a::len word" where
  "be_word bs = le_word (rev bs)"

lemma length_le_bytes [simp, codec_simps]: "length (le_bytes n w) = n"
  by (induction n arbitrary: w) auto

lemma length_be_bytes [simp, codec_simps]: "length (be_bytes n w) = n"
  by (simp add: be_bytes_def)

lemma ucast_byte_or_rest:
  "ucast (ucast w :: u8) OR push_bit 8 (drop_bit 8 w) = w" for w :: "'a::len word"
proof (rule bit_word_eqI)
  fix n
  show "bit (ucast (ucast w :: u8) OR push_bit 8 (drop_bit 8 w)) n \<longleftrightarrow> bit w n" if "n < LENGTH('a)"
    using that by (cases "n < 8") (auto simp: bit_simps)
qed

lemma le_word_le_bytes_take: "le_word (le_bytes n w) = take_bit (8 * n) w"
proof (induction n arbitrary: w)
  case 0
  then show ?case by simp
next
  case (Suc n)
  show ?case
    by (rule bit_word_eqI) (auto simp: Suc bit_simps)
qed

lemma le_word_le_bytes [codec_simps]:
  "LENGTH('a) \<le> 8 * n \<Longrightarrow> le_word (le_bytes n w) = w" for w :: "'a::len word"
  by (simp add: le_word_le_bytes_take take_bit_word_eq_self)

lemma be_word_be_bytes [codec_simps]:
  "LENGTH('a) \<le> 8 * n \<Longrightarrow> be_word (be_bytes n w) = w" for w :: "'a::len word"
  by (simp add: be_word_def be_bytes_def le_word_le_bytes)

lemma le_bytes_le_word [codec_simps]:
  "8 * length bs \<le> LENGTH('a) \<Longrightarrow> le_bytes (length bs) (le_word bs :: 'a::len word) = bs"
proof (induction bs)
  case Nil
  then show ?case by simp
next
  case (Cons b bs)
  have 1: "ucast (ucast b OR push_bit 8 (le_word bs :: 'a word)) = b"
    using Cons.prems by (intro bit_word_eqI) (auto simp: bit_simps)
  have 2: "drop_bit 8 (ucast b OR push_bit 8 (le_word bs :: 'a word)) = take_bit (LENGTH('a) - 8) (le_word bs)"
    by (intro bit_word_eqI) (auto simp: bit_simps dest: bit_imp_le_length)
  have 3: "le_bytes n (take_bit m (w :: 'a word)) = le_bytes n w" if "8 * n \<le> m" for n m w
    using that
  proof (induction n arbitrary: w m)
    case (Suc n)
    have "ucast (take_bit m w) = (ucast w :: u8)"
      using Suc.prems by (intro bit_word_eqI) (auto simp: bit_simps)
    moreover have "drop_bit 8 (take_bit m w) = take_bit (m - 8) (drop_bit 8 w)"
      by (simp add: drop_bit_take_bit)
    ultimately show ?case using Suc by simp
  qed simp
  show ?case
    using Cons by (simp only: list.size(4) add_0_right add_Suc_right le_word.simps le_bytes.simps 1 2) (simp add: 3)
qed

lemma inj_le_bytes: "LENGTH('a) \<le> 8 * n \<Longrightarrow> le_bytes n v = le_bytes n w \<Longrightarrow> v = w"
  for v w :: "'a::len word"
  by (metis le_word_le_bytes)

text \<open>
  The interface the framing and hashing code relies on: a fixed number of bytes, read back by
  the decoder. The client lemma is the parse of a prefix.
\<close>

locale int_codec =
  fixes width :: nat and enc :: "'w \<Rightarrow> bytes" and dec :: "bytes \<Rightarrow> 'w"
  assumes length_enc: "length (enc w) = width"
    and dec_enc: "dec (enc w) = w"
begin

lemma take_enc: "take width (enc w @ rest) = enc w"
  by (simp add: length_enc)

lemma drop_enc: "drop width (enc w @ rest) = rest"
  by (simp add: length_enc)

lemma dec_prefix: "dec (take width (enc w @ rest)) = w"
  by (simp only: take_enc dec_enc)

lemma enc_inject: "enc v = enc w \<longleftrightarrow> v = w"
  by (metis dec_enc)

lemma enc_append_inject: "enc v @ r = enc w @ s \<longleftrightarrow> v = w \<and> r = s"
  by (metis dec_prefix drop_enc)

end

interpretation le32: int_codec 4 "le_bytes 4 :: u32 \<Rightarrow> bytes" le_word
  by unfold_locales (simp_all add: codec_simps)

interpretation le64: int_codec 8 "le_bytes 8 :: u64 \<Rightarrow> bytes" le_word
  by unfold_locales (simp_all add: codec_simps)

interpretation be16: int_codec 2 "be_bytes 2 :: u16 \<Rightarrow> bytes" be_word
  by unfold_locales (simp_all add: codec_simps)

interpretation be32: int_codec 4 "be_bytes 4 :: u32 \<Rightarrow> bytes" be_word
  by unfold_locales (simp_all add: codec_simps)

section \<open>Big-endian byte arrays as numbers\<close>

definition be_val :: "bytes \<Rightarrow> nat" where
  "be_val bs = foldl (\<lambda>acc b. acc * 256 + unat b) 0 bs"

lemma be_val_Nil [simp]: "be_val [] = 0"
  by (simp add: be_val_def)

lemma be_val_snoc [simp]: "be_val (bs @ [b]) = be_val bs * 256 + unat b"
  by (simp add: be_val_def)

lemma unat_byte_less: "unat (b :: u8) < 256"
  using unat_less_pow [of b] by simp

lemma be_val_Cons: "be_val (b # bs) = unat b * 256 ^ length bs + be_val bs"
proof (induction bs rule: rev_induct)
  case (snoc x xs)
  have "be_val (b # xs @ [x]) = be_val (b # xs) * 256 + unat x"
    using be_val_snoc [of "b # xs" x] by simp
  with snoc show ?case by (simp add: algebra_simps)
qed (simp add: be_val_def)

lemma be_val_bound: "be_val bs < 256 ^ length bs"
proof (induction bs)
  case (Cons b bs)
  have "unat b * 256 ^ length bs + be_val bs < (unat b + 1) * 256 ^ length bs"
    using Cons by simp
  also have "\<dots> \<le> 256 * 256 ^ length bs"
    using unat_byte_less [of b] by (intro mult_le_mono1) linarith
  finally show ?case by (simp add: be_val_Cons)
qed simp

text \<open>Rust's array comparison is lexicographic; on arrays of equal length it compares the values.\<close>

lemma be_val_lex: "length xs = length ys \<Longrightarrow> (xs \<le> ys \<longleftrightarrow> be_val xs \<le> be_val ys)"
proof (induction xs ys rule: list_induct2)
  case (Cons x xs y ys)
  let ?K = "256 ^ length ys :: nat"
  have b: "be_val xs < ?K" "be_val ys < ?K"
    using be_val_bound [of xs] be_val_bound [of ys] Cons.hyps by simp_all
  consider "unat x < unat y" | "unat x = unat y" | "unat y < unat x" by linarith
  then show ?case
  proof cases
    case 1
    then have "(unat x + 1) * ?K \<le> unat y * ?K" by (intro mult_le_mono1) simp
    with 1 b show ?thesis
      by (simp add: be_val_Cons Cons.hyps word_less_nat_alt)
  next
    case 2
    then have "x = y" by (simp add: word_unat_eq_iff)
    with Cons show ?thesis by (simp add: be_val_Cons)
  next
    case 3
    then have "(unat y + 1) * ?K \<le> unat x * ?K" by (intro mult_le_mono1) simp
    with 3 b have "\<not> be_val (x # xs) \<le> be_val (y # ys)"
      by (simp add: be_val_Cons Cons.hyps)
    moreover from 3 have "\<not> x # xs \<le> y # ys"
      by (auto simp: word_less_nat_alt)
    ultimately show ?thesis by blast
  qed
qed simp

section \<open>Slices, chunks and strings\<close>

text \<open>\<open>bytes[off..off + n]\<close> panics when it reaches past the end: \<open>None\<close>.\<close>

definition slice_at :: "'a list \<Rightarrow> nat \<Rightarrow> nat \<Rightarrow> 'a list option" where
  "slice_at xs off n = (if off + n \<le> length xs then Some (take n (drop off xs)) else None)"

lemma slice_at_length: "slice_at xs off n = Some ys \<Longrightarrow> length ys = n"
  by (auto simp: slice_at_def split: if_splits)

text \<open>\<open>xs.chunks(n)\<close>: pieces of length \<open>n\<close>, the last one possibly shorter (\<open>n > 0\<close>).\<close>

function chunks :: "nat \<Rightarrow> 'a list \<Rightarrow> 'a list list" where
  "chunks n xs = (if xs = [] \<or> n = 0 then [] else take n xs # chunks n (drop n xs))"
  by pat_completeness auto
termination
  by (relation "measure (\<lambda>(n, xs). length xs)") auto

declare chunks.simps [simp del]

lemma chunks_Nil [simp]: "chunks n [] = []"
  by (simp add: chunks.simps)

lemma chunks_step: "xs \<noteq> [] \<Longrightarrow> 0 < n \<Longrightarrow> chunks n xs = take n xs # chunks n (drop n xs)"
  by (simp add: chunks.simps [of n xs])

lemma concat_chunks: "0 < n \<Longrightarrow> concat (chunks n xs) = xs"
proof (induction n xs rule: chunks.induct)
  case (1 n xs)
  then show ?case by (cases "xs = []") (simp_all add: chunks_step)
qed

lemma length_in_chunks: "c \<in> set (chunks n xs) \<Longrightarrow> 0 < length c \<and> length c \<le> n"
proof (induction n xs rule: chunks.induct)
  case (1 n xs)
  then show ?case by (cases "xs = [] \<or> n = 0") (auto simp: chunks.simps [of n xs])
qed

definition string_bytes :: "string \<Rightarrow> bytes" where
  "string_bytes s = map of_char s"

text \<open>The decimal rendering of an integer by \<open>format!\<close>.\<close>

fun dec_digits :: "nat \<Rightarrow> string" where
  "dec_digits n = (if n < 10 then [char_of (48 + n)] else dec_digits (n div 10) @ [char_of (48 + n mod 10)])"

declare dec_digits.simps [simp del]

text \<open>\<open>str::strip_prefix\<close>.\<close>

definition strip_prefix :: "string \<Rightarrow> string \<Rightarrow> string option" where
  "strip_prefix p s = (if take (length p) s = p then Some (drop (length p) s) else None)"

lemma strip_prefix_append [simp]: "strip_prefix p (p @ s) = Some s"
  by (simp add: strip_prefix_def)

end
