(* ===== verification/Primitives.thy ===== *)
theory Primitives
  imports Ondris_Prelude
begin

text \<open>
  Model of \<open>crates/ondris-primitives/src/lib.rs\<close>: \<open>Hash256\<close>, \<open>PublicKey\<close>,
  \<open>Signature\<close>, \<open>Address\<close> and \<open>KeyPair\<close>. The crates \<open>blake3\<close>, \<open>hex\<close>
  and \<open>ed25519-dalek\<close> are not part of the repository: their functions are the fields of
  the parameter record \<open>prims\<close>, and what the code relies on is stated by the predicates
  \<open>hash_sizes\<close>, \<open>hex_laws\<close> and \<open>ed25519_laws\<close>.
\<close>

section \<open>Third-party functions\<close>

record prims =
  blake3 :: "bytes \<Rightarrow> bytes"  \<comment> \<open>\<open>blake3::hash\<close>\<close>
  blake3_xof :: "bytes \<Rightarrow> nat \<Rightarrow> bytes"  \<comment> \<open>\<open>finalize_xof\<close> and \<open>fill\<close> of a buffer of that length\<close>
  hex_encode :: "bytes \<Rightarrow> string"
  hex_decode :: "string \<Rightarrow> bytes option"  \<comment> \<open>\<open>None\<close>: a \<open>FromHexError\<close>\<close>
  verifying_key_from_bytes :: "bytes \<Rightarrow> bytes option"
  signature_from_slice :: "bytes \<Rightarrow> bytes option"
  dalek_verify :: "bytes \<Rightarrow> bytes \<Rightarrow> bytes \<Rightarrow> bool"  \<comment> \<open>key, message, signature\<close>
  dalek_public :: "bytes \<Rightarrow> bytes"  \<comment> \<open>verifying key of a signing key\<close>
  dalek_sign :: "bytes \<Rightarrow> bytes \<Rightarrow> bytes"  \<comment> \<open>signing key, message\<close>

definition HEX_DIGITS :: "char set" where
  "HEX_DIGITS = set ''0123456789abcdef''"

definition hash_sizes :: "'a prims_scheme \<Rightarrow> bool" where
  "hash_sizes P \<longleftrightarrow> (\<forall>d. length (blake3 P d) = 32) \<and> (\<forall>s n. length (blake3_xof P s n) = n)"

definition hex_laws :: "'a prims_scheme \<Rightarrow> bool" where
  "hex_laws P \<longleftrightarrow> (\<forall>b. hex_decode P (hex_encode P b) = Some b) \<and>
     (\<forall>b. set (hex_encode P b) \<subseteq> HEX_DIGITS)"

definition ed25519_laws :: "'a prims_scheme \<Rightarrow> bool" where
  "ed25519_laws P \<longleftrightarrow>
     (\<forall>sk. length sk = 32 \<longrightarrow> length (dalek_public P sk) = 32) \<and>
     (\<forall>sk m. length sk = 32 \<longrightarrow> length (dalek_sign P sk m) = 64) \<and>
     (\<forall>sk m. length sk = 32 \<longrightarrow>
        (\<exists>vk sg. verifying_key_from_bytes P (dalek_public P sk) = Some vk \<and>
                 signature_from_slice P (dalek_sign P sk m) = Some sg \<and> dalek_verify P vk m sg))"

lemma hash_sizes_blake3 [simp]: "hash_sizes P \<Longrightarrow> length (blake3 P d) = 32"
  by (simp add: hash_sizes_def)

lemma hash_sizes_xof [simp]: "hash_sizes P \<Longrightarrow> length (blake3_xof P s n) = n"
  by (simp add: hash_sizes_def)

section \<open>\<open>Hash256\<close>\<close>

datatype hash256 = Hash256 (hash_bytes: bytes)

definition wf_hash :: "hash256 \<Rightarrow> bool" where
  "wf_hash h \<longleftrightarrow> length (hash_bytes h) = 32"

definition ZERO :: hash256 where
  "ZERO = Hash256 (replicate 32 0)"

definition hash_of :: "'a prims_scheme \<Rightarrow> bytes \<Rightarrow> hash256" where
  "hash_of P data = Hash256 (blake3 P data)"

definition as_bytes :: "hash256 \<Rightarrow> bytes" where
  "as_bytes h = hash_bytes h"

definition to_u256_be :: "hash256 \<Rightarrow> bytes" where
  "to_u256_be h = hash_bytes h"

definition hash_to_hex :: "'a prims_scheme \<Rightarrow> hash256 \<Rightarrow> string" where
  "hash_to_hex P h = hex_encode P (hash_bytes h)"

definition hash_from_hex :: "'a prims_scheme \<Rightarrow> string \<Rightarrow> hash256 option" where
  "hash_from_hex P s =
     (case hex_decode P s of
        None \<Rightarrow> None
      | Some bs \<Rightarrow> Some (Hash256 (if length bs = 32 then bs else replicate 32 0)))"

text \<open>
  Each type of this file has its own \<open>Serialize\<close> and \<open>Deserialize\<close>, over the string form: what goes into
  JSON is the string that \<open>serialize\<close> gives, and \<open>deserialize\<close> reads the string that was found there.
\<close>

definition hash_serialize :: "'a prims_scheme \<Rightarrow> hash256 \<Rightarrow> string" where
  "hash_serialize P h = hash_to_hex P h"

definition hash_deserialize :: "'a prims_scheme \<Rightarrow> string \<Rightarrow> hash256 option" where
  "hash_deserialize P s = hash_from_hex P s"

text \<open>The derived orders of the newtypes: lexicographic on the bytes.\<close>

instantiation hash256 :: linorder
begin

definition less_eq_hash256 :: "hash256 \<Rightarrow> hash256 \<Rightarrow> bool" where
  "less_eq_hash256 a b \<longleftrightarrow> hash_bytes a \<le> hash_bytes b"

definition less_hash256 :: "hash256 \<Rightarrow> hash256 \<Rightarrow> bool" where
  "less_hash256 a b \<longleftrightarrow> hash_bytes a < hash_bytes b"

instance
  by standard (auto simp: less_eq_hash256_def less_hash256_def hash256.expand)

end

section \<open>\<open>PublicKey\<close> and \<open>Signature\<close>\<close>

datatype public_key = PublicKey (pk_bytes: bytes)
datatype signature = Signature (sig_bytes: bytes)

datatype parse_error = BadHex | BadLength

definition pk_to_hex :: "'a prims_scheme \<Rightarrow> public_key \<Rightarrow> string" where
  "pk_to_hex P k = hex_encode P (pk_bytes k)"

definition pk_from_hex :: "'a prims_scheme \<Rightarrow> string \<Rightarrow> parse_error + public_key" where
  "pk_from_hex P s =
     (case hex_decode P s of
        None \<Rightarrow> Inl BadHex
      | Some bs \<Rightarrow> if length bs \<noteq> 32 then Inl BadLength else Inr (PublicKey bs))"

definition pk_serialize :: "'a prims_scheme \<Rightarrow> public_key \<Rightarrow> string" where
  "pk_serialize P k = pk_to_hex P k"

definition pk_deserialize :: "'a prims_scheme \<Rightarrow> string \<Rightarrow> parse_error + public_key" where
  "pk_deserialize P s = pk_from_hex P s"

definition verify :: "'a prims_scheme \<Rightarrow> public_key \<Rightarrow> bytes \<Rightarrow> signature \<Rightarrow> bool" where
  "verify P k message sg =
     (case (verifying_key_from_bytes P (pk_bytes k), signature_from_slice P (sig_bytes sg)) of
        (Some vk, Some s) \<Rightarrow> dalek_verify P vk message s
      | _ \<Rightarrow> False)"

definition sig_to_hex :: "'a prims_scheme \<Rightarrow> signature \<Rightarrow> string" where
  "sig_to_hex P sg = hex_encode P (sig_bytes sg)"

definition sig_serialize :: "'a prims_scheme \<Rightarrow> signature \<Rightarrow> string" where
  "sig_serialize P sg = sig_to_hex P sg"

text \<open>The hand-written \<open>Deserialize\<close> of \<open>Signature\<close>.\<close>

definition sig_deserialize :: "'a prims_scheme \<Rightarrow> string \<Rightarrow> parse_error + signature" where
  "sig_deserialize P s =
     (case hex_decode P s of
        None \<Rightarrow> Inl BadHex
      | Some bs \<Rightarrow> if length bs \<noteq> 64 then Inl BadLength else Inr (Signature bs))"

section \<open>\<open>Address\<close>\<close>

datatype address = Address (addr_bytes: bytes)

definition ADDRESS_PREFIX :: string where
  "ADDRESS_PREFIX = ''ondr''"

instantiation address :: linorder
begin

definition less_eq_address :: "address \<Rightarrow> address \<Rightarrow> bool" where
  "less_eq_address a b \<longleftrightarrow> addr_bytes a \<le> addr_bytes b"

definition less_address :: "address \<Rightarrow> address \<Rightarrow> bool" where
  "less_address a b \<longleftrightarrow> addr_bytes a < addr_bytes b"

instance
  by standard (auto simp: less_eq_address_def less_address_def address.expand)

end

definition to_address :: "'a prims_scheme \<Rightarrow> public_key \<Rightarrow> address" where
  "to_address P k = Address (take 20 (blake3 P (pk_bytes k)))"

definition addr_to_hex :: "'a prims_scheme \<Rightarrow> address \<Rightarrow> string" where
  "addr_to_hex P a = hex_encode P (addr_bytes a)"

definition addr_from_hex :: "'a prims_scheme \<Rightarrow> string \<Rightarrow> parse_error + address" where
  "addr_from_hex P s =
     (case hex_decode P s of
        None \<Rightarrow> Inl BadHex
      | Some bs \<Rightarrow> if length bs \<noteq> 20 then Inl BadLength else Inr (Address bs))"

definition addr_to_string :: "'a prims_scheme \<Rightarrow> address \<Rightarrow> string" where
  "addr_to_string P a = ADDRESS_PREFIX @ addr_to_hex P a"

definition addr_from_str :: "'a prims_scheme \<Rightarrow> string \<Rightarrow> parse_error + address" where
  "addr_from_str P s =
     (let stripped = (case strip_prefix ADDRESS_PREFIX s of Some r \<Rightarrow> r | None \<Rightarrow> s)
      in addr_from_hex P stripped)"

definition addr_serialize :: "'a prims_scheme \<Rightarrow> address \<Rightarrow> string" where
  "addr_serialize P a = addr_to_string P a"

definition addr_deserialize :: "'a prims_scheme \<Rightarrow> string \<Rightarrow> parse_error + address" where
  "addr_deserialize P s = addr_from_str P s"

section \<open>\<open>KeyPair\<close>\<close>

text \<open>A dalek \<open>SigningKey\<close> is its 32 seed bytes; the random bytes of \<open>generate\<close> are an argument.\<close>

datatype key_pair = KeyPair (signing_key: bytes)

definition generate_key :: "bytes \<Rightarrow> key_pair" where
  "generate_key random = KeyPair random"

definition from_seed :: "bytes \<Rightarrow> key_pair" where
  "from_seed seed = KeyPair seed"

definition seed_bytes :: "key_pair \<Rightarrow> bytes" where
  "seed_bytes kp = signing_key kp"

definition public :: "'a prims_scheme \<Rightarrow> key_pair \<Rightarrow> public_key" where
  "public P kp = PublicKey (dalek_public P (signing_key kp))"

definition kp_address :: "'a prims_scheme \<Rightarrow> key_pair \<Rightarrow> address" where
  "kp_address P kp = to_address P (public P kp)"

definition kp_sign :: "'a prims_scheme \<Rightarrow> key_pair \<Rightarrow> bytes \<Rightarrow> signature" where
  "kp_sign P kp message = Signature (dalek_sign P (signing_key kp) message)"

section \<open>Textual forms read back\<close>

text \<open>
  The contract of a hex codec, as the printers and parsers of this crate use it. Its instance on
  the repository's own encoder is \<open>own_hex\<close> below.
\<close>

locale hex_codec =
  fixes enc :: "bytes \<Rightarrow> string" and dec :: "string \<Rightarrow> bytes option"
  assumes dec_enc: "dec (enc b) = Some b"
    and enc_digits: "set (enc b) \<subseteq> HEX_DIGITS"
begin

lemma enc_inject: "enc a = enc b \<longleftrightarrow> a = b"
  by (metis dec_enc option.inject)

lemma enc_not_prefixed: "strip_prefix ADDRESS_PREFIX (enc b) = None"
proof -
  have "take (length ADDRESS_PREFIX) (enc b) \<noteq> ADDRESS_PREFIX"
  proof
    assume "take (length ADDRESS_PREFIX) (enc b) = ADDRESS_PREFIX"
    then have "CHR ''o'' \<in> set (take (length ADDRESS_PREFIX) (enc b))"
      by (simp only:) (simp add: ADDRESS_PREFIX_def)
    then have "CHR ''o'' \<in> set (enc b)" by (rule in_set_takeD)
    then show False using enc_digits [of b] by (auto simp: HEX_DIGITS_def)
  qed
  then show ?thesis by (simp add: strip_prefix_def)
qed

end

lemma hex_codec_prims: "hex_laws P \<Longrightarrow> hex_codec (hex_encode P) (hex_decode P)"
  by (simp add: hex_laws_def hex_codec_def)

text \<open>
  The encoder the repository writes itself, \<open>peer_id_hex\<close> in \<open>noise.rs\<close> and
  \<open>hex::encode\<close> in the GPU miner (\<open>format!("{b:02x}")\<close> per byte), with a decoder.
\<close>

definition hex_digit :: "nat \<Rightarrow> char" where
  "hex_digit n = (if n < 10 then char_of (48 + n) else char_of (87 + n))"

definition hex_value :: "char \<Rightarrow> nat option" where
  "hex_value c =
     (let n = of_char c :: nat
      in if 48 \<le> n \<and> n \<le> 57 then Some (n - 48)
         else if 97 \<le> n \<and> n \<le> 102 then Some (n - 87)
         else if 65 \<le> n \<and> n \<le> 70 then Some (n - 55) else None)"

definition peer_id_hex :: "bytes \<Rightarrow> string" where
  "peer_id_hex bs = concat (map (\<lambda>b. [hex_digit (unat b div 16), hex_digit (unat b mod 16)]) bs)"

fun hex_read :: "string \<Rightarrow> bytes option" where
  "hex_read [] = Some []"
| "hex_read [c] = None"
| "hex_read (c # d # cs) =
     (case (hex_value c, hex_value d, hex_read cs) of
        (Some h, Some l, Some bs) \<Rightarrow> Some (of_nat (16 * h + l) # bs)
      | _ \<Rightarrow> None)"

lemma hex_value_digit: "n < 16 \<Longrightarrow> hex_value (hex_digit n) = Some n"
  by (auto simp: hex_value_def hex_digit_def Let_def)

lemma hex_digit_in: "n < 16 \<Longrightarrow> hex_digit n \<in> HEX_DIGITS"
proof -
  assume "n < 16"
  then have "n \<in> set [0..<16]" by simp
  then show ?thesis
    by (simp add: upt_rec hex_digit_def HEX_DIGITS_def) (elim disjE; simp add: char_of_def bit_simps)
qed

lemma nibble_less: "unat (b :: u8) div 16 < 16"
  by (rule less_mult_imp_div_less) (simp add: unat_byte_less)

lemma hex_read_peer_id_hex: "hex_read (peer_id_hex bs) = Some bs"
proof (induction bs)
  case (Cons b bs)
  have "(of_nat (16 * (unat b div 16) + unat b mod 16) :: u8) = b"
    by (simp only: mult_div_mod_eq) simp
  then show ?case
    using Cons by (simp add: peer_id_hex_def hex_value_digit nibble_less del: of_nat_add of_nat_mult)
qed (simp add: peer_id_hex_def)

lemma peer_id_hex_digits: "set (peer_id_hex bs) \<subseteq> HEX_DIGITS"
proof (induction bs)
  case (Cons b bs)
  have "hex_digit (unat b div 16) \<in> HEX_DIGITS"
    "hex_digit (unat b mod 16) \<in> HEX_DIGITS"
    by (simp_all only: hex_digit_in nibble_less)
  with Cons show ?case by (simp add: peer_id_hex_def)
qed (simp add: peer_id_hex_def)

interpretation own_hex: hex_codec peer_id_hex hex_read
  by unfold_locales (simp_all only: hex_read_peer_id_hex peer_id_hex_digits)

lemma addr_from_str_printed:
  assumes "hex_laws P" "length (addr_bytes a) = 20"
  shows "addr_from_str P (addr_to_string P a) = Inr a" "addr_from_str P (addr_to_hex P a) = Inr a"
proof -
  note hc = hex_codec_prims [OF assms(1)]
  show "addr_from_str P (addr_to_string P a) = Inr a" "addr_from_str P (addr_to_hex P a) = Inr a"
    using assms(2)
    by (simp_all add: addr_from_str_def addr_to_string_def addr_from_hex_def addr_to_hex_def
        hex_codec.dec_enc [OF hc] hex_codec.enc_not_prefixed [OF hc])
qed

lemma addr_from_str_length: "addr_from_str P s = Inr a \<Longrightarrow> length (addr_bytes a) = 20"
  by (auto simp: addr_from_str_def Let_def addr_from_hex_def split: option.splits if_splits)

text \<open>
  Every value of the right size is read back from its serialized form; and a hash is also read from
  strings that no hash serializes to.
\<close>

lemma serialized_reads_back:
  assumes "hex_laws P"
  shows "length (hash_bytes h) = 32 \<Longrightarrow> hash_deserialize P (hash_serialize P h) = Some h"
    and "length (pk_bytes k) = 32 \<Longrightarrow> pk_deserialize P (pk_serialize P k) = Inr k"
    and "length (sig_bytes sg) = 64 \<Longrightarrow> sig_deserialize P (sig_serialize P sg) = Inr sg"
    and "length (addr_bytes a) = 20 \<Longrightarrow> addr_deserialize P (addr_serialize P a) = Inr a"
    and "length bs \<noteq> 32 \<Longrightarrow> hash_deserialize P (hex_encode P bs) = Some ZERO"
  using addr_from_str_printed(1) [OF assms, of a]
  by (simp_all add: hash_deserialize_def hash_serialize_def hash_to_hex_def hash_from_hex_def pk_deserialize_def pk_serialize_def
      pk_to_hex_def pk_from_hex_def sig_deserialize_def sig_serialize_def sig_to_hex_def addr_deserialize_def addr_serialize_def
      hex_codec.dec_enc [OF hex_codec_prims [OF assms]] ZERO_def)

section \<open>Printing\<close>

text \<open>
  \<open>Display\<close> and \<open>Debug\<close>. The signature is printed up to its first 16 characters, a slice that panics
  (\<open>None\<close>) on shorter text.
\<close>

definition hash_display :: "'a prims_scheme \<Rightarrow> hash256 \<Rightarrow> string" where
  "hash_display P h = hash_to_hex P h"

definition hash_debug_text :: "'a prims_scheme \<Rightarrow> hash256 \<Rightarrow> string" where
  "hash_debug_text P h = ''Hash256('' @ hash_to_hex P h @ '')''"

definition pk_debug_text :: "'a prims_scheme \<Rightarrow> public_key \<Rightarrow> string" where
  "pk_debug_text P k = ''PublicKey('' @ pk_to_hex P k @ '')''"

definition sig_debug_text :: "'a prims_scheme \<Rightarrow> signature \<Rightarrow> string option" where
  "sig_debug_text P sg =
     (let text = sig_to_hex P sg
      in if length text < 16 then None else Some (''Signature('' @ take 16 text @ ''...)''))"

definition addr_debug_text :: "'a prims_scheme \<Rightarrow> address \<Rightarrow> string" where
  "addr_debug_text P a = addr_to_string P a"

text \<open>What is printed for a hash or an address in a log or an answer reads back.\<close>

lemma printed_reads_back:
  assumes "hex_laws P"
  shows "length (hash_bytes h) = 32 \<Longrightarrow> hash_from_hex P (hash_display P h) = Some h"
    and "length (addr_bytes a) = 20 \<Longrightarrow> addr_from_str P (addr_debug_text P a) = Inr a"
  using addr_from_str_printed(1) [OF assms, of a]
  by (simp_all add: hash_display_def hash_to_hex_def hash_from_hex_def addr_debug_text_def hex_codec.dec_enc [OF hex_codec_prims [OF assms]])

section \<open>A concrete instance of the parameters\<close>

text \<open>
  Functions with the sizes and laws the code relies on, cheap enough to compute with: they show
  that the hypotheses of the theorems can hold, and carry the worked examples. The stand-in for
  BLAKE3 keeps the first 32 bytes of a short input and the last 32 bytes of a longer one, the
  stand-in for Ed25519 signs with the key followed by that digest, and hex is the repository's own.
\<close>

definition sample_hash :: "bytes \<Rightarrow> bytes" where
  "sample_hash m = (if length m \<le> 64 then take 32 (m @ replicate 32 0) else drop (length m - 32) m)"

definition sample_prims :: prims where
  "sample_prims =
     \<lparr>blake3 = sample_hash, blake3_xof = (\<lambda>s n. replicate n 0), hex_encode = peer_id_hex, hex_decode = hex_read,
      verifying_key_from_bytes = Some, signature_from_slice = Some,
      dalek_verify = (\<lambda>vk m sg. sg = vk @ sample_hash m), dalek_public = (\<lambda>sk. sk),
      dalek_sign = (\<lambda>sk m. sk @ sample_hash m)\<rparr>"

lemma length_sample_hash [simp]: "length (sample_hash m) = 32"
  by (auto simp: sample_hash_def min_def)

lemma sample_prims_laws: "hash_sizes sample_prims" "hex_laws sample_prims" "ed25519_laws sample_prims"
  by (simp_all add: hash_sizes_def hex_laws_def ed25519_laws_def sample_prims_def
      own_hex.dec_enc own_hex.enc_digits)

section \<open>Properties\<close>

text \<open>
  An address prints as \<open>ondr\<close> followed by its hex digits, and \<open>FromStr\<close> reads back
  both that form and the bare hex form to the same address.
\<close>

theorem address_text_roundtrip:
  assumes "hex_laws P" "length (addr_bytes a) = 20"
  shows "addr_from_str P (addr_to_string P a) = Inr a \<and> addr_from_str P (addr_to_hex P a) = Inr a"
  using addr_from_str_printed [OF assms] by blast

theorem address_text_roundtrip_witness:
  "addr_from_str sample_prims (addr_to_string sample_prims (Address (replicate 20 7))) = Inr (Address (replicate 20 7)) \<and>
   addr_from_str sample_prims (addr_to_hex sample_prims (Address (replicate 20 7))) = Inr (Address (replicate 20 7))"
  by (rule address_text_roundtrip) (simp_all add: sample_prims_laws)

text \<open>
  \<open>Hash256::from_hex\<close> reads back every hash it printed, but it does not reject hex of the
  wrong length as \<open>PublicKey\<close> and \<open>Address\<close> do: every such string is read as the
  all-zero hash.
\<close>

theorem hash_from_hex_total:
  assumes "hex_laws P"
  shows "hash_from_hex P (hex_encode P bs) = Some (if length bs = 32 then Hash256 bs else ZERO) \<and>
    (length bs \<noteq> 32 \<longrightarrow> pk_from_hex P (hex_encode P bs) = Inl BadLength)"
  using hex_codec.dec_enc [OF hex_codec_prims [OF assms]]
  by (simp add: hash_from_hex_def pk_from_hex_def ZERO_def)

theorem hash_from_hex_total_witness:
  "hash_from_hex sample_prims (hex_encode sample_prims [1, 2]) = Some ZERO \<and>
   pk_from_hex sample_prims (hex_encode sample_prims [1, 2]) = Inl BadLength"
  using hash_from_hex_total [OF sample_prims_laws(2), of "[1, 2]"] by simp

text \<open>
  A signature made with a key pair verifies under the public key of that pair, and the
  public key travels through its hex form unchanged.
\<close>

theorem sign_verify:
  assumes "ed25519_laws P" "hex_laws P" "length (signing_key kp) = 32"
  shows "verify P (public P kp) m (kp_sign P kp m) \<and>
    pk_from_hex P (pk_to_hex P (public P kp)) = Inr (public P kp)"
proof -
  note hc = hex_codec_prims [OF assms(2)]
  from assms(1,3) obtain vk sg where
    "verifying_key_from_bytes P (dalek_public P (signing_key kp)) = Some vk"
    "signature_from_slice P (dalek_sign P (signing_key kp) m) = Some sg"
    "dalek_verify P vk m sg" "length (dalek_public P (signing_key kp)) = 32"
    unfolding ed25519_laws_def by blast
  then show ?thesis
    by (simp add: verify_def public_def kp_sign_def pk_from_hex_def pk_to_hex_def hex_codec.dec_enc [OF hc])
qed

theorem sign_verify_witness:
  "verify sample_prims (public sample_prims (KeyPair (replicate 32 7))) [1, 2, 3]
     (kp_sign sample_prims (KeyPair (replicate 32 7)) [1, 2, 3]) \<and>
   pk_from_hex sample_prims (pk_to_hex sample_prims (public sample_prims (KeyPair (replicate 32 7)))) =
     Inr (public sample_prims (KeyPair (replicate 32 7)))"
  by (rule sign_verify) (simp_all add: sample_prims_laws)

end
