(* ===== verification/Pow.thy ===== *)
theory Pow
  imports Primitives "HOL-Library.Monad_Syntax"
begin

text \<open>
  Model of \<open>crates/ondris-pow/src/lib.rs\<close>: the dataset of an epoch and OndrisHash. A
  \<open>usize\<close> index is a \<open>nat\<close>; a slice out of range, a failed \<open>assert!\<close> and a
  remainder by zero are panics, written \<open>None\<close>, and the theorems show that they do not happen
  on the datasets the code builds.
\<close>

definition EPOCH_LENGTH :: u64 where "EPOCH_LENGTH = 2048"
definition CACHE_SIZE :: nat where "CACHE_SIZE = 16 * 1024 * 1024"
definition DATASET_SIZE :: nat where "DATASET_SIZE = 64 * 1024 * 1024"
definition ITEM_SIZE :: nat where "ITEM_SIZE = 128"
definition ACCESSES :: nat where "ACCESSES = 64"
definition FNV_PRIME :: u32 where "FNV_PRIME = 0x01000193"

definition fnv :: "u32 \<Rightarrow> u32 \<Rightarrow> u32" where
  "fnv a b = (a * FNV_PRIME) XOR b"

definition read_u32_le :: "bytes \<Rightarrow> nat \<Rightarrow> u32 option" where
  "read_u32_le bs offset = map_option le_word (slice_at bs offset 4)"

definition write_u32_le :: "bytes \<Rightarrow> nat \<Rightarrow> u32 \<Rightarrow> bytes option" where
  "write_u32_le bs offset v =
     (if offset + 4 \<le> length bs
      then Some (take offset bs @ le_bytes 4 v @ drop (offset + 4) bs) else None)"

definition epoch_of :: "u64 \<Rightarrow> u64" where
  "epoch_of height = height div EPOCH_LENGTH"

definition epoch_seed :: "'a prims_scheme \<Rightarrow> hash256 option \<Rightarrow> hash256" where
  "epoch_seed P boundary =
     (case boundary of
        None \<Rightarrow> hash_of P (string_bytes ''ONDRIS_GENESIS_EPOCH'')
      | Some h \<Rightarrow> hash_of P (as_bytes h))"

definition xof_fill :: "'a prims_scheme \<Rightarrow> bytes \<Rightarrow> nat \<Rightarrow> bytes" where
  "xof_fill P seed out_len = blake3_xof P seed out_len"

section \<open>The dataset\<close>

record dataset =
  ds_epoch :: u64
  ds_bytes :: bytes

text \<open>The offset into the cache from which item \<open>i\<close> starts.\<close>

definition cache_offset :: "nat \<Rightarrow> nat \<Rightarrow> nat" where
  "cache_offset cache_size i = (i * ITEM_SIZE) mod max (cache_size - ITEM_SIZE + 1) 1"

text \<open>One of the two rehashing rounds: \<open>item = XOF(item || i)\<close>.\<close>

definition rehash_item :: "'a prims_scheme \<Rightarrow> nat \<Rightarrow> bytes \<Rightarrow> bytes" where
  "rehash_item P i item = blake3_xof P (item @ le_bytes 8 (of_nat i :: u64)) ITEM_SIZE"

definition dataset_item :: "'a prims_scheme \<Rightarrow> bytes \<Rightarrow> nat \<Rightarrow> bytes option" where
  "dataset_item P cache i =
     map_option (\<lambda>item. rehash_item P i (rehash_item P i item))
       (slice_at cache (cache_offset (length cache) i) ITEM_SIZE)"

text \<open>The loop over the items, each written behind the previous one.\<close>

fun dataset_items :: "'a prims_scheme \<Rightarrow> bytes \<Rightarrow> nat list \<Rightarrow> bytes option" where
  "dataset_items P cache [] = Some []"
| "dataset_items P cache (i # is) =
     do { item \<leftarrow> dataset_item P cache i; rest \<leftarrow> dataset_items P cache is; Some (item @ rest) }"

definition generate_with_sizes :: "'a prims_scheme \<Rightarrow> u64 \<Rightarrow> hash256 \<Rightarrow> nat \<Rightarrow> nat \<Rightarrow> dataset option" where
  "generate_with_sizes P epoch seed cache_size dataset_size =
     (if cache_size \<ge> ITEM_SIZE \<and> dataset_size \<ge> ITEM_SIZE
      then map_option (\<lambda>bs. \<lparr>ds_epoch = epoch, ds_bytes = bs\<rparr>)
             (dataset_items P (xof_fill P (as_bytes seed) cache_size) [0..<dataset_size div ITEM_SIZE])
      else None)"

definition generate :: "'a prims_scheme \<Rightarrow> u64 \<Rightarrow> hash256 \<Rightarrow> dataset option" where
  "generate P epoch seed = generate_with_sizes P epoch seed CACHE_SIZE DATASET_SIZE"

definition len_bytes :: "dataset \<Rightarrow> nat" where
  "len_bytes ds = length (ds_bytes ds)"

definition item :: "dataset \<Rightarrow> nat \<Rightarrow> bytes option" where
  "item ds idx =
     (let n_items = length (ds_bytes ds) div ITEM_SIZE
      in if n_items = 0 then None else slice_at (ds_bytes ds) (idx mod n_items * ITEM_SIZE) ITEM_SIZE)"

section \<open>OndrisHash\<close>

definition words_per_item :: nat where
  "words_per_item = ITEM_SIZE div 4"

text \<open>The inner loop: word \<open>w\<close> of the mix absorbs word \<open>w\<close> of the item.\<close>

fun absorb_item :: "bytes \<Rightarrow> nat list \<Rightarrow> bytes \<Rightarrow> bytes option" where
  "absorb_item it [] mix = Some mix"
| "absorb_item it (w # ws) mix =
     do { a \<leftarrow> read_u32_le mix (w * 4);
          b \<leftarrow> read_u32_le it (w * 4);
          mix' \<leftarrow> write_u32_le mix (w * 4) (fnv a b);
          absorb_item it ws mix' }"

text \<open>One access: pick an item from the current mix, then absorb it.\<close>

definition access_round :: "dataset \<Rightarrow> u32 \<Rightarrow> nat \<Rightarrow> nat \<Rightarrow> bytes \<Rightarrow> bytes option" where
  "access_round ds seed_word0 n_items i mix =
     do { mix_word \<leftarrow> read_u32_le mix (i mod words_per_item * 4);
          it \<leftarrow> item ds (unat (fnv (seed_word0 XOR of_nat i) mix_word) mod n_items);
          absorb_item it [0..<words_per_item] mix }"

fun access_loop :: "dataset \<Rightarrow> u32 \<Rightarrow> nat \<Rightarrow> nat list \<Rightarrow> bytes \<Rightarrow> bytes option" where
  "access_loop ds sw n [] mix = Some mix"
| "access_loop ds sw n (i # is) mix =
     do { mix' \<leftarrow> access_round ds sw n i mix; access_loop ds sw n is mix' }"

text \<open>The fold of four consecutive words of the mix into word \<open>i\<close> of the compressed mix.\<close>

definition fold_group :: "bytes \<Rightarrow> nat \<Rightarrow> u32 option" where
  "fold_group mix i =
     do { w0 \<leftarrow> read_u32_le mix (i * 16);
          w1 \<leftarrow> read_u32_le mix (i * 16 + 4);
          w2 \<leftarrow> read_u32_le mix (i * 16 + 8);
          w3 \<leftarrow> read_u32_le mix (i * 16 + 12);
          Some (fnv (fnv (fnv w0 w1) w2) w3) }"

fun compress_loop :: "bytes \<Rightarrow> nat list \<Rightarrow> bytes \<Rightarrow> bytes option" where
  "compress_loop mix [] out = Some out"
| "compress_loop mix (i # is) out =
     do { v \<leftarrow> fold_group mix i; out' \<leftarrow> write_u32_le out (i * 4) v; compress_loop mix is out' }"

definition ondris_hash_with_accesses ::
    "'a prims_scheme \<Rightarrow> bytes \<Rightarrow> u64 \<Rightarrow> dataset \<Rightarrow> nat \<Rightarrow> hash256 option" where
  "ondris_hash_with_accesses P header_bytes nonce ds accesses =
     (let seed = blake3 P (header_bytes @ le_bytes 8 nonce);
          mix = xof_fill P seed ITEM_SIZE;
          n_items = max (len_bytes ds div ITEM_SIZE) 1
      in do { seed_word0 \<leftarrow> read_u32_le seed 0;
              mix' \<leftarrow> access_loop ds seed_word0 n_items [0..<accesses] mix;
              compressed \<leftarrow> compress_loop mix' [0..<8] (replicate 32 0);
              Some (hash_of P (seed @ compressed)) })"

definition ondris_hash :: "'a prims_scheme \<Rightarrow> bytes \<Rightarrow> u64 \<Rightarrow> dataset \<Rightarrow> hash256 option" where
  "ondris_hash P header_bytes nonce ds = ondris_hash_with_accesses P header_bytes nonce ds ACCESSES"

definition meets_target :: "hash256 \<Rightarrow> bytes \<Rightarrow> bool" where
  "meets_target h target_be \<longleftrightarrow> to_u256_be h \<le> target_be"

section \<open>No panic on generated datasets\<close>

definition wf_dataset :: "dataset \<Rightarrow> bool" where
  "wf_dataset ds \<longleftrightarrow> ITEM_SIZE \<le> length (ds_bytes ds) \<and> ITEM_SIZE dvd length (ds_bytes ds)"

lemma read_u32_le_Some: "offset + 4 \<le> length bs \<Longrightarrow> read_u32_le bs offset = Some (le_word (take 4 (drop offset bs)))"
  by (simp add: read_u32_le_def slice_at_def)

lemma write_u32_le_Some:
  "offset + 4 \<le> length bs \<Longrightarrow>
     write_u32_le bs offset v = Some (take offset bs @ le_bytes 4 v @ drop (offset + 4) bs)"
  by (simp add: write_u32_le_def)

lemma read_write_same: "write_u32_le bs offset v = Some bs' \<Longrightarrow> read_u32_le bs' offset = Some v"
  by (auto simp: write_u32_le_def read_u32_le_def slice_at_def codec_simps split: if_splits)

lemma write_length: "write_u32_le bs offset v = Some bs' \<Longrightarrow> length bs' = length bs"
  by (auto simp: write_u32_le_def split: if_splits)

lemma read_write_other:
  assumes "write_u32_le bs a v = Some bs'" "b + 4 \<le> a \<or> a + 4 \<le> b"
  shows "read_u32_le bs' b = read_u32_le bs b"
proof -
  from assms(1) have a: "a + 4 \<le> length bs"
    and bs': "bs' = take a bs @ le_bytes 4 v @ drop (a + 4) bs"
    by (auto simp: write_u32_le_def split: if_splits)
  have "take 4 (drop b bs') = take 4 (drop b bs)"
    using assms(2) a by (auto simp: bs' min_def drop_take)
  moreover have "length bs' = length bs" using a by (simp add: bs')
  ultimately show ?thesis by (simp add: read_u32_le_def slice_at_def)
qed

lemma absorb_item_total:
  "length it = ITEM_SIZE \<Longrightarrow> length mix = ITEM_SIZE \<Longrightarrow> \<forall>w \<in> set ws. w < words_per_item \<Longrightarrow>
     \<exists>mix'. absorb_item it ws mix = Some mix' \<and> length mix' = ITEM_SIZE"
proof (induction ws arbitrary: mix)
  case (Cons w ws)
  then have "w * 4 + 4 \<le> ITEM_SIZE" by (simp add: words_per_item_def ITEM_SIZE_def)
  with Cons show ?case
    by (simp add: read_u32_le_Some write_u32_le_Some)
qed simp

lemma item_total: "wf_dataset ds \<Longrightarrow> \<exists>it. item ds idx = Some it \<and> length it = ITEM_SIZE"
proof -
  assume wf: "wf_dataset ds"
  then obtain n where n: "length (ds_bytes ds) = ITEM_SIZE * n" "0 < n"
    by (auto simp: wf_dataset_def ITEM_SIZE_def dvd_def)
  then have "length (ds_bytes ds) div ITEM_SIZE = n" by (simp add: ITEM_SIZE_def)
  moreover have "idx mod n * ITEM_SIZE + ITEM_SIZE \<le> length (ds_bytes ds)"
  proof -
    have "(idx mod n + 1) * ITEM_SIZE \<le> n * ITEM_SIZE"
      using n(2) by (intro mult_le_mono1) (simp add: Suc_le_eq)
    then show ?thesis by (simp add: n(1) algebra_simps)
  qed
  ultimately show ?thesis using n(2) by (simp add: item_def slice_at_def)
qed

lemma access_loop_total:
  "wf_dataset ds \<Longrightarrow> length mix = ITEM_SIZE \<Longrightarrow>
     \<exists>mix'. access_loop ds sw n is mix = Some mix' \<and> length mix' = ITEM_SIZE"
proof (induction "is" arbitrary: mix)
  case (Cons i "is")
  have "i mod words_per_item * 4 + 4 \<le> ITEM_SIZE"
  proof -
    have "i mod words_per_item < words_per_item" by (simp add: words_per_item_def ITEM_SIZE_def)
    then show ?thesis by (simp add: words_per_item_def ITEM_SIZE_def)
  qed
  then have r: "\<exists>v. read_u32_le mix (i mod words_per_item * 4) = Some v"
    using Cons.prems by (simp add: read_u32_le_Some)
  from r obtain v where v: "read_u32_le mix (i mod words_per_item * 4) = Some v" ..
  obtain it where it: "item ds (unat (fnv (sw XOR of_nat i) v) mod n) = Some it" "length it = ITEM_SIZE"
    using item_total [OF Cons.prems(1)] by blast
  from absorb_item_total [OF it(2) Cons.prems(2)] obtain mix' where
    "absorb_item it [0..<words_per_item] mix = Some mix'" "length mix' = ITEM_SIZE"
    by (metis atLeastLessThan_iff set_upt)
  with Cons.IH [OF Cons.prems(1), of mix'] v it show ?case
    by (simp add: access_round_def)
qed simp

lemma compress_loop_total:
  "length mix = ITEM_SIZE \<Longrightarrow> length out = 32 \<Longrightarrow> \<forall>i \<in> set is. i < 8 \<Longrightarrow>
     \<exists>out'. compress_loop mix is out = Some out' \<and> length out' = 32"
proof (induction "is" arbitrary: out)
  case (Cons i "is")
  then have "i \<le> 7" by simp
  with Cons show ?case
    by (simp add: fold_group_def read_u32_le_Some write_u32_le_Some ITEM_SIZE_def)
qed simp

lemma ondris_hash_total:
  assumes "hash_sizes P" "wf_dataset ds"
  shows "\<exists>h. ondris_hash_with_accesses P hb nonce ds k = Some h \<and> wf_hash h"
proof -
  let ?seed = "blake3 P (hb @ le_bytes 8 nonce)"
  obtain sw where sw: "read_u32_le ?seed 0 = Some sw"
    using assms(1) by (simp add: read_u32_le_Some)
  obtain mix where mix: "access_loop ds sw (max (len_bytes ds div ITEM_SIZE) 1) [0..<k]
      (xof_fill P ?seed ITEM_SIZE) = Some mix" "length mix = ITEM_SIZE"
    using access_loop_total [OF assms(2)] assms(1) by (metis hash_sizes_xof xof_fill_def)
  obtain c where "compress_loop mix [0..<8] (replicate 32 0) = Some c"
    using compress_loop_total [OF mix(2)] by (metis atLeastLessThan_iff length_replicate set_upt)
  with sw mix assms(1) show ?thesis
    by (simp add: ondris_hash_with_accesses_def Let_def wf_hash_def hash_of_def)
qed

lemma dataset_item_total:
  assumes "hash_sizes P" "ITEM_SIZE \<le> length cache"
  shows "\<exists>it. dataset_item P cache i = Some it \<and> length it = ITEM_SIZE"
proof -
  have "cache_offset (length cache) i \<le> length cache - ITEM_SIZE"
    using mod_less_divisor [of "length cache - ITEM_SIZE + 1" "i * ITEM_SIZE"]
    by (simp add: cache_offset_def max_def)
  with assms show ?thesis
    by (auto simp: dataset_item_def slice_at_def rehash_item_def)
qed

lemma dataset_items_total:
  assumes "hash_sizes P" "ITEM_SIZE \<le> length cache"
  shows "\<exists>bs. dataset_items P cache is = Some bs \<and> length bs = ITEM_SIZE * length is"
proof (induction "is")
  case (Cons i "is")
  with dataset_item_total [OF assms, of i] show ?case by auto
qed simp

lemma generate_with_sizes_total:
  assumes "hash_sizes P" "ITEM_SIZE \<le> cs" "ITEM_SIZE \<le> n"
  shows "\<exists>ds. generate_with_sizes P e seed cs n = Some ds \<and> ds_epoch ds = e \<and>
    length (ds_bytes ds) = n div ITEM_SIZE * ITEM_SIZE \<and> wf_dataset ds"
proof -
  have "1 \<le> n div ITEM_SIZE"
    using div_le_mono [OF assms(3), of ITEM_SIZE] by (simp add: ITEM_SIZE_def)
  moreover from dataset_items_total [OF assms(1), of "xof_fill P (as_bytes seed) cs" "[0..<n div ITEM_SIZE]"]
  obtain bs where "dataset_items P (xof_fill P (as_bytes seed) cs) [0..<n div ITEM_SIZE] = Some bs"
    "length bs = ITEM_SIZE * (n div ITEM_SIZE)"
    using assms by (auto simp: xof_fill_def)
  ultimately show ?thesis
    using assms by (simp add: generate_with_sizes_def wf_dataset_def ITEM_SIZE_def)
qed

lemma generate_total:
  assumes "hash_sizes P"
  shows "\<exists>ds. generate P e seed = Some ds \<and> ds_epoch ds = e \<and> wf_dataset ds"
  using generate_with_sizes_total [OF assms, of CACHE_SIZE DATASET_SIZE e seed]
  by (auto simp: generate_def CACHE_SIZE_def DATASET_SIZE_def ITEM_SIZE_def)


section \<open>What the loops compute\<close>

text \<open>
  Word-level reading of a buffer of \<open>4 * n\<close> bytes, and the loops as maps on it: every word of
  the mix is combined with the word of the item at the same position, once, whatever the order.
\<close>

definition words_of :: "nat \<Rightarrow> bytes \<Rightarrow> u32 list" where
  "words_of n bs = map (\<lambda>w. le_word (take 4 (drop (w * 4) bs))) [0..<n]"

lemma absorb_item_word:
  assumes "absorb_item it ws mix = Some mix'" "distinct ws" "w * 4 + 4 \<le> length mix"
  shows "read_u32_le mix' (w * 4) =
    (if w \<in> set ws then map_option (fnv (le_word (take 4 (drop (w * 4) mix)))) (read_u32_le it (w * 4))
     else read_u32_le mix (w * 4))"
  using assms
proof (induction ws arbitrary: mix)
  case (Cons v ws)
  from Cons.prems(1) obtain a b m where
    a: "read_u32_le mix (v * 4) = Some a" and b: "read_u32_le it (v * 4) = Some b"
    and m: "write_u32_le mix (v * 4) (fnv a b) = Some m" and rest: "absorb_item it ws m = Some mix'"
    by (auto simp: bind_eq_Some_conv)
  have len: "length m = length mix" using write_length [OF m] .
  note IH = Cons.IH [OF rest]
  show ?case
  proof (cases "w = v")
    case True
    then have "read_u32_le mix' (w * 4) = read_u32_le m (v * 4)"
      using IH Cons.prems(2,3) len by simp
    with True a b read_write_same [OF m] Cons.prems(3) show ?thesis
      by (simp add: read_u32_le_Some)
  next
    case False
    then have "w * 4 + 4 \<le> v * 4 \<or> v * 4 + 4 \<le> w * 4" by linarith
    from read_write_other [OF m this] have "read_u32_le m (w * 4) = read_u32_le mix (w * 4)" .
    then show ?thesis
      using False IH Cons.prems(2,3) len by (simp add: read_u32_le_Some)
  qed
qed simp


lemma words_of_eq_iff_read:
  "4 * n \<le> length bs \<Longrightarrow> w < n \<Longrightarrow> read_u32_le bs (w * 4) = Some (words_of n bs ! w)"
  by (simp add: read_u32_le_Some words_of_def)

lemma absorb_item_words:
  assumes "length it = ITEM_SIZE" "length mix = ITEM_SIZE"
    and "absorb_item it [0..<words_per_item] mix = Some mix'"
  shows "words_of words_per_item mix' = map2 fnv (words_of words_per_item mix) (words_of words_per_item it)"
proof (rule nth_equalityI)
  have len: "length mix' = ITEM_SIZE"
    using absorb_item_total [OF assms(1,2), of "[0..<words_per_item]"] assms(3) by auto
  fix w assume "w < length (words_of words_per_item mix')"
  then have w: "w < words_per_item" by (simp add: words_of_def)
  then have b: "4 * words_per_item \<le> ITEM_SIZE" "w * 4 + 4 \<le> ITEM_SIZE"
    by (simp_all add: words_per_item_def ITEM_SIZE_def)
  have "Some (words_of words_per_item mix' ! w) =
      Some (fnv (words_of words_per_item mix ! w) (words_of words_per_item it ! w))"
    using absorb_item_word [OF assms(3), of w] w b len assms(1,2)
      words_of_eq_iff_read [of words_per_item mix' w] words_of_eq_iff_read [of words_per_item it w]
    by (simp add: words_of_def)
  then show "words_of words_per_item mix' ! w =
      map2 fnv (words_of words_per_item mix) (words_of words_per_item it) ! w"
    using w by (simp add: words_of_def)
qed (simp add: words_of_def)

section \<open>Properties\<close>

text \<open>
  Hashing never panics: on every dataset that \<open>generate_with_sizes\<close> builds from sizes that
  pass its assertion, whatever the header, the nonce and the number of accesses, OndrisHash
  returns, and what it returns has 32 bytes.
\<close>

theorem ondris_hash_no_panic:
  assumes "hash_sizes P" "ITEM_SIZE \<le> cs" "ITEM_SIZE \<le> n"
  shows "\<exists>ds h. generate_with_sizes P e seed cs n = Some ds \<and>
    length (ds_bytes ds) = n div ITEM_SIZE * ITEM_SIZE \<and>
    ondris_hash_with_accesses P hb nonce ds k = Some h \<and> wf_hash h"
  using generate_with_sizes_total [OF assms] ondris_hash_total [OF assms(1)] by blast

theorem ondris_hash_no_panic_witness:
  "\<exists>ds h. generate_with_sizes sample_prims 0 ZERO 256 256 = Some ds \<and>
    length (ds_bytes ds) = 256 div ITEM_SIZE * ITEM_SIZE \<and>
    ondris_hash_with_accesses sample_prims [1, 2] 3 ds 64 = Some h \<and> wf_hash h"
  by (rule ondris_hash_no_panic) (simp_all add: sample_prims_laws ITEM_SIZE_def)

text \<open>
  One dataset access mixes word by word: after it, word \<open>k\<close> of the mix is
  \<open>fnv\<close> of the old word \<open>k\<close> and word \<open>k\<close> of the item, for all 32 words.
\<close>

theorem access_mixes_words:
  assumes "length it = ITEM_SIZE" "length mix = ITEM_SIZE"
  shows "\<exists>mix'. absorb_item it [0..<words_per_item] mix = Some mix' \<and> length mix' = ITEM_SIZE \<and>
    words_of words_per_item mix' = map2 fnv (words_of words_per_item mix) (words_of words_per_item it)"
  using absorb_item_total [OF assms, of "[0..<words_per_item]"] absorb_item_words [OF assms] by auto

theorem access_mixes_words_witness:
  "\<exists>mix'. absorb_item (replicate 128 7) [0..<words_per_item] (replicate 128 1) = Some mix' \<and>
    length mix' = ITEM_SIZE \<and>
    words_of words_per_item mix' =
      map2 fnv (words_of words_per_item (replicate 128 1)) (words_of words_per_item (replicate 128 7))"
  by (rule access_mixes_words) (simp_all add: ITEM_SIZE_def)

text \<open>
  Each item starts inside the cache, and the offset agrees with the formula of
  \<open>docs/ALGORITHM.md\<close>, \<open>(i * ITEM_SIZE) % CACHE_SIZE\<close>, as long as the cache is not
  wrapped around; at the first item after the wrap the two differ (127 against 0).
\<close>

theorem cache_offset_vs_doc:
  "cache_offset CACHE_SIZE i + ITEM_SIZE \<le> CACHE_SIZE \<and>
   (i * ITEM_SIZE + ITEM_SIZE \<le> CACHE_SIZE \<longrightarrow> cache_offset CACHE_SIZE i = (i * ITEM_SIZE) mod CACHE_SIZE) \<and>
   cache_offset CACHE_SIZE 131072 = 127 \<and> (131072 * ITEM_SIZE) mod CACHE_SIZE = 0"
proof -
  have "(i * 128) mod 16777089 < (16777089 :: nat)" by simp
  then have 1: "cache_offset CACHE_SIZE i + ITEM_SIZE \<le> CACHE_SIZE"
    unfolding cache_offset_def CACHE_SIZE_def ITEM_SIZE_def by simp
  then show ?thesis by (auto simp: cache_offset_def CACHE_SIZE_def ITEM_SIZE_def)
qed

theorem cache_offset_vs_doc_witness:
  "cache_offset CACHE_SIZE 3 + ITEM_SIZE \<le> CACHE_SIZE \<and>
   cache_offset CACHE_SIZE 3 = (3 * ITEM_SIZE) mod CACHE_SIZE"
  using cache_offset_vs_doc [of 3] by (simp add: CACHE_SIZE_def ITEM_SIZE_def)

text \<open>
  The byte-array comparison of \<open>meets_target\<close> is the comparison of the two 256-bit numbers.
\<close>

theorem meets_target_numeric:
  assumes "wf_hash h" "length t = 32"
  shows "meets_target h t \<longleftrightarrow> be_val (hash_bytes h) \<le> be_val t"
  using assms by (simp add: meets_target_def to_u256_be_def wf_hash_def be_val_lex)

theorem meets_target_numeric_witness:
  "meets_target (Hash256 (replicate 32 1)) (replicate 32 2) \<longleftrightarrow>
   be_val (hash_bytes (Hash256 (replicate 32 1))) \<le> be_val (replicate 32 2)"
  by (rule meets_target_numeric) (simp_all add: wf_hash_def)

end
