(* ===== verification/Blake3_Ref.thy ===== *)
theory Blake3_Ref
  imports Ondris_Prelude "HOL-Library.Monad_Syntax"
begin

text \<open>
  Model of \<open>crates/ondris-miner-gpu/src/blake3_ref.rs\<close>, the repository's own BLAKE3: the
  compression function on lists of 32-bit words, the XOF of a 32-byte seed, the chunk hash, and
  the streaming tree hash with its stack of chaining values. The theorem of this theory relates
  the stack algorithm to the recursive definition of the BLAKE3 tree. A pop from an empty stack
  and a slice out of range are panics, \<open>None\<close>.
\<close>

type_synonym cv = "u32 list"

definition IV :: "u32 list" where
  "IV = [0x6A09E667, 0xBB67AE85, 0x3C6EF372, 0xA54FF53A, 0x510E527F, 0x9B05688C, 0x1F83D9AB, 0x5BE0CD19]"

definition MSG_PERMUTATION :: "nat list" where
  "MSG_PERMUTATION = [2, 6, 3, 10, 7, 0, 4, 13, 1, 11, 12, 5, 9, 14, 15, 8]"

definition CHUNK_START :: u32 where "CHUNK_START = 1"
definition CHUNK_END :: u32 where "CHUNK_END = 2"
definition PARENT :: u32 where "PARENT = 4"
definition ROOT :: u32 where "ROOT = 8"

definition CHUNK_LEN :: nat where "CHUNK_LEN = 1024"
definition BLOCK_LEN :: nat where "BLOCK_LEN = 64"

definition g_mix :: "u32 list \<Rightarrow> nat \<Rightarrow> nat \<Rightarrow> nat \<Rightarrow> nat \<Rightarrow> u32 \<Rightarrow> u32 \<Rightarrow> u32 list" where
  "g_mix st a b c d mx my =
     (let st = st[a := st ! a + st ! b + mx];
          st = st[d := word_rotr 16 (st ! d XOR st ! a)];
          st = st[c := st ! c + st ! d];
          st = st[b := word_rotr 12 (st ! b XOR st ! c)];
          st = st[a := st ! a + st ! b + my];
          st = st[d := word_rotr 8 (st ! d XOR st ! a)];
          st = st[c := st ! c + st ! d]
      in st[b := word_rotr 7 (st ! b XOR st ! c)])"

definition mix_round :: "u32 list \<Rightarrow> u32 list \<Rightarrow> u32 list" where
  "mix_round st m =
     (let st = g_mix st 0 4 8 12 (m ! 0) (m ! 1);
          st = g_mix st 1 5 9 13 (m ! 2) (m ! 3);
          st = g_mix st 2 6 10 14 (m ! 4) (m ! 5);
          st = g_mix st 3 7 11 15 (m ! 6) (m ! 7);
          st = g_mix st 0 5 10 15 (m ! 8) (m ! 9);
          st = g_mix st 1 6 11 12 (m ! 10) (m ! 11);
          st = g_mix st 2 7 8 13 (m ! 12) (m ! 13)
      in g_mix st 3 4 9 14 (m ! 14) (m ! 15))"

definition permute :: "u32 list \<Rightarrow> u32 list" where
  "permute m = map (\<lambda>i. m ! (MSG_PERMUTATION ! i)) [0..<16]"

text \<open>The seven rounds; the message is permuted after all but the last.\<close>

fun rounds :: "nat list \<Rightarrow> u32 list \<Rightarrow> u32 list \<Rightarrow> u32 list" where
  "rounds [] st m = st"
| "rounds (r # rs) st m =
     (let st = mix_round st m; m = (if r < 6 then permute m else m) in rounds rs st m)"

text \<open>The final loop: \<open>state[i] ^= state[i + 8]; state[i + 8] ^= cv[i]\<close>.\<close>

fun finish :: "cv \<Rightarrow> nat list \<Rightarrow> u32 list \<Rightarrow> u32 list" where
  "finish cv [] st = st"
| "finish cv (i # is) st =
     (let st = st[i := st ! i XOR st ! (i + 8)]
      in finish cv is (st[i + 8 := st ! (i + 8) XOR cv ! i]))"

definition compress :: "cv \<Rightarrow> u32 list \<Rightarrow> u64 \<Rightarrow> u32 \<Rightarrow> u32 \<Rightarrow> u32 list" where
  "compress cv block_words counter block_len flags =
     finish cv [0..<8]
       (rounds [0..<7]
          (take 8 cv @ take 4 IV @ [ucast counter, ucast (drop_bit 32 counter), block_len, flags])
          block_words)"

definition words_from_le_bytes_padded :: "bytes \<Rightarrow> u32 list" where
  "words_from_le_bytes_padded block =
     (let padded = block @ replicate (BLOCK_LEN - length block) 0
      in map (\<lambda>i. le_word (take 4 (drop (i * 4) padded))) [0..<16])"

definition chaining_value_of :: "cv \<Rightarrow> u32 list \<Rightarrow> u64 \<Rightarrow> u32 \<Rightarrow> u32 \<Rightarrow> cv" where
  "chaining_value_of cv block_words counter block_len flags =
     take 8 (compress cv block_words counter block_len flags)"

definition words_to_le_bytes :: "u32 list \<Rightarrow> bytes" where
  "words_to_le_bytes ws = concat (map (le_bytes 4) ws)"

section \<open>Chunks\<close>

definition block_flags :: "nat \<Rightarrow> nat \<Rightarrow> bool \<Rightarrow> u32" where
  "block_flags i n_blocks root =
     (if i = 0 then CHUNK_START else 0) OR
     (if i = n_blocks - 1 then CHUNK_END OR (if root then ROOT else 0) else 0)"

fun hash_blocks :: "cv \<Rightarrow> u64 \<Rightarrow> bool \<Rightarrow> nat \<Rightarrow> nat \<Rightarrow> bytes list \<Rightarrow> cv" where
  "hash_blocks cv chunk_counter root n_blocks i [] = cv"
| "hash_blocks cv chunk_counter root n_blocks i (block # blocks) =
     hash_blocks
       (chaining_value_of cv (words_from_le_bytes_padded block) chunk_counter
          (of_nat (length block)) (block_flags i n_blocks root))
       chunk_counter root n_blocks (Suc i) blocks"

definition hash_chunk :: "bytes \<Rightarrow> u64 \<Rightarrow> bool \<Rightarrow> cv" where
  "hash_chunk chunk chunk_counter root =
     (if chunk = []
      then chaining_value_of IV (replicate 16 0) chunk_counter 0
             (CHUNK_START OR CHUNK_END OR (if root then ROOT else 0))
      else hash_blocks IV chunk_counter root ((length chunk + BLOCK_LEN - 1) div BLOCK_LEN) 0
             (chunks BLOCK_LEN chunk))"

definition parent_cv :: "cv \<Rightarrow> cv \<Rightarrow> bool \<Rightarrow> cv" where
  "parent_cv left right root =
     chaining_value_of IV (take 8 left @ take 8 right) 0 (of_nat BLOCK_LEN)
       (PARENT OR (if root then ROOT else 0))"

section \<open>The stack of chaining values\<close>

text \<open>The \<open>Vec\<close> is a list with its top first. The loop runs while the count is even.\<close>

fun merge_cv_stack :: "cv list \<Rightarrow> cv \<Rightarrow> nat \<Rightarrow> cv list option" where
  "merge_cv_stack stack new_cv total_chunks =
     (if even total_chunks
      then (case stack of
              [] \<Rightarrow> None
            | left # rest \<Rightarrow> merge_cv_stack rest (parent_cv left new_cv False) (total_chunks div 2))
      else Some (new_cv # stack))"

declare merge_cv_stack.simps [simp del]

text \<open>The streaming loop over all chunks but the last.\<close>

function stream_chunks :: "bytes \<Rightarrow> nat \<Rightarrow> nat \<Rightarrow> nat \<Rightarrow> cv list \<Rightarrow> (nat \<times> nat \<times> cv list) option" where
  "stream_chunks data n_chunks offset chunk_counter stack =
     (if chunk_counter + 1 < n_chunks
      then do { chunk \<leftarrow> slice_at data offset CHUNK_LEN;
                stack' \<leftarrow> merge_cv_stack stack (hash_chunk chunk (of_nat chunk_counter) False) (chunk_counter + 1);
                stream_chunks data n_chunks (offset + CHUNK_LEN) (chunk_counter + 1) stack' }
      else Some (offset, chunk_counter, stack))"
  by pat_completeness auto
termination
  by (relation "measure (\<lambda>(d, n, off, c, st). n - c)") auto

declare stream_chunks.simps [simp del]

text \<open>The final loop, which folds the last chunk into the stack and marks the last merge as root.\<close>

fun fold_stack :: "cv list \<Rightarrow> cv \<Rightarrow> cv" where
  "fold_stack [] acc = acc"
| "fold_stack (left # stack) acc = fold_stack stack (parent_cv left acc (stack = []))"

definition blake3_hash :: "bytes \<Rightarrow> bytes option" where
  "blake3_hash data =
     (if length data \<le> CHUNK_LEN then Some (words_to_le_bytes (hash_chunk data 0 True))
      else
        let n_chunks = (length data + CHUNK_LEN - 1) div CHUNK_LEN
        in do { (offset, chunk_counter, stack) \<leftarrow> stream_chunks data n_chunks 0 0 [];
                Some (words_to_le_bytes
                  (fold_stack stack
                    (hash_chunk (drop offset data) (of_nat chunk_counter) (stack = [])))) })"

section \<open>Lengths\<close>

lemma length_g_mix [simp]: "length (g_mix st a b c d mx my) = length st"
  by (simp add: g_mix_def Let_def)

lemma length_mix_round [simp]: "length (mix_round st m) = length st"
  by (simp add: mix_round_def Let_def)

lemma length_rounds [simp]: "length (rounds rs st m) = length st"
  by (induction rs arbitrary: st m) (simp_all add: Let_def)

lemma length_finish [simp]: "length (finish cv is st) = length st"
  by (induction "is" arbitrary: st) (simp_all add: Let_def)

lemma length_compress: "length cv = 8 \<Longrightarrow> length (compress cv bw c bl f) = 16"
  by (simp add: compress_def IV_def)

lemma length_IV [simp]: "length IV = 8"
  by (simp add: IV_def)

lemma length_chaining_value: "length cv = 8 \<Longrightarrow> length (chaining_value_of cv bw c bl f) = 8"
  by (simp add: chaining_value_of_def length_compress)

lemma length_hash_blocks: "length cv = 8 \<Longrightarrow> length (hash_blocks cv c r n i bs) = 8"
  by (induction bs arbitrary: cv i) (simp_all add: length_chaining_value)

lemma length_hash_chunk [simp]: "length (hash_chunk ch c r) = 8"
  by (simp add: hash_chunk_def length_chaining_value length_hash_blocks)

lemma length_parent_cv [simp]: "length (parent_cv l r root) = 8"
  by (simp add: parent_cv_def length_chaining_value)

lemma length_words_to_le_bytes: "length (words_to_le_bytes ws) = 4 * length ws"
  by (induction ws) (simp_all add: words_to_le_bytes_def)

section \<open>The extendable output of a 32-byte seed\<close>

definition xof_block :: "bytes \<Rightarrow> nat \<Rightarrow> bytes" where
  "xof_block seed counter =
     words_to_le_bytes
       (compress IV (words_from_le_bytes_padded seed) (of_nat counter) (of_nat (length seed))
          (CHUNK_START OR CHUNK_END OR ROOT))"

lemma length_xof_block [simp]: "length (xof_block seed c) = 64"
  by (simp add: xof_block_def length_words_to_le_bytes length_compress)

function xof_loop :: "bytes \<Rightarrow> nat \<Rightarrow> nat \<Rightarrow> bytes \<Rightarrow> bytes" where
  "xof_loop seed out_len counter out =
     (if length out < out_len then xof_loop seed out_len (Suc counter) (out @ xof_block seed counter)
      else out)"
  by pat_completeness auto
termination
  by (relation "measure (\<lambda>(s, n, c, out). n - length out)") auto

declare xof_loop.simps [simp del]

definition xof_from_32_bytes :: "bytes \<Rightarrow> nat \<Rightarrow> bytes" where
  "xof_from_32_bytes seed out_len = take out_len (xof_loop seed out_len 0 [])"

lemma xof_loop_length: "out_len \<le> length (xof_loop seed out_len c out)"
proof (induction seed out_len c out rule: xof_loop.induct)
  case (1 seed out_len c out)
  then show ?case by (cases "length out < out_len") (simp_all add: xof_loop.simps [of seed out_len c out])
qed

lemma xof_length [simp]: "length (xof_from_32_bytes seed n) = n"
  by (simp add: xof_from_32_bytes_def xof_loop_length)


section \<open>The tree of chunks\<close>

text \<open>
  The recursive definition of the BLAKE3 tree, over \<open>n\<close> consecutive chunks from chunk \<open>s\<close>: the
  left subtree takes the largest power of two of chunks that leaves something for the right one,
  and only the last node computed carries the root flag.
\<close>

fun left_len :: "nat \<Rightarrow> nat" where
  "left_len n = (if n \<le> 2 then 1 else 2 * left_len ((n + 1) div 2))"

declare left_len.simps [simp del]

lemma left_len_pos: "1 \<le> left_len n"
proof (induction n rule: left_len.induct)
  case (1 n)
  then show ?case by (cases "n \<le> 2") (simp_all add: left_len.simps [of n])
qed

lemma left_len_less: "2 \<le> n \<Longrightarrow> left_len n < n"
proof (induction n rule: left_len.induct)
  case (1 n)
  show ?case
  proof (cases "n \<le> 2")
    case True
    then show ?thesis using 1(2) by (auto simp: left_len.simps)
  next
    case False
    with 1(1) have "left_len ((n + 1) div 2) < (n + 1) div 2" by simp
    with False show ?thesis by (simp add: left_len.simps [of n])
  qed
qed

lemma left_len_pow: "1 \<le> r \<Longrightarrow> r \<le> 2 ^ k \<Longrightarrow> left_len (2 ^ k + r) = 2 ^ k"
proof (induction k arbitrary: r)
  case 0
  then show ?case by (simp add: left_len.simps)
next
  case (Suc k)
  have "\<not> 2 ^ Suc k + r \<le> 2"
  proof -
    have "(1 :: nat) \<le> 2 ^ k" by simp
    then show ?thesis using Suc.prems(1) unfolding power_Suc by linarith
  qed
  moreover have "(2 ^ Suc k + r + 1) div 2 = 2 ^ k + (r + 1) div 2" by simp
  moreover have "left_len (2 ^ k + (r + 1) div 2) = 2 ^ k"
    using Suc.prems by (intro Suc.IH) auto
  ultimately show ?case using left_len.simps [of "2 ^ Suc k + r"] by simp
qed

definition leaf :: "bytes \<Rightarrow> bool \<Rightarrow> nat \<Rightarrow> cv" where
  "leaf data root i = hash_chunk (take CHUNK_LEN (drop (i * CHUNK_LEN) data)) (of_nat i) root"

function tree_cv :: "bytes \<Rightarrow> bool \<Rightarrow> nat \<Rightarrow> nat \<Rightarrow> cv" where
  "tree_cv data root s n =
     (if n \<le> 1 then leaf data root s
      else parent_cv (tree_cv data False s (left_len n))
             (tree_cv data False (s + left_len n) (n - left_len n)) root)"
  by pat_completeness auto
termination
proof (relation "measure (\<lambda>(data, root, s, n). n)", goal_cases)
  case (2 data root s n)
  then show ?case using left_len_less [of n] by simp
next
  case (3 data root s n)
  then show ?case using left_len_pos [of n] by simp
qed simp

declare tree_cv.simps [simp del]

definition blake3_tree :: "bytes \<Rightarrow> bytes" where
  "blake3_tree data =
     words_to_le_bytes (tree_cv data True 0 (max 1 ((length data + CHUNK_LEN - 1) div CHUNK_LEN)))"

lemma tree_cv_leaf: "n \<le> 1 \<Longrightarrow> tree_cv data root s n = leaf data root s"
  by (simp add: tree_cv.simps [of data root s n])

lemma tree_cv_pow:
  assumes "1 \<le> r" "r \<le> 2 ^ k"
  shows "tree_cv data root s (2 ^ k + r) =
    parent_cv (tree_cv data False s (2 ^ k)) (tree_cv data False (s + 2 ^ k) r) root"
proof -
  have "\<not> 2 ^ k + r \<le> 1"
  proof -
    have "(1 :: nat) \<le> 2 ^ k" by simp
    then show ?thesis using assms(1) by linarith
  qed
  then show ?thesis
    by (simp add: tree_cv.simps [of data root s "2 ^ k + r"] left_len_pow [OF assms])
qed

text \<open>
  The stack after \<open>m\<close> units of \<open>2 ^ k\<close> chunks: one complete subtree per set bit of \<open>m\<close>, the
  smallest on top.
\<close>

fun stack_of :: "bytes \<Rightarrow> nat \<Rightarrow> nat \<Rightarrow> cv list" where
  "stack_of data k m =
     (if m = 0 then []
      else if odd m then tree_cv data False ((m - 1) * 2 ^ k) (2 ^ k) # stack_of data (Suc k) (m div 2)
      else stack_of data (Suc k) (m div 2))"

declare stack_of.simps [simp del]

lemma stack_of_0 [simp]: "stack_of data k 0 = []"
  by (simp add: stack_of.simps)

lemma stack_of_even: "even m \<Longrightarrow> stack_of data k m = stack_of data (Suc k) (m div 2)"
  by (cases "m = 0") (simp_all add: stack_of.simps [of data k m])

lemma stack_of_odd:
  "odd m \<Longrightarrow> stack_of data k m =
     tree_cv data False ((m - 1) * 2 ^ k) (2 ^ k) # stack_of data (Suc k) (m div 2)"
  by (cases "m = 0") (simp_all add: stack_of.simps [of data k m])

lemma stack_of_empty_iff: "stack_of data k m = [] \<longleftrightarrow> m = 0"
proof (induction data k m rule: stack_of.induct)
  case (1 data k m)
  show ?case
  proof (cases "odd m")
    case True
    then show ?thesis by (cases "m = 0") (simp_all add: stack_of_odd)
  next
    case False
    then show ?thesis using 1(2) by (cases "m = 0") (auto simp: stack_of_even elim: evenE)
  qed
qed

lemma merge_stack_of:
  "merge_cv_stack (stack_of data k m) (tree_cv data False (m * 2 ^ k) (2 ^ k)) (m + 1) =
     Some (stack_of data k (m + 1))"
proof (induction data k m rule: stack_of.induct)
  case (1 data k m)
  show ?case
  proof (cases "odd m")
    case False
    then have "even m" by simp
    then show ?thesis
      by (simp add: merge_cv_stack.simps [of _ _ "Suc m"] stack_of_odd [of "Suc m"] stack_of_even [of m])
  next
    case True
    then obtain j where m: "m = 2 * j + 1" by (elim oddE)
    let ?l = "tree_cv data False ((m - 1) * 2 ^ k) (2 ^ k)"
    have two: "(2 :: nat) ^ k + 2 ^ k = 2 * 2 ^ k" by simp
    have p: "parent_cv ?l (tree_cv data False (m * 2 ^ k) (2 ^ k)) False =
        tree_cv data False (j * 2 ^ Suc k) (2 ^ Suc k)"
      using tree_cv_pow [of "2 ^ k" k data False "(m - 1) * 2 ^ k"] m by (simp add: two algebra_simps)
    have "merge_cv_stack (stack_of data (Suc k) j) (tree_cv data False (j * 2 ^ Suc k) (2 ^ Suc k)) (j + 1) =
        Some (stack_of data (Suc k) (j + 1))"
      using 1(1) True m by simp
    moreover have "even (m + 1)" "(m + 1) div 2 = j + 1" "m div 2 = j" using m by simp_all
    ultimately show ?thesis
      using True by (simp add: merge_cv_stack.simps [of _ _ "Suc m"] stack_of_odd [of m] p [unfolded One_nat_def]
          stack_of_even [of "Suc m"])
  qed
qed

lemma fold_stack_of:
  "1 \<le> r \<Longrightarrow> r \<le> 2 ^ k \<Longrightarrow>
     fold_stack (stack_of data k m) (tree_cv data (m = 0) (m * 2 ^ k) r) =
     tree_cv data True 0 (m * 2 ^ k + r)"
proof (induction data k m arbitrary: r rule: stack_of.induct)
  case (1 data k m)
  consider "m = 0" | "m \<noteq> 0" "even m" | "odd m" by blast
  then show ?case
  proof cases
    case 2
    then obtain j where m: "m = 2 * j" "j \<noteq> 0" by (auto elim: evenE)
    have "r \<le> 2 ^ Suc k" using 1(4) by simp
    with 1(2,3) 2 m have "fold_stack (stack_of data (Suc k) j) (tree_cv data (j = 0) (j * 2 ^ Suc k) r) =
        tree_cv data True 0 (j * 2 ^ Suc k + r)" by simp
    with m show ?thesis by (simp add: stack_of_even algebra_simps)
  next
    case 3
    then obtain j where m: "m = 2 * j + 1" by (elim oddE)
    then have jm: "m div 2 = j" "m \<noteq> 0" by simp_all
    let ?s = "(m - 1) * 2 ^ k"
    have p: "parent_cv (tree_cv data False ?s (2 ^ k)) (tree_cv data False (m * 2 ^ k) r) (j = 0) =
        tree_cv data (j = 0) (j * 2 ^ Suc k) (2 ^ k + r)"
      using tree_cv_pow [OF 1(3,4), of data "j = 0" ?s] m by (simp add: algebra_simps)
    have IH: "fold_stack (stack_of data (Suc k) j) (tree_cv data (j = 0) (j * 2 ^ Suc k) (2 ^ k + r)) =
        tree_cv data True 0 (j * 2 ^ Suc k + (2 ^ k + r))"
      using 1(1) [of "2 ^ k + r"] 3 jm 1(3,4) by simp
    have e: "j * 2 ^ Suc k + (2 ^ k + r) = m * 2 ^ k + r" using m by (simp add: algebra_simps)
    have "(m = 0) = False" using jm by simp
    then show ?thesis
      unfolding stack_of_odd [OF 3] jm(1) by (simp only: fold_stack.simps stack_of_empty_iff p IH e)
  qed simp
qed

lemma stream_chunks_stack:
  assumes "(n - 1) * CHUNK_LEN < length data" "c \<le> n - 1"
  shows "stream_chunks data n (c * CHUNK_LEN) c (stack_of data 0 c) =
    Some ((n - 1) * CHUNK_LEN, n - 1, stack_of data 0 (n - 1))"
  using assms(2)
proof (induction "n - 1 - c" arbitrary: c)
  case 0
  then have "c = n - 1" by simp
  then show ?case by (cases n) (simp_all add: stream_chunks.simps)
next
  case (Suc x)
  then have c: "c + 1 < n" "c + 1 \<le> n - 1" by simp_all
  have "(c + 1) * CHUNK_LEN \<le> (n - 1) * CHUNK_LEN" using c(2) by (rule mult_le_mono1)
  then have "slice_at data (c * CHUNK_LEN) CHUNK_LEN = Some (take CHUNK_LEN (drop (c * CHUNK_LEN) data))"
    using assms(1) by (simp add: slice_at_def)
  moreover have "merge_cv_stack (stack_of data 0 c)
      (hash_chunk (take CHUNK_LEN (drop (c * CHUNK_LEN) data)) (of_nat c) False) (c + 1) =
      Some (stack_of data 0 (c + 1))"
    using merge_stack_of [of data 0 c] by (simp add: tree_cv_leaf leaf_def)
  moreover have "x = n - 1 - (c + 1)" using Suc.hyps(2) by simp
  ultimately show ?case
    using c Suc.hyps(1) [of "c + 1"]
    by (simp add: stream_chunks.simps [of data n "c * CHUNK_LEN"] add.commute)
qed

text \<open>
  The stack algorithm computes the recursive tree: it never panics, and the chaining value it
  ends with is the root of the left-balanced tree over the chunks, for inputs of every length.
\<close>

lemma blake3_hash_tree: "blake3_hash data = Some (blake3_tree data)"
proof (cases "length data \<le> CHUNK_LEN")
  case True
  then have "(length data + CHUNK_LEN - 1) div CHUNK_LEN \<le> 1"
    by (simp add: CHUNK_LEN_def)
  with True show ?thesis
    by (simp add: blake3_hash_def blake3_tree_def tree_cv_leaf leaf_def max_def)
next
  case False
  define n where "n = (length data + CHUNK_LEN - 1) div CHUNK_LEN"
  have n: "2 \<le> n" "(n - 1) * CHUNK_LEN < length data" "length data \<le> n * CHUNK_LEN"
    using False by (auto simp: n_def CHUNK_LEN_def)
  have s: "stream_chunks data n 0 0 [] = Some ((n - 1) * CHUNK_LEN, n - 1, stack_of data 0 (n - 1))"
    using stream_chunks_stack [OF n(2), of 0] by simp
  have "drop ((n - 1) * CHUNK_LEN) data = take CHUNK_LEN (drop ((n - 1) * CHUNK_LEN) data)"
    using n by (simp add: diff_mult_distrib)
  then have "hash_chunk (drop ((n - 1) * CHUNK_LEN) data) (of_nat (n - 1)) (stack_of data 0 (n - 1) = []) =
      tree_cv data (n - 1 = 0) ((n - 1) * 2 ^ 0) 1"
    by (simp add: tree_cv_leaf leaf_def stack_of_empty_iff)
  moreover have "fold_stack (stack_of data 0 (n - 1)) (tree_cv data (n - 1 = 0) ((n - 1) * 2 ^ 0) 1) =
      tree_cv data True 0 n"
    using fold_stack_of [of 1 0 data "n - 1"] n(1) by simp
  moreover have "max 1 n = n" using n(1) by simp
  ultimately show ?thesis
    using False s unfolding blake3_hash_def blake3_tree_def Let_def n_def [symmetric]
    by (simp del: of_nat_diff)
qed

lemma length_tree_cv [simp]: "length (tree_cv data root s n) = 8"
  by (simp add: tree_cv.simps [of data root s n] leaf_def)

lemma length_blake3_tree [simp]: "length (blake3_tree data) = 32"
  by (simp add: blake3_tree_def length_words_to_le_bytes)


lemma concat_xof_blocks_length: "length (concat (map (xof_block seed) cs)) = 64 * length cs"
  by (induction cs) simp_all

lemma xof_loop_take:
  "n \<le> length out + 64 * k \<Longrightarrow>
     take n (xof_loop seed n c out) = take n (out @ concat (map (xof_block seed) [c..<c + k]))"
proof (induction k arbitrary: c out)
  case 0
  then show ?case by (simp add: xof_loop.simps [of seed n c out])
next
  case (Suc k)
  show ?case
  proof (cases "length out < n")
    case True
    have "[c..<c + Suc k] = c # [Suc c..<Suc c + k]" by (simp add: upt_rec)
    with True Suc.IH [of "out @ xof_block seed c" "Suc c"] Suc.prems show ?thesis
      by (simp add: xof_loop.simps [of seed n c out])
  next
    case False
    then show ?thesis by (simp add: xof_loop.simps [of seed n c out])
  qed
qed

lemma xof_as_stream:
  "n \<le> 64 * k \<Longrightarrow> xof_from_32_bytes seed n = take n (concat (map (xof_block seed) [0..<k]))"
  using xof_loop_take [of n "[]" k seed 0] by (simp add: xof_from_32_bytes_def)

section \<open>Properties\<close>

text \<open>
  C35. The streaming hash with its stack of chaining values computes the recursive BLAKE3 tree:
  for inputs of every length it returns without a panic, and its digest is the root of the tree in
  which every left subtree holds the largest power of two of chunks, with the root flag on the
  last compression alone.
\<close>

theorem blake3_ref_is_tree:
  "blake3_hash data = Some (blake3_tree data) \<and> length (blake3_tree data) = 32"
  by (simp add: blake3_hash_tree)

text \<open>
  The extendable output is one stream: asking for more bytes extends the output for fewer
  bytes, and byte \<open>i\<close> is byte \<open>i mod 64\<close> of the root compression with counter
  \<open>i div 64\<close>.
\<close>

theorem xof_prefix:
  assumes "n \<le> m"
  shows "length (xof_from_32_bytes seed m) = m \<and>
    take n (xof_from_32_bytes seed m) = xof_from_32_bytes seed n \<and>
    xof_from_32_bytes seed (64 * k) = concat (map (xof_block seed) [0..<k])"
proof -
  have b: "n \<le> 64 * m" "m \<le> 64 * m" using assms by linarith+
  show ?thesis
    using assms b xof_as_stream [of m m seed] xof_as_stream [of n m seed] xof_as_stream [of "64 * k" k seed]
    by (simp add: concat_xof_blocks_length min_absorb1)
qed

theorem xof_prefix_witness:
  "length (xof_from_32_bytes [1, 2] 70) = 70 \<and>
    take 10 (xof_from_32_bytes [1, 2] 70) = xof_from_32_bytes [1, 2] 10 \<and>
    xof_from_32_bytes [1, 2] (64 * 2) = concat (map (xof_block [1, 2]) [0..<2])"
  by (rule xof_prefix) simp

end
