(* ===== verification/Ondris_Hash_Ref.thy ===== *)
theory Ondris_Hash_Ref
  imports Pow Blake3_Ref
begin

text \<open>
  Model of \<open>crates/ondris-miner-gpu/src/ondris_hash_ref.rs\<close>: OndrisHash over raw dataset bytes,
  built on the repository's own BLAKE3. Its helpers \<open>fnv\<close>, \<open>read_u32_le\<close>,
  \<open>write_u32_le\<close>, the inner word loop and the compression loop are textually those of
  \<open>ondris-pow\<close> and are shared with theory \<open>Pow\<close>; what differs is how an item is fetched
  (a slice of the raw bytes, with no second remainder) and which BLAKE3 is called.
\<close>

definition ref_access_round :: "bytes \<Rightarrow> u32 \<Rightarrow> nat \<Rightarrow> nat \<Rightarrow> bytes \<Rightarrow> bytes option" where
  "ref_access_round dataset seed_word0 n_items i mix =
     do { mix_word \<leftarrow> read_u32_le mix (i mod words_per_item * 4);
          it \<leftarrow> slice_at dataset (unat (fnv (seed_word0 XOR of_nat i) mix_word) mod n_items * ITEM_SIZE) ITEM_SIZE;
          absorb_item it [0..<words_per_item] mix }"

fun ref_access_loop :: "bytes \<Rightarrow> u32 \<Rightarrow> nat \<Rightarrow> nat list \<Rightarrow> bytes \<Rightarrow> bytes option" where
  "ref_access_loop ds sw n [] mix = Some mix"
| "ref_access_loop ds sw n (i # is) mix =
     do { mix' \<leftarrow> ref_access_round ds sw n i mix; ref_access_loop ds sw n is mix' }"

definition ref_hash_with_accesses :: "bytes \<Rightarrow> u64 \<Rightarrow> bytes \<Rightarrow> nat \<Rightarrow> bytes option" where
  "ref_hash_with_accesses header_bytes nonce dataset accesses =
     do { seed \<leftarrow> blake3_hash (header_bytes @ le_bytes 8 nonce);
          seed_word0 \<leftarrow> read_u32_le seed 0;
          mix \<leftarrow> ref_access_loop dataset seed_word0 (max (length dataset div ITEM_SIZE) 1) [0..<accesses]
                  (xof_from_32_bytes seed ITEM_SIZE);
          compressed \<leftarrow> compress_loop mix [0..<8] (replicate 32 0);
          blake3_hash (seed @ compressed) }"

text \<open>What the tests of the file check of the \<open>blake3\<close> crate: it agrees with the reference.\<close>

definition blake3_agrees :: "'a prims_scheme \<Rightarrow> bool" where
  "blake3_agrees P \<longleftrightarrow> (\<forall>d. blake3_hash d = Some (blake3 P d)) \<and>
     (\<forall>s n. length s = 32 \<longrightarrow> blake3_xof P s n = xof_from_32_bytes s n)"

lemma item_is_slice:
  assumes "wf_dataset ds" "n = max (len_bytes ds div ITEM_SIZE) 1"
  shows "item ds (p mod n) = slice_at (ds_bytes ds) (p mod n * ITEM_SIZE) ITEM_SIZE"
proof -
  have "1 \<le> len_bytes ds div ITEM_SIZE"
    using assms(1) div_le_mono [of ITEM_SIZE "length (ds_bytes ds)" ITEM_SIZE]
    by (simp add: wf_dataset_def len_bytes_def ITEM_SIZE_def)
  with assms(2) show ?thesis by (simp add: item_def len_bytes_def)
qed

lemma ref_access_loop_eq:
  assumes "wf_dataset ds" "n = max (len_bytes ds div ITEM_SIZE) 1"
  shows "ref_access_loop (ds_bytes ds) sw n is = access_loop ds sw n is"
  by (induction "is")
    (rule ext, simp add: ref_access_round_def access_round_def item_is_slice [OF assms])+

text \<open>
  C36. The reference used to validate the GPU kernel computes the consensus hash: on every
  well-formed dataset, for every header, nonce and access count, it returns the same 32 bytes as
  \<open>ondris_pow::ondris_hash_with_accesses\<close> run on a BLAKE3 that agrees with the reference.
\<close>

theorem ref_hash_agrees:
  assumes "blake3_agrees P" "wf_dataset ds"
  shows "ref_hash_with_accesses hb nonce (ds_bytes ds) k =
      map_option hash_bytes (ondris_hash_with_accesses P hb nonce ds k) \<and>
    ref_hash_with_accesses hb nonce (ds_bytes ds) k \<noteq> None"
proof -
  have b: "blake3_hash d = Some (blake3 P d)" "length (blake3 P d) = 32" for d
    using assms(1) blake3_hash_tree [of d] length_blake3_tree [of d]
    by (auto simp: blake3_agrees_def)
  have x: "xof_from_32_bytes (blake3 P d) n = blake3_xof P (blake3 P d) n" for d n
    using assms(1) b(2) by (simp add: blake3_agrees_def)
  let ?n = "max (length (ds_bytes ds) div ITEM_SIZE) 1"
  let ?seed = "blake3 P (hb @ le_bytes 8 nonce)"
  obtain sw where sw: "read_u32_le ?seed 0 = Some sw" using b(2) by (simp add: read_u32_le_Some)
  have "length (blake3_xof P ?seed ITEM_SIZE) = ITEM_SIZE" using x [symmetric] by simp
  then obtain mix where mix: "access_loop ds sw ?n [0..<k] (blake3_xof P ?seed ITEM_SIZE) = Some mix"
      "length mix = ITEM_SIZE"
    using access_loop_total [OF assms(2)] by blast
  obtain c where c: "compress_loop mix [0..<8] (replicate 32 0) = Some c"
    using compress_loop_total [OF mix(2)] by (metis atLeastLessThan_iff length_replicate set_upt)
  have "ref_access_loop (ds_bytes ds) sw ?n [0..<k] (blake3_xof P ?seed ITEM_SIZE) = Some mix"
    using ref_access_loop_eq [OF assms(2), of ?n] mix(1) by (simp add: len_bytes_def)
  with sw mix c show ?thesis
    by (simp add: ref_hash_with_accesses_def ondris_hash_with_accesses_def Let_def b(1) x
        xof_fill_def len_bytes_def hash_of_def)
qed

definition reference_prims :: prims where
  "reference_prims = sample_prims\<lparr>blake3 := blake3_tree, blake3_xof := xof_from_32_bytes\<rparr>"

theorem ref_hash_agrees_witness:
  "ref_hash_with_accesses [1, 2, 3] 7 (replicate 256 5) 64 =
     map_option hash_bytes (ondris_hash_with_accesses reference_prims [1, 2, 3] 7 \<lparr>ds_epoch = 0, ds_bytes = replicate 256 5\<rparr> 64) \<and>
   ref_hash_with_accesses [1, 2, 3] 7 (replicate 256 5) 64 \<noteq> None"
proof -
  have agrees: "blake3_agrees reference_prims"
    by (simp add: blake3_agrees_def reference_prims_def blake3_hash_tree)
  have wf: "wf_dataset \<lparr>ds_epoch = 0, ds_bytes = replicate 256 5\<rparr>"
    by (simp add: wf_dataset_def ITEM_SIZE_def)
  from ref_hash_agrees [OF agrees wf, of "[1, 2, 3]" 7 64] show ?thesis
    unfolding dataset.select_convs .
qed

end
