(* ===== verification/Ledger_Types.thy ===== *)
theory Ledger_Types
  imports Pow
begin

text \<open>
  Model of the data of \<open>crates/ondris-core/src\<close>: \<open>transaction.rs\<close>, \<open>header.rs\<close>,
  \<open>block.rs\<close> and \<open>genesis.rs\<close>. The JSON a transaction is hashed over comes from
  \<open>serde_json\<close>, a parameter: the record \<open>env\<close> extends the third-party functions with it.
\<close>

section \<open>Transactions\<close>

record transaction =
  tx_from :: public_key
  tx_to :: address
  amount :: u64
  fee :: u64
  account_nonce :: u64
  tx_signature :: "signature option"

record env = prims +
  json_tx :: "transaction \<Rightarrow> bytes"  \<comment> \<open>\<open>serde_json::to_vec\<close>\<close>

definition new_unsigned :: "public_key \<Rightarrow> address \<Rightarrow> u64 \<Rightarrow> u64 \<Rightarrow> u64 \<Rightarrow> transaction" where
  "new_unsigned from to am fe an =
     \<lparr>tx_from = from, tx_to = to, amount = am, fee = fe, account_nonce = an, tx_signature = None\<rparr>"

definition signing_bytes :: "transaction \<Rightarrow> bytes" where
  "signing_bytes tx =
     pk_bytes (tx_from tx) @ addr_bytes (tx_to tx) @ le_bytes 8 (amount tx) @ le_bytes 8 (fee tx) @
     le_bytes 8 (account_nonce tx)"

text \<open>The \<open>assert_eq!\<close> on the sender's key is a panic, \<open>None\<close>.\<close>

definition sign_tx :: "'a prims_scheme \<Rightarrow> key_pair \<Rightarrow> transaction \<Rightarrow> transaction option" where
  "sign_tx P kp tx =
     (if pk_bytes (public P kp) = pk_bytes (tx_from tx)
      then Some (tx\<lparr>tx_signature := Some (kp_sign P kp (signing_bytes tx))\<rparr>) else None)"

definition is_signature_valid :: "'a prims_scheme \<Rightarrow> transaction \<Rightarrow> bool" where
  "is_signature_valid P tx =
     (case tx_signature tx of
        Some sg \<Rightarrow> verify P (tx_from tx) (signing_bytes tx) sg
      | None \<Rightarrow> False)"

definition tx_hash :: "'a env_scheme \<Rightarrow> transaction \<Rightarrow> hash256" where
  "tx_hash E tx = hash_of E (json_tx E tx)"

definition wf_tx :: "transaction \<Rightarrow> bool" where
  "wf_tx tx \<longleftrightarrow> length (pk_bytes (tx_from tx)) = 32 \<and> length (addr_bytes (tx_to tx)) = 20"

section \<open>Block headers\<close>

record block_header =
  height :: u64
  prev_hash :: hash256
  tx_root :: hash256
  timestamp :: u64
  difficulty :: u64
  miner :: address
  nonce :: u64

definition bytes_for_pow :: "block_header \<Rightarrow> bytes" where
  "bytes_for_pow h =
     le_bytes 8 (height h) @ as_bytes (prev_hash h) @ as_bytes (tx_root h) @
     le_bytes 8 (timestamp h) @ le_bytes 8 (difficulty h) @ addr_bytes (miner h)"

definition header_id :: "'a prims_scheme \<Rightarrow> block_header \<Rightarrow> dataset \<Rightarrow> hash256 option" where
  "header_id P h ds = ondris_hash P (bytes_for_pow h) (nonce h) ds"

definition wf_header :: "block_header \<Rightarrow> bool" where
  "wf_header h \<longleftrightarrow> wf_hash (prev_hash h) \<and> wf_hash (tx_root h) \<and> length (addr_bytes (miner h)) = 20"

section \<open>Blocks and the Merkle root\<close>

record block =
  header :: block_header
  transactions :: "transaction list"

definition combine_pair :: "'a prims_scheme \<Rightarrow> hash256 list \<Rightarrow> hash256" where
  "combine_pair P pair =
     (if length pair = 2 then hash_of P (as_bytes (pair ! 0) @ as_bytes (pair ! 1))
      else hash_of P (as_bytes (pair ! 0) @ as_bytes (pair ! 0)))"

definition merkle_level :: "'a prims_scheme \<Rightarrow> hash256 list \<Rightarrow> hash256 list" where
  "merkle_level P level = map (combine_pair P) (chunks 2 level)"

lemma length_chunks2: "length (chunks 2 xs) = (length xs + 1) div 2"
proof (induction "2 :: nat" xs rule: chunks.induct)
  case (1 xs)
  then show ?case
    by (cases xs rule: list.exhaust [case_product list.exhaust [of "tl xs"]])
      (auto simp: chunks_step)
qed

lemma length_merkle_level: "length (merkle_level P xs) = (length xs + 1) div 2"
  by (simp add: merkle_level_def length_chunks2)

function merkle_reduce :: "'a prims_scheme \<Rightarrow> hash256 list \<Rightarrow> hash256 list" where
  "merkle_reduce P level = (if length level > 1 then merkle_reduce P (merkle_level P level) else level)"
  by pat_completeness auto
termination
  by (relation "measure (\<lambda>(P, l). length l)") (auto simp: length_merkle_level)

declare merkle_reduce.simps [simp del]

definition merkle_root :: "'a prims_scheme \<Rightarrow> hash256 list \<Rightarrow> hash256" where
  "merkle_root P hashes = (if hashes = [] then ZERO else merkle_reduce P hashes ! 0)"

definition compute_tx_root :: "'a env_scheme \<Rightarrow> block \<Rightarrow> hash256" where
  "compute_tx_root E b = merkle_root E (map (tx_hash E) (transactions b))"

section \<open>The genesis configuration\<close>

record genesis_config =
  network_name :: string
  gen_timestamp :: u64
  initial_difficulty :: u64
  initial_reward :: u64
  halving_interval :: u64
  target_block_time_secs :: u64
  retarget_window :: u64
  premine :: "(string \<times> u64) list"

definition testnet_default :: genesis_config where
  "testnet_default =
     \<lparr>network_name = ''ondris-testnet'', gen_timestamp = 1753142400, initial_difficulty = 1000,
      initial_reward = 50 * 100000000, halving_interval = 210000, target_block_time_secs = 30,
      retarget_window = 60, premine = []\<rparr>"

text \<open>The file \<open>config/testnet-genesis.json\<close>, as \<open>GenesisConfig::load\<close> reads it.\<close>

definition testnet_genesis_json :: genesis_config where
  "testnet_genesis_json =
     \<lparr>network_name = ''ondris-testnet-1'', gen_timestamp = 1753142400, initial_difficulty = 40000000,
      initial_reward = 5000000000, halving_interval = 210000, target_block_time_secs = 30,
      retarget_window = 60, premine = []\<rparr>"

text \<open>\<open>collect\<close> into a \<open>Result\<close> stops at the first entry that does not parse.\<close>

fun parse_premine :: "'a prims_scheme \<Rightarrow> (string \<times> u64) list \<Rightarrow> parse_error + (address \<times> u64) list" where
  "parse_premine P [] = Inr []"
| "parse_premine P ((s, am) # es) =
     (case addr_from_str P s of
        Inl e \<Rightarrow> Inl e
      | Inr a \<Rightarrow> (case parse_premine P es of Inl e \<Rightarrow> Inl e | Inr rest \<Rightarrow> Inr ((a, am) # rest)))"

definition premine_parsed :: "'a prims_scheme \<Rightarrow> genesis_config \<Rightarrow> parse_error + (address \<times> u64) list" where
  "premine_parsed P gen = parse_premine P (premine gen)"

section \<open>Encodings are injective\<close>

lemma length_signing_bytes: "wf_tx tx \<Longrightarrow> length (signing_bytes tx) = 76"
  by (simp add: signing_bytes_def wf_tx_def)

lemma length_bytes_for_pow: "wf_header h \<Longrightarrow> length (bytes_for_pow h) = 108"
  by (simp add: bytes_for_pow_def wf_header_def wf_hash_def as_bytes_def)

lemma as_bytes_inject [simp]: "as_bytes a = as_bytes b \<longleftrightarrow> a = b"
  by (auto simp: as_bytes_def hash256.expand)

lemma length_as_bytes: "wf_hash h \<Longrightarrow> length (as_bytes h) = 32"
  by (simp add: as_bytes_def wf_hash_def)

lemma le64_inject [simp]: "le_bytes 8 (v :: u64) = le_bytes 8 w \<longleftrightarrow> v = w"
  by (rule le64.enc_inject)

lemma le64_append_inject [simp]: "le_bytes 8 (v :: u64) @ r = le_bytes 8 w @ s \<longleftrightarrow> v = w \<and> r = s"
  by (rule le64.enc_append_inject)

section \<open>The Merkle tree\<close>

lemma merkle_level_simps [simp]:
  "merkle_level P [] = []"
  "merkle_level P [a] = [hash_of P (as_bytes a @ as_bytes a)]"
  "merkle_level P (a # b # hs) = hash_of P (as_bytes a @ as_bytes b) # merkle_level P hs"
  by (simp_all add: merkle_level_def combine_pair_def chunks_step)

lemma merkle_level_dup: "odd (length hs) \<Longrightarrow> merkle_level P (hs @ [last hs]) = merkle_level P hs"
  by (induction hs rule: induct_list012) auto

lemma merkle_reduce_step: "1 < length hs \<Longrightarrow> merkle_reduce P hs = merkle_reduce P (merkle_level P hs)"
  by (simp add: merkle_reduce.simps [of P hs])

lemma merkle_reduce_short: "length hs \<le> 1 \<Longrightarrow> merkle_reduce P hs = hs"
  by (simp add: merkle_reduce.simps [of P hs])

lemma merkle_reduce_length: "hs \<noteq> [] \<Longrightarrow> length (merkle_reduce P hs) = 1"
proof (induction P hs rule: merkle_reduce.induct)
  case (1 P hs)
  show ?case
  proof (cases "1 < length hs")
    case True
    then have "0 < length (merkle_level P hs)" by (simp add: length_merkle_level)
    with 1 True show ?thesis by (simp add: merkle_reduce_step)
  next
    case False
    moreover from False 1(2) have "length hs = 1" by (cases hs) auto
    ultimately show ?thesis by (simp add: merkle_reduce_short)
  qed
qed

lemma merkle_root_dup:
  assumes "odd (length hs)" "1 < length hs"
  shows "merkle_root P (hs @ [last hs]) = merkle_root P hs"
  using assms merkle_reduce_step [of hs P] merkle_reduce_step [of "hs @ [last hs]" P]
  by (auto simp: merkle_root_def merkle_level_dup)

definition collision64 :: "'a prims_scheme \<Rightarrow> bool" where
  "collision64 P \<longleftrightarrow> (\<exists>a b. length a = 64 \<and> length b = 64 \<and> a \<noteq> b \<and> blake3 P a = blake3 P b)"

lemma combine_inject:
  assumes "\<not> collision64 P" "wf_hash a" "wf_hash b" "wf_hash c" "wf_hash d"
    and "hash_of P (as_bytes a @ as_bytes b) = hash_of P (as_bytes c @ as_bytes d)"
  shows "a = c \<and> b = d"
proof -
  have "as_bytes a @ as_bytes b = as_bytes c @ as_bytes d"
  proof (rule ccontr)
    assume "as_bytes a @ as_bytes b \<noteq> as_bytes c @ as_bytes d"
    moreover have "length (as_bytes a @ as_bytes b) = 64" "length (as_bytes c @ as_bytes d) = 64"
      using assms(2-5) by (simp_all add: length_as_bytes)
    moreover have "blake3 P (as_bytes a @ as_bytes b) = blake3 P (as_bytes c @ as_bytes d)"
      using assms(6) by (simp add: hash_of_def)
    ultimately show False using assms(1) unfolding collision64_def by blast
  qed
  then show ?thesis using assms(2,4) by (simp add: length_as_bytes)
qed

lemma merkle_level_inject:
  assumes "\<not> collision64 P"
  shows "length xs = length ys \<Longrightarrow> \<forall>h \<in> set xs \<union> set ys. wf_hash h \<Longrightarrow>
    merkle_level P xs = merkle_level P ys \<Longrightarrow> xs = ys"
proof (induction xs arbitrary: ys rule: induct_list012)
  case (2 a ys)
  then obtain c where "ys = [c]" by (metis length_0_conv length_Suc_conv list.size(3))
  with 2 combine_inject [OF assms, of a a c c] show ?case by simp
next
  case (3 a b xs ys)
  from 3(3) obtain c d zs where ys: "ys = c # d # zs" by (metis length_Suc_conv)
  have "wf_hash a" "wf_hash b" "wf_hash c" "wf_hash d" using 3(4) by (simp_all add: ys)
  moreover have "hash_of P (as_bytes a @ as_bytes b) = hash_of P (as_bytes c @ as_bytes d)"
    using 3(5) by (simp add: ys)
  ultimately have "a = c \<and> b = d" by (rule combine_inject [OF assms])
  moreover have "xs = zs" using 3(3-5) by (intro 3(1)) (simp_all add: ys)
  ultimately show ?case by (simp add: ys)
qed simp

lemma wf_merkle_level: "hash_sizes P \<Longrightarrow> h \<in> set (merkle_level P hs) \<Longrightarrow> wf_hash h"
  by (auto simp: merkle_level_def combine_pair_def wf_hash_def hash_of_def)

lemma wf_hash_of: "hash_sizes P \<Longrightarrow> wf_hash (hash_of P m)"
  by (simp add: wf_hash_def hash_of_def)

lemma wf_merkle_reduce: "hash_sizes P \<Longrightarrow> \<forall>h \<in> set hs. wf_hash h \<Longrightarrow> \<forall>h \<in> set (merkle_reduce P hs). wf_hash h"
proof (induction P hs rule: merkle_reduce.induct)
  case (1 P hs)
  then show ?case
    using wf_merkle_level [OF 1(2)] by (cases "1 < length hs") (simp_all add: merkle_reduce_step merkle_reduce_short)
qed

text \<open>A Merkle root of hashes is 32 bytes long, like every hash.\<close>

lemma wf_merkle_root:
  assumes "hash_sizes P"
  shows "wf_hash (merkle_root P (map (tx_hash P) txs))"
proof (cases "txs = []")
  case False
  let ?hs = "map (tx_hash P) txs"
  have ne: "?hs \<noteq> []" using False by simp
  have "merkle_reduce P ?hs ! 0 \<in> set (merkle_reduce P ?hs)"
    using merkle_reduce_length [OF ne, of P] by (intro nth_mem) simp
  moreover have "\<forall>h \<in> set (merkle_reduce P ?hs). wf_hash h"
    by (rule wf_merkle_reduce [OF assms]) (simp add: tx_hash_def wf_hash_of assms)
  ultimately show ?thesis using ne by (simp add: merkle_root_def)
qed (simp add: merkle_root_def ZERO_def wf_hash_def)

lemma merkle_reduce_inject:
  "\<not> collision64 P \<Longrightarrow> hash_sizes P \<Longrightarrow> length xs = length ys \<Longrightarrow>
    \<forall>h \<in> set xs \<union> set ys. wf_hash h \<Longrightarrow> merkle_reduce P xs = merkle_reduce P ys \<Longrightarrow> xs = ys"
proof (induction P xs arbitrary: ys rule: merkle_reduce.induct)
  case (1 P xs)
  note IH = 1(1) and prems = 1(2-6)
  show ?case
  proof (cases "1 < length xs")
    case True
    have wf: "\<forall>h \<in> set (merkle_level P xs) \<union> set (merkle_level P ys). wf_hash h"
      using wf_merkle_level [OF prems(2)] by blast
    have "length (merkle_level P xs) = length (merkle_level P ys)"
      using prems(3) by (simp add: length_merkle_level)
    moreover have "merkle_reduce P (merkle_level P xs) = merkle_reduce P (merkle_level P ys)"
      using prems(3,5) True by (simp add: merkle_reduce_step)
    ultimately have "merkle_level P xs = merkle_level P ys"
      using IH [OF True prems(1,2) _ wf] by simp
    then show ?thesis by (rule merkle_level_inject [OF prems(1,3,4)])
  next
    case False
    with prems(3,5) show ?thesis by (simp add: merkle_reduce_short)
  qed
qed

section \<open>A concrete environment\<close>

text \<open>The sample functions of theory \<open>Primitives\<close>, with the signed bytes as the JSON.\<close>

definition sample_env :: env where
  "sample_env =
     \<lparr>blake3 = sample_hash, blake3_xof = (\<lambda>s n. replicate n 0), hex_encode = peer_id_hex, hex_decode = hex_read,
      verifying_key_from_bytes = Some, signature_from_slice = Some,
      dalek_verify = (\<lambda>vk m sg. sg = vk @ sample_hash m), dalek_public = (\<lambda>sk. sk),
      dalek_sign = (\<lambda>sk m. sk @ sample_hash m), json_tx = signing_bytes\<rparr>"

lemma sample_env_laws: "hash_sizes sample_env" "hex_laws sample_env" "ed25519_laws sample_env"
  by (simp_all add: hash_sizes_def hex_laws_def ed25519_laws_def sample_env_def
      own_hex.dec_enc own_hex.enc_digits)

text \<open>On it the hash of a header is the last 32 bytes hashed, whatever the dataset.\<close>

lemma sample_header_id:
  assumes "wf_dataset ds"
  shows "header_id sample_env h ds = Some (Hash256 (sample_hash (bytes_for_pow h @ le_bytes 8 (nonce h))))"
proof -
  let ?seed = "sample_hash (bytes_for_pow h @ le_bytes 8 (nonce h))"
  obtain sw where sw: "read_u32_le ?seed 0 = Some sw" by (simp add: read_u32_le_Some)
  have "length (xof_fill sample_env ?seed ITEM_SIZE) = ITEM_SIZE"
    by (simp add: xof_fill_def sample_env_def)
  from access_loop_total [OF assms this] obtain mix where
    mix: "access_loop ds sw (max (len_bytes ds div ITEM_SIZE) 1) [0..<ACCESSES]
      (xof_fill sample_env ?seed ITEM_SIZE) = Some mix" "length mix = ITEM_SIZE" by blast
  obtain c where c: "compress_loop mix [0..<8] (replicate 32 0) = Some c" "length c = 32"
    using compress_loop_total [OF mix(2), of "replicate 32 0" "[0..<8]"] by auto
  have "blake3 sample_env m = sample_hash m" for m by (simp add: sample_env_def)
  moreover have "sample_hash (?seed @ c) = ?seed"
    by (subst sample_hash_def) (simp add: c(2))
  ultimately show ?thesis
    using sw mix c by (simp add: header_id_def ondris_hash_def ondris_hash_with_accesses_def Let_def hash_of_def)
qed

section \<open>Properties\<close>

text \<open>
  The Merkle root binds the transaction list of a given length: two lists of the same number of
  32-byte hashes with the same root are equal, unless two different 64-byte inputs collide under
  BLAKE3.
\<close>

theorem merkle_root_binding:
  assumes "hash_sizes P" "length xs = length ys" "\<forall>h \<in> set xs \<union> set ys. wf_hash h"
    and "merkle_root P xs = merkle_root P ys"
  shows "xs = ys \<or> collision64 P"
proof (cases "xs = []")
  case False
  with assms(2) have ne: "ys \<noteq> []" by auto
  have "merkle_reduce P xs = merkle_reduce P ys"
    using assms(4) merkle_reduce_length [OF False, of P] merkle_reduce_length [OF ne, of P] False ne
    by (auto simp: merkle_root_def length_Suc_conv)
  then show ?thesis using merkle_reduce_inject [OF _ assms(1-3)] by blast
qed (use assms(2) in simp)

theorem merkle_root_binding_witness:
  "[Hash256 (replicate 32 1), Hash256 (replicate 32 2)] = [Hash256 (replicate 32 1), Hash256 (replicate 32 3)] \<or>
   collision64 sample_env"
  by (rule merkle_root_binding [OF sample_env_laws(1)])
    (simp_all add: wf_hash_def merkle_root_def merkle_reduce_step merkle_reduce_short hash_of_def
      as_bytes_def sample_env_def sample_hash_def)

text \<open>
  Across lengths it does not bind: repeating the last of an odd number of transactions (three
  or more) leaves the root unchanged, so a block body and its malleated copy share a header.
\<close>

theorem merkle_root_malleable:
  assumes "odd (length hs)" "1 < length hs"
  shows "merkle_root P (hs @ [last hs]) = merkle_root P hs \<and> hs @ [last hs] \<noteq> hs"
  using merkle_root_dup [OF assms] by simp

theorem merkle_root_malleable_witness:
  "merkle_root sample_env ([ZERO, ZERO, Hash256 (replicate 32 1)] @ [last [ZERO, ZERO, Hash256 (replicate 32 1)]]) =
     merkle_root sample_env [ZERO, ZERO, Hash256 (replicate 32 1)] \<and>
   [ZERO, ZERO, Hash256 (replicate 32 1)] @ [last [ZERO, ZERO, Hash256 (replicate 32 1)]] \<noteq>
     [ZERO, ZERO, Hash256 (replicate 32 1)]"
  by (rule merkle_root_malleable) simp_all

text \<open>
  A signature covers every field but itself: two well-formed transactions with the same signed
  bytes differ at most in the signature.
\<close>

theorem signing_bytes_binding:
  assumes "wf_tx t" "wf_tx u" "signing_bytes t = signing_bytes u"
  shows "t\<lparr>tx_signature := s\<rparr> = u\<lparr>tx_signature := s\<rparr>"
proof -
  have "pk_bytes (tx_from t) = pk_bytes (tx_from u)" "addr_bytes (tx_to t) = addr_bytes (tx_to u)"
    "amount t = amount u" "fee t = fee u" "account_nonce t = account_nonce u"
    using assms by (auto simp: signing_bytes_def wf_tx_def)
  then show ?thesis
    by (cases t; cases u) (simp add: public_key.expand address.expand)
qed

theorem signing_bytes_binding_witness:
  "(new_unsigned (PublicKey (replicate 32 7)) (Address (replicate 20 1)) 10 1 0)\<lparr>tx_signature := None\<rparr> =
   (new_unsigned (PublicKey (replicate 32 7)) (Address (replicate 20 1)) 10 1 0)
     \<lparr>tx_signature := Some (Signature [])\<rparr>\<lparr>tx_signature := None\<rparr>"
  by (rule signing_bytes_binding) (simp_all add: wf_tx_def new_unsigned_def signing_bytes_def)

text \<open>
  The proof-of-work input determines the header, has 108 bytes, and fits the 144-byte buffer of
  the GPU kernel with the nonce; it is not within the 64 bytes a comment in \<open>kernel.cl\<close> claims.
\<close>

theorem bytes_for_pow_binding:
  assumes "wf_header h" "wf_header k"
  shows "(bytes_for_pow h @ le_bytes 8 (nonce h) = bytes_for_pow k @ le_bytes 8 (nonce k) \<longleftrightarrow> h = k) \<and>
    length (bytes_for_pow h) = 108 \<and> length (bytes_for_pow h) + 8 \<le> 144 \<and>
    64 < length (bytes_for_pow h) + 8"
proof -
  have "h = k" if "bytes_for_pow h @ le_bytes 8 (nonce h) = bytes_for_pow k @ le_bytes 8 (nonce k)"
  proof -
    from that have "bytes_for_pow h = bytes_for_pow k" "nonce h = nonce k"
      using length_bytes_for_pow [OF assms(1)] length_bytes_for_pow [OF assms(2)] by auto
    then show ?thesis
      using assms
      by (cases h; cases k)
        (auto simp: bytes_for_pow_def wf_header_def length_as_bytes address.expand)
  qed
  then show ?thesis using length_bytes_for_pow [OF assms(1)] by auto
qed

theorem bytes_for_pow_binding_witness:
  "let h = \<lparr>height = 1, prev_hash = ZERO, tx_root = ZERO, timestamp = 30, difficulty = 1000,
         miner = Address (replicate 20 0), nonce = 0\<rparr>;
       k = h\<lparr>nonce := 1\<rparr>
   in (bytes_for_pow h @ le_bytes 8 (nonce h) = bytes_for_pow k @ le_bytes 8 (nonce k) \<longleftrightarrow> h = k) \<and>
    length (bytes_for_pow h) = 108 \<and> length (bytes_for_pow h) + 8 \<le> 144 \<and>
    64 < length (bytes_for_pow h) + 8"
  unfolding Let_def by (rule bytes_for_pow_binding) (simp_all add: wf_header_def wf_hash_def ZERO_def)

end
