(* ===== verification/Chain_State.thy ===== *)
theory Chain_State
  imports Ledger_Types
begin

text \<open>
  Model of \<open>crates/ondris-core/src/state.rs\<close>. The six sled trees are the fields of the record
  \<open>chain_state\<close>: a tree is a finite map, the encodings the code writes itself (big-endian heights
  and chain work) are kept as bytes, and a value stored as JSON is the value. The tree of pending
  transactions is also iterated, in the ascending key order sled documents, so it is an
  association list ordered by key. An I/O failure of the store and \<open>flush\<close> (durability) are not
  modelled: an operation of the store returns.
\<close>

record account =
  balance :: u64
  acct_nonce :: u64

definition default_account :: account where
  "default_account = \<lparr>balance = 0, acct_nonce = 0\<rparr>"

record chain_state =
  accounts :: "address \<rightharpoonup> account"
  blocks :: "hash256 \<rightharpoonup> block"
  heights :: "bytes \<rightharpoonup> hash256"
  chainwork :: "hash256 \<rightharpoonup> bytes"
  meta_tip :: "(u64 \<times> hash256) option"
  mempool :: "(hash256 \<times> transaction) list"

text \<open>The content of a freshly created database.\<close>

definition empty_state :: chain_state where
  "empty_state =
     \<lparr>accounts = Map.empty, blocks = Map.empty, heights = Map.empty, chainwork = Map.empty,
      meta_tip = None, mempool = []\<rparr>"

section \<open>An ordered tree\<close>

fun tree_insert :: "'k::linorder \<Rightarrow> 'v \<Rightarrow> ('k \<times> 'v) list \<Rightarrow> ('k \<times> 'v) list" where
  "tree_insert k v [] = [(k, v)]"
| "tree_insert k v ((l, w) # t) =
     (if k < l then (k, v) # (l, w) # t
      else if k = l then (k, v) # t
      else (l, w) # tree_insert k v t)"

fun tree_remove :: "'k \<Rightarrow> ('k \<times> 'v) list \<Rightarrow> ('k \<times> 'v) list" where
  "tree_remove k [] = []"
| "tree_remove k ((l, w) # t) = (if k = l then t else (l, w) # tree_remove k t)"

definition tree_ok :: "('k::linorder \<times> 'v) list \<Rightarrow> bool" where
  "tree_ok t \<longleftrightarrow> sorted_wrt (<) (map fst t)"

text \<open>What the pending-transaction code relies on from the store.\<close>

locale kv_tree =
  fixes lookup :: "'t \<Rightarrow> 'k \<Rightarrow> 'v option"
    and insert :: "'k \<Rightarrow> 'v \<Rightarrow> 't \<Rightarrow> 't"
    and remove :: "'k \<Rightarrow> 't \<Rightarrow> 't"
    and entries :: "'t \<Rightarrow> ('k \<times> 'v) list"
    and invar :: "'t \<Rightarrow> bool"
  assumes lookup_insert: "invar t \<Longrightarrow> lookup (insert k v t) = (lookup t)(k \<mapsto> v)"
    and lookup_remove: "invar t \<Longrightarrow> lookup (remove k t) = (lookup t)(k := None)"
    and invar_insert: "invar t \<Longrightarrow> invar (insert k v t)"
    and invar_remove: "invar t \<Longrightarrow> invar (remove k t)"
    and entries_lookup: "invar t \<Longrightarrow> (k, v) \<in> set (entries t) \<longleftrightarrow> lookup t k = Some v"
    and entries_distinct: "invar t \<Longrightarrow> distinct (map fst (entries t))"
begin

lemma entries_insert:
  "invar t \<Longrightarrow> set (entries (insert k v t)) = {p \<in> set (entries t). fst p \<noteq> k} \<union> {(k, v)}"
  by (auto simp: entries_lookup lookup_insert invar_insert split: if_splits)

lemma entries_remove:
  "invar t \<Longrightarrow> set (entries (remove k t)) = {p \<in> set (entries t). fst p \<noteq> k}"
  by (auto simp: entries_lookup lookup_remove invar_remove split: if_splits)

lemma insert_then_remove:
  "invar t \<Longrightarrow> lookup t k = None \<Longrightarrow> lookup (remove k (insert k v t)) = lookup t"
  by (auto simp: lookup_remove lookup_insert invar_insert)

lemma insert_again: "invar t \<Longrightarrow> lookup (insert k v (insert k w t)) = lookup (insert k v t)"
  by (simp add: lookup_insert invar_insert)

end

lemma map_of_tree_insert: "map_of (tree_insert k v t) = (map_of t)(k \<mapsto> v)"
  by (induction t) (auto simp: fun_eq_iff)

lemma fst_tree_insert: "fst ` set (tree_insert k v t) = Set.insert k (fst ` set t)"
  by (induction k v t rule: tree_insert.induct) auto

lemma tree_ok_insert: "tree_ok t \<Longrightarrow> tree_ok (tree_insert k v t)"
proof (induction t)
  case (Cons p t)
  obtain l w where p: "p = (l, w)" by (cases p)
  from Cons.prems have lt: "\<forall>x \<in> fst ` set t. l < x" and ok: "tree_ok t"
    by (auto simp: p tree_ok_def)
  note IH = Cons.IH [OF ok]
  show ?case
    using lt ok IH Cons.prems fst_tree_insert [of k v t]
    by (auto simp: p tree_ok_def dest: order.strict_trans)
qed (simp add: tree_ok_def)

lemma tree_ok_notin: "tree_ok ((l, w) # t) \<Longrightarrow> l \<notin> fst ` set t"
  by (auto simp: tree_ok_def)

lemma map_of_tree_remove: "tree_ok t \<Longrightarrow> map_of (tree_remove k t) = (map_of t)(k := None)"
proof (induction t)
  case (Cons p t)
  obtain l w where p: "p = (l, w)" by (cases p)
  have "tree_ok t" using Cons.prems by (simp add: p tree_ok_def)
  moreover have "map_of t l = None" using tree_ok_notin [OF Cons.prems [unfolded p]]
    by (simp add: map_of_eq_None_iff)
  ultimately show ?case using Cons.IH by (auto simp: p fun_eq_iff)
qed simp

lemma set_tree_remove: "set (tree_remove k t) \<subseteq> set t"
  by (induction k t rule: tree_remove.induct) auto

lemma tree_ok_remove: "tree_ok t \<Longrightarrow> tree_ok (tree_remove k t)"
proof (induction t)
  case (Cons p t)
  obtain l w where p: "p = (l, w)" by (cases p)
  with Cons show ?case using set_tree_remove [of k t] by (fastforce simp: tree_ok_def)
qed simp

lemma tree_ok_distinct: "tree_ok t \<Longrightarrow> distinct (map fst t)"
  unfolding tree_ok_def by (induction t) auto

interpretation pending: kv_tree map_of tree_insert tree_remove "\<lambda>t. t" tree_ok
  by unfold_locales
    (simp_all add: map_of_tree_insert map_of_tree_remove tree_ok_insert tree_ok_remove
      tree_ok_distinct map_of_eq_Some_iff)

section \<open>Pending transactions\<close>

definition mempool_insert :: "'a env_scheme \<Rightarrow> transaction \<Rightarrow> chain_state \<Rightarrow> chain_state" where
  "mempool_insert E tx s = s\<lparr>mempool := tree_insert (tx_hash E tx) tx (mempool s)\<rparr>"

definition mempool_remove :: "hash256 \<Rightarrow> chain_state \<Rightarrow> chain_state" where
  "mempool_remove h s = s\<lparr>mempool := tree_remove h (mempool s)\<rparr>"

definition mempool_all :: "chain_state \<Rightarrow> transaction list" where
  "mempool_all s = map snd (mempool s)"

section \<open>Accounts\<close>

definition get_account :: "chain_state \<Rightarrow> address \<Rightarrow> account" where
  "get_account s addr = (case accounts s addr of Some acc \<Rightarrow> acc | None \<Rightarrow> default_account)"

definition set_account :: "address \<Rightarrow> account \<Rightarrow> chain_state \<Rightarrow> chain_state" where
  "set_account addr acc s = s\<lparr>accounts := (accounts s)(addr \<mapsto> acc)\<rparr>"

definition credit :: "address \<Rightarrow> u64 \<Rightarrow> chain_state \<Rightarrow> chain_state" where
  "credit addr am s =
     (let acc = get_account s addr
      in set_account addr (acc\<lparr>balance := sat_add (balance acc) am\<rparr>) s)"

definition debit :: "address \<Rightarrow> u64 \<Rightarrow> chain_state \<Rightarrow> chain_state" where
  "debit addr am s =
     (let acc = get_account s addr
      in set_account addr (acc\<lparr>balance := sat_sub (balance acc) am\<rparr>) s)"

section \<open>Tip, blocks, chain work and the canonical height index\<close>

definition tip :: "chain_state \<Rightarrow> (u64 \<times> hash256) option" where
  "tip s = meta_tip s"

definition set_tip :: "u64 \<Rightarrow> hash256 \<Rightarrow> chain_state \<Rightarrow> chain_state" where
  "set_tip h x s = s\<lparr>meta_tip := Some (h, x)\<rparr>"

definition store_block :: "hash256 \<Rightarrow> block \<Rightarrow> chain_state \<Rightarrow> chain_state" where
  "store_block x b s = s\<lparr>blocks := (blocks s)(x \<mapsto> b)\<rparr>"

definition has_block :: "chain_state \<Rightarrow> hash256 \<Rightarrow> bool" where
  "has_block s x \<longleftrightarrow> blocks s x \<noteq> None"

definition get_block :: "chain_state \<Rightarrow> hash256 \<Rightarrow> block option" where
  "get_block s x = blocks s x"

definition get_chainwork :: "chain_state \<Rightarrow> hash256 \<Rightarrow> u128 option" where
  "get_chainwork s x = map_option be_word (chainwork s x)"

definition set_chainwork :: "hash256 \<Rightarrow> u128 \<Rightarrow> chain_state \<Rightarrow> chain_state" where
  "set_chainwork x work s = s\<lparr>chainwork := (chainwork s)(x \<mapsto> be_bytes 16 work)\<rparr>"

definition set_canonical_height :: "u64 \<Rightarrow> hash256 \<Rightarrow> chain_state \<Rightarrow> chain_state" where
  "set_canonical_height h x s = s\<lparr>heights := (heights s)(be_bytes 8 h \<mapsto> x)\<rparr>"

definition remove_canonical_height :: "u64 \<Rightarrow> chain_state \<Rightarrow> chain_state" where
  "remove_canonical_height h s = s\<lparr>heights := (heights s)(be_bytes 8 h := None)\<rparr>"

definition get_hash_by_height :: "chain_state \<Rightarrow> u64 \<Rightarrow> hash256 option" where
  "get_hash_by_height s h = heights s (be_bytes 8 h)"

definition get_block_by_height :: "chain_state \<Rightarrow> u64 \<Rightarrow> block option" where
  "get_block_by_height s h =
     (case get_hash_by_height s h of Some x \<Rightarrow> get_block s x | None \<Rightarrow> None)"

section \<open>Reading what was written\<close>

named_theorems state_simps \<open>every read of the store after every write\<close>

lemma be64_inject [simp]: "be_bytes 8 (v :: u64) = be_bytes 8 w \<longleftrightarrow> v = w"
  by (simp add: be_bytes_def)

lemma get_account_simps [state_simps]:
  "get_account (set_account a acc s) b = (if b = a then acc else get_account s b)"
  "get_account (set_tip h x s) b = get_account s b"
  "get_account (store_block x blk s) b = get_account s b"
  "get_account (set_chainwork x w s) b = get_account s b"
  "get_account (set_canonical_height h x s) b = get_account s b"
  "get_account (remove_canonical_height h s) b = get_account s b"
  "get_account (mempool_insert E tx s) b = get_account s b"
  "get_account (mempool_remove x s) b = get_account s b"
  by (simp_all add: get_account_def set_account_def set_tip_def store_block_def set_chainwork_def
      set_canonical_height_def remove_canonical_height_def mempool_insert_def mempool_remove_def)

lemma get_block_simps [state_simps]:
  "get_block (set_account a acc s) y = get_block s y"
  "get_block (set_tip h x s) y = get_block s y"
  "get_block (store_block x blk s) y = (if y = x then Some blk else get_block s y)"
  "get_block (set_chainwork x w s) y = get_block s y"
  "get_block (set_canonical_height h x s) y = get_block s y"
  "get_block (remove_canonical_height h s) y = get_block s y"
  "get_block (mempool_insert E tx s) y = get_block s y"
  "get_block (mempool_remove x s) y = get_block s y"
  by (simp_all add: get_block_def set_account_def set_tip_def store_block_def set_chainwork_def
      set_canonical_height_def remove_canonical_height_def mempool_insert_def mempool_remove_def)

lemma get_chainwork_simps [state_simps]:
  "get_chainwork (set_account a acc s) y = get_chainwork s y"
  "get_chainwork (set_tip h x s) y = get_chainwork s y"
  "get_chainwork (store_block x blk s) y = get_chainwork s y"
  "get_chainwork (set_chainwork x w s) y = (if y = x then Some w else get_chainwork s y)"
  "get_chainwork (set_canonical_height h x s) y = get_chainwork s y"
  "get_chainwork (remove_canonical_height h s) y = get_chainwork s y"
  "get_chainwork (mempool_insert E tx s) y = get_chainwork s y"
  "get_chainwork (mempool_remove x s) y = get_chainwork s y"
  by (simp_all add: get_chainwork_def set_account_def set_tip_def store_block_def set_chainwork_def
      set_canonical_height_def remove_canonical_height_def mempool_insert_def mempool_remove_def
      be_word_be_bytes)

lemma get_hash_by_height_simps [state_simps]:
  "get_hash_by_height (set_account a acc s) k = get_hash_by_height s k"
  "get_hash_by_height (set_tip h x s) k = get_hash_by_height s k"
  "get_hash_by_height (store_block x blk s) k = get_hash_by_height s k"
  "get_hash_by_height (set_chainwork x w s) k = get_hash_by_height s k"
  "get_hash_by_height (set_canonical_height h x s) k = (if k = h then Some x else get_hash_by_height s k)"
  "get_hash_by_height (remove_canonical_height h s) k = (if k = h then None else get_hash_by_height s k)"
  "get_hash_by_height (mempool_insert E tx s) k = get_hash_by_height s k"
  "get_hash_by_height (mempool_remove x s) k = get_hash_by_height s k"
  by (simp_all add: get_hash_by_height_def set_account_def set_tip_def store_block_def
      set_chainwork_def set_canonical_height_def remove_canonical_height_def mempool_insert_def
      mempool_remove_def)

lemma tip_simps [state_simps]:
  "tip (set_account a acc s) = tip s"
  "tip (set_tip h x s) = Some (h, x)"
  "tip (store_block x blk s) = tip s"
  "tip (set_chainwork x w s) = tip s"
  "tip (set_canonical_height h x s) = tip s"
  "tip (remove_canonical_height h s) = tip s"
  "tip (mempool_insert E tx s) = tip s"
  "tip (mempool_remove x s) = tip s"
  by (simp_all add: tip_def set_account_def set_tip_def store_block_def set_chainwork_def
      set_canonical_height_def remove_canonical_height_def mempool_insert_def mempool_remove_def)

lemma mempool_simps [state_simps]:
  "mempool (set_account a acc s) = mempool s"
  "mempool (set_tip h x s) = mempool s"
  "mempool (store_block x blk s) = mempool s"
  "mempool (set_chainwork x w s) = mempool s"
  "mempool (set_canonical_height h x s) = mempool s"
  "mempool (remove_canonical_height h s) = mempool s"
  "mempool (mempool_insert E tx s) = tree_insert (tx_hash E tx) tx (mempool s)"
  "mempool (mempool_remove x s) = tree_remove x (mempool s)"
  by (simp_all add: set_account_def set_tip_def store_block_def set_chainwork_def
      set_canonical_height_def remove_canonical_height_def mempool_insert_def mempool_remove_def)

lemma has_block_iff: "has_block s x \<longleftrightarrow> get_block s x \<noteq> None"
  by (simp add: has_block_def get_block_def)

text \<open>
  The accounts of the store, and later the overlay of a reorganisation, are both views: a total
  function from addresses that a write changes at one point.
\<close>

locale account_view =
  fixes get :: "'s \<Rightarrow> address \<Rightarrow> account" and put :: "address \<Rightarrow> account \<Rightarrow> 's \<Rightarrow> 's"
  assumes get_put: "get (put a acc s) b = (if b = a then acc else get s b)"
begin

lemma view_put: "get (put a acc s) = (get s)(a := acc)"
  by (auto simp: get_put)

lemma get_put_same: "get (put a acc s) a = acc"
  by (simp add: get_put)

lemma put_put_view: "get (put a acc (put a acc' s)) = get (put a acc s)"
  by (auto simp: get_put)

lemma put_commute_view: "a \<noteq> b \<Longrightarrow> get (put a acc (put b bcc s)) = get (put b bcc (put a acc s))"
  by (auto simp: get_put)

end

interpretation store: account_view get_account set_account
  by unfold_locales (simp add: state_simps)

end
