(* ===== verification/Difficulty.thy ===== *)
theory Difficulty
  imports Ondris_Prelude
begin

text \<open>
  Model of \<open>crates/ondris-core/src/difficulty.rs\<close>: the 256-bit target of a difficulty by long
  division on big-endian bytes, and the retargeting rule on 64-bit integers with the widening and
  the truncating casts of the code.
\<close>

definition MAX_TARGET :: bytes where
  "MAX_TARGET = replicate 32 0xff"

text \<open>The loop of \<open>divide_be_by_u64\<close>, from the remainder so far over the remaining digits.\<close>

fun divide_loop :: "u64 \<Rightarrow> u128 \<Rightarrow> bytes \<Rightarrow> bytes" where
  "divide_loop divisor remainder [] = []"
| "divide_loop divisor remainder (b # bs) =
     (let cur = push_bit 8 remainder OR ucast b
      in ucast (cur div ucast divisor) # divide_loop divisor (cur mod ucast divisor) bs)"

definition divide_be_by_u64 :: "bytes \<Rightarrow> u64 \<Rightarrow> bytes" where
  "divide_be_by_u64 num divisor = divide_loop divisor 0 num"

definition target_for_difficulty :: "u64 \<Rightarrow> bytes" where
  "target_for_difficulty difficulty = divide_be_by_u64 MAX_TARGET (max difficulty 1)"

definition clamp_timespan :: "u64 \<Rightarrow> u64 \<Rightarrow> u64" where
  "clamp_timespan target_timespan actual_timespan_secs =
     max (min (max actual_timespan_secs (target_timespan div 4)) (target_timespan * 4)) 1"

definition next_difficulty :: "u64 \<Rightarrow> u64 \<Rightarrow> u64 \<Rightarrow> u64 \<Rightarrow> u64" where
  "next_difficulty prev_difficulty actual_timespan_secs target_block_time_secs window =
     (let target_timespan = max (sat_mul target_block_time_secs window) 1;
          actual = clamp_timespan target_timespan actual_timespan_secs;
          new_diff = ucast ((ucast prev_difficulty * ucast target_timespan :: u128) div ucast actual)
      in max new_diff 1)"

section \<open>Long division\<close>

lemma unat_ucast_64_128 [simp]: "unat (ucast (w :: u64) :: u128) = unat w"
  using unat_less_pow [of w] by (simp add: unat_ucast_mod)

lemma unat_ucast_8_128 [simp]: "unat (ucast (w :: u8) :: u128) = unat w"
  using unat_byte_less [of w] by (simp add: unat_ucast_mod)

lemma shift_in_byte:
  assumes "unat (r :: u128) < 2 ^ 64"
  shows "unat (push_bit 8 r OR ucast (b :: u8)) = unat r * 256 + unat b"
proof -
  have "push_bit 8 r OR ucast b = push_bit 8 r + ucast b"
    by (rule disjunctive_add [symmetric]) (auto simp: bit_simps dest: bit_imp_le_length)
  moreover have "unat (push_bit 8 r) = unat r * 256"
    using assms by (simp add: push_bit_eq_mult unat_mult_bounded)
  moreover have "unat r * 256 + unat b < 2 ^ 128"
    using assms unat_byte_less [of b] by simp
  ultimately show ?thesis by (simp add: unat_add_bounded)
qed

lemma long_division_step:
  fixes a c d K v :: nat
  assumes "a < d"
  shows "(c * K + v) div d = c div d * K + (c mod d * K + v) div d"
proof -
  have "c * K = (c div d * d + c mod d) * K" by simp
  also have "\<dots> = (c div d * K) * d + c mod d * K" by (simp only: algebra_simps)
  finally show ?thesis using assms by (simp add: add.assoc)
qed

lemma divide_loop_val:
  "unat r < unat d \<Longrightarrow>
     be_val (divide_loop d r bs) = (unat r * 256 ^ length bs + be_val bs) div unat d \<and>
     length (divide_loop d r bs) = length bs"
proof (induction bs arbitrary: r)
  case (Cons b bs)
  let ?cur = "push_bit 8 r OR ucast b :: u128"
  let ?c = "unat r * 256 + unat b" and ?d = "unat d" and ?K = "256 ^ length bs :: nat"
  have r64: "unat r < 2 ^ 64" using Cons.prems unat_less_pow [of d] by simp
  have cur: "unat ?cur = ?c" by (rule shift_in_byte [OF r64])
  have q: "?c div ?d < 256"
  proof -
    have "?c < 256 * ?d" using Cons.prems unat_byte_less [of b] by linarith
    then show ?thesis by (simp add: less_mult_imp_div_less)
  qed
  have qb: "unat (ucast (?cur div ucast d) :: u8) = ?c div ?d"
    using q by (simp add: unat_ucast_mod unat_div cur)
  have rem: "unat (?cur mod ucast d) = ?c mod ?d"
    by (simp add: unat_mod cur)
  have "?c mod ?d < ?d" using Cons.prems by simp
  then have IH: "be_val (divide_loop d (?cur mod ucast d) bs) = (?c mod ?d * ?K + be_val bs) div ?d"
      "length (divide_loop d (?cur mod ucast d) bs) = length bs"
    using Cons.IH [of "?cur mod ucast d"] by (simp_all add: rem)
  have "unat r * 256 ^ length (b # bs) + be_val (b # bs) = ?c * ?K + be_val bs"
    by (simp only: be_val_Cons list.size(4) power_add power_Suc power_0 mult_1 mult_1_right add_0_right add_Suc_right algebra_simps)
  then have "(unat r * 256 ^ length (b # bs) + be_val (b # bs)) div ?d =
      ?c div ?d * ?K + (?c mod ?d * ?K + be_val bs) div ?d"
    by (simp only: long_division_step [OF Cons.prems, of ?c ?K "be_val bs", symmetric])
  moreover have "be_val (divide_loop d r (b # bs)) =
      ?c div ?d * ?K + be_val (divide_loop d (?cur mod ucast d) bs)"
    by (simp only: be_val_Cons Let_def IH(2) qb divide_loop.simps)
  moreover have "length (divide_loop d r (b # bs)) = length (b # bs)"
    by (simp only: Let_def IH(2) divide_loop.simps list.size)
  ultimately show ?case by (simp only: IH(1))
qed simp

lemma be_val_replicate_ff: "be_val (replicate n 0xff) = 256 ^ n - 1"
proof (induction n)
  case (Suc n)
  have "(1 :: nat) \<le> 256 ^ n" by simp
  with Suc show ?case by (simp add: be_val_Cons)
qed simp

lemma target_val: "be_val (target_for_difficulty d) = (2 ^ 256 - 1) div max (unat d) 1"
  and target_length: "length (target_for_difficulty d) = 32"
proof -
  have "unat (0 :: u128) < unat (max d 1)" by (simp add: unat_max)
  from divide_loop_val [OF this, of MAX_TARGET]
  show "be_val (target_for_difficulty d) = (2 ^ 256 - 1) div max (unat d) 1"
    "length (target_for_difficulty d) = 32"
    by (simp_all add: target_for_difficulty_def divide_be_by_u64_def MAX_TARGET_def unat_max
        be_val_replicate_ff)
qed

section \<open>Retargeting\<close>

lemma next_difficulty_val:
  "unat (next_difficulty prev act tbt window) =
     (let T = max (unat (sat_mul tbt window)) 1;
          A = unat (clamp_timespan (max (sat_mul tbt window) 1) act)
      in max (unat prev * T div A mod 2 ^ 64) 1)"
proof -
  let ?T = "max (sat_mul tbt window) 1"
  have "unat prev * unat ?T < 2 ^ 64 * 2 ^ 64"
    using unat_less_pow [of prev] unat_less_pow [of ?T] by (intro mult_strict_mono) auto
  then have "unat (ucast prev * ucast ?T :: u128) = unat prev * unat ?T"
    by (simp add: unat_mult_bounded)
  then show ?thesis
    by (simp add: next_difficulty_def Let_def unat_max unat_ucast_mod unat_div)
qed

lemma clamp_val:
  assumes "unat T < 2 ^ 62"
  shows "unat (clamp_timespan T act) = max (min (max (unat act) (unat T div 4)) (unat T * 4)) 1"
proof -
  have "unat (T * 4) = unat T * 4"
    using assms by (simp add: unat_mult_bounded)
  then show ?thesis by (simp add: clamp_timespan_def unat_max unat_min unat_div)
qed


lemma clamp_bounds:
  assumes "0 < unat T" "unat T < 2 ^ 62" "4 dvd unat T"
  shows "unat T \<le> 4 * unat (clamp_timespan T act)" "unat (clamp_timespan T act) \<le> 4 * unat T"
    "0 < unat (clamp_timespan T act)"
  using assms by (auto simp: clamp_val max_def min_def elim: dvdE)

lemma div_le_quadruple: "0 < A \<Longrightarrow> T \<le> 4 * A \<Longrightarrow> p * T div A \<le> 4 * p" for p T A :: nat
proof -
  assume a: "0 < A" "T \<le> 4 * A"
  then have "p * T \<le> 4 * p * A" by (metis mult.assoc mult.commute mult_le_mono2)
  then show ?thesis using a(1) by (metis div_le_mono nonzero_mult_div_cancel_right not_gr_zero)
qed

lemma quarter_le_div: "0 < A \<Longrightarrow> A \<le> 4 * T \<Longrightarrow> p div 4 \<le> p * T div A" for p T A :: nat
proof -
  assume a: "0 < A" "A \<le> 4 * T"
  have "p div 4 * A \<le> p div 4 * (4 * T)" by (rule mult_le_mono2 [OF a(2)])
  also have "\<dots> = (p div 4 * 4) * T" by simp
  also have "\<dots> \<le> p * T" by (rule mult_le_mono1) simp
  finally show ?thesis using a(1) by (simp add: less_eq_div_iff_mult_less_eq)
qed

section \<open>Properties\<close>

text \<open>
  The byte-wise long division is exact: the target of a difficulty is the 32-byte big-endian
  form of \<open>floor((2^256 - 1) / max(difficulty, 1))\<close>.
\<close>

theorem target_exact:
  "length (target_for_difficulty d) = 32 \<and>
   be_val (target_for_difficulty d) = (2 ^ 256 - 1) div max (unat d) 1"
  by (simp add: target_val target_length)

text \<open>
  Raising the difficulty never enlarges the target, in the byte-array order the proof-of-work
  check compares with.
\<close>

theorem target_antitone:
  assumes "d1 \<le> d2"
  shows "target_for_difficulty d2 \<le> target_for_difficulty d1"
proof -
  have "max (unat d1) 1 \<le> max (unat d2) 1" using assms by (simp add: word_le_nat_alt)
  then show ?thesis
    by (simp add: be_val_lex target_length target_val div_le_mono2)
qed

theorem target_antitone_witness: "target_for_difficulty 2000 \<le> target_for_difficulty 1000"
  by (rule target_antitone) simp

text \<open>
  C37. One retarget moves the difficulty by a factor of at most four either way, and never to
  zero, when the target timespan is a multiple of four seconds (1800 in the shipped
  configurations) below \<open>2^62\<close> and the old difficulty is below \<open>2^62\<close>.
\<close>

theorem retarget_within_four:
  fixes tbt window :: u64
  assumes "unat tbt * unat window < 2 ^ 62" "0 < unat tbt * unat window"
    and "4 dvd unat tbt * unat window" "unat prev < 2 ^ 62"
  shows "unat prev div 4 \<le> unat (next_difficulty prev act tbt window) \<and>
    unat (next_difficulty prev act tbt window) \<le> max (4 * unat prev) 1 \<and>
    1 \<le> unat (next_difficulty prev act tbt window)"
proof -
  define T where "T = max (sat_mul tbt window) 1"
  have T: "unat T = unat tbt * unat window"
    using assms(1,2) by (simp add: T_def unat_max sat_simps min_def)
  define A where "A = unat (clamp_timespan T act)"
  note cb = clamp_bounds [of T act, folded A_def, unfolded T, OF assms(2,1,3)]
  let ?q = "unat prev * unat T div A"
  have up: "?q \<le> 4 * unat prev" by (rule div_le_quadruple) (use cb T in simp_all)
  have lo: "unat prev div 4 \<le> ?q" by (rule quarter_le_div) (use cb T in simp_all)
  have "?q mod 2 ^ 64 = ?q" using up assms(4) by (intro mod_less) simp
  then have "unat (next_difficulty prev act tbt window) = max ?q 1"
    using next_difficulty_val [of prev act tbt window]
    by (simp add: Let_def T_def A_def unat_max)
  with up lo show ?thesis by auto
qed

theorem retarget_within_four_witness:
  "unat (1000 :: u64) div 4 \<le> unat (next_difficulty 1000 15 30 60) \<and>
   unat (next_difficulty 1000 15 30 60) \<le> max (4 * unat (1000 :: u64)) 1 \<and>
   1 \<le> unat (next_difficulty 1000 15 30 60)"
  by (rule retarget_within_four) simp_all

text \<open>
  Outside that range the rule breaks its promise: with a target timespan of 7 seconds the
  difficulty can rise sevenfold in one step, and a difficulty of \<open>2^62\<close> that should rise fourfold
  is truncated to 64 bits and falls to 1.
\<close>

theorem retarget_escapes_clamp:
  "next_difficulty 1000 1 7 1 = 7000 \<and> next_difficulty (2 ^ 62) 1 4 1 = 1"
  by (simp add: next_difficulty_def clamp_timespan_def sat_mul_def Let_def max_def min_def word_le_nat_alt)

end
