(* ===== verification/Chain.thy ===== *)
theory Chain
  imports Chain_State Difficulty
begin

text \<open>
  Model of \<open>crates/ondris-core/src/chain.rs\<close>, operation by operation. A method that takes
  \<open>&self\<close> and writes to the store or to the dataset cache takes a \<open>chain\<close> and returns the new
  one with its \<open>Result\<close>: \<open>Inl\<close> an error, \<open>Inr\<close> a value. The outer \<open>option\<close> is
  \<open>None\<close> where the method does not return, by a panic or an endless loop. The mutex
  \<open>write_lock\<close> makes each \<open>submit_block\<close> one atomic step.
\<close>

datatype chain_error =
    SecondGenesis
  | EpochBoundaryMissing u64
  | InvalidTxRoot
  | PowBelowTarget
  | InvalidTxSignature
  | HeightMismatch u64 u64
  | NotEnoughAncestors
  | WrongDifficulty u64 u64
  | MissingChainwork hash256
  | NotInitialized
  | MissingTipWork
  | MissingBlock hash256
  | MissingAncestor hash256
  | BlockNotFound u64
  | WindowStartNotFound
  | ReorgBadNonce u64
  | ReorgInsufficientBalance u64
  | BadPremine parse_error

datatype submit_outcome =
    Accepted (acc_hash: hash256) (acc_height: u64) (acc_reorged: bool) (acc_requeue: "transaction list")
  | SideBranch hash256 u64
  | AlreadyKnown
  | Orphan hash256

record chain =
  cstate :: chain_state
  cgenesis :: genesis_config
  dataset_cache :: "(u64 \<times> dataset) option"

definition block_work :: "u64 \<Rightarrow> u128" where
  "block_work diff = ucast diff"

definition genesis_block_hash :: "'a prims_scheme \<Rightarrow> genesis_config \<Rightarrow> hash256" where
  "genesis_block_hash P gen =
     hash_of P (string_bytes
       (''ONDRIS_GENESIS:'' @ network_name gen @ '':'' @ dec_digits (unat (gen_timestamp gen))))"

section \<open>Genesis\<close>

definition genesis_block :: "genesis_config \<Rightarrow> block" where
  "genesis_block gen =
     \<lparr>header = \<lparr>height = 0, prev_hash = ZERO, tx_root = ZERO, timestamp = gen_timestamp gen,
        difficulty = initial_difficulty gen, miner = Address (replicate 20 0), nonce = 0\<rparr>,
      transactions = []\<rparr>"

fun credit_all :: "(address \<times> u64) list \<Rightarrow> chain_state \<Rightarrow> chain_state" where
  "credit_all [] s = s"
| "credit_all ((a, am) # ps) s = credit_all ps (credit a am s)"

definition init_genesis :: "'a prims_scheme \<Rightarrow> genesis_config \<Rightarrow> chain_state \<Rightarrow> (chain_error + unit) \<times> chain_state" where
  "init_genesis P gen s =
     (let blk = genesis_block gen; x = genesis_block_hash P gen
      in case premine_parsed P gen of
           Inl e \<Rightarrow> (Inl (BadPremine e), s)
         | Inr ps \<Rightarrow>
             (Inr (), set_tip 0 x (set_canonical_height 0 x (store_block x blk
               (set_chainwork x (block_work (difficulty (header blk))) (credit_all ps s))))))"

text \<open>\<open>Chain::open\<close> on the content \<open>s\<close> of the database; an error leaves no chain.\<close>

definition chain_open :: "'a prims_scheme \<Rightarrow> genesis_config \<Rightarrow> chain_state \<Rightarrow> chain_error + chain" where
  "chain_open P gen s =
     (if tip s = None
      then (case init_genesis P gen s of
              (Inl e, s') \<Rightarrow> Inl e
            | (Inr (), s') \<Rightarrow> Inr \<lparr>cstate = s', cgenesis = gen, dataset_cache = None\<rparr>)
      else Inr \<lparr>cstate = s, cgenesis = gen, dataset_cache = None\<rparr>)"

definition block_reward :: "genesis_config \<Rightarrow> u64 \<Rightarrow> u64" where
  "block_reward gen h =
     (let halvings = h div max (halving_interval gen) 1
      in if halvings \<ge> 64 then 0 else drop_bit (unat halvings) (initial_reward gen))"

section \<open>Datasets\<close>

definition dataset_for_height :: "'a prims_scheme \<Rightarrow> chain \<Rightarrow> u64 \<Rightarrow> ((chain_error + dataset) \<times> chain) option" where
  "dataset_for_height P c h =
     (let epoch = epoch_of h;
          build = (\<lambda>seed. case generate P epoch seed of
                     None \<Rightarrow> None
                   | Some ds \<Rightarrow> Some (Inr ds, c\<lparr>dataset_cache := Some (epoch, ds)\<rparr>));
          miss = (if epoch = 0 then build (epoch_seed P None)
                  else (case get_hash_by_height (cstate c) (epoch * EPOCH_LENGTH) of
                          None \<Rightarrow> Some (Inl (EpochBoundaryMissing (epoch * EPOCH_LENGTH)), c)
                        | Some x \<Rightarrow> build (epoch_seed P (Some x))))
      in case dataset_cache c of
           Some (cached_epoch, ds) \<Rightarrow> if cached_epoch = epoch then Some (Inr ds, c) else miss
         | None \<Rightarrow> miss)"

section \<open>Difficulty\<close>

definition compute_next_difficulty :: "chain \<Rightarrow> u64 \<Rightarrow> chain_error + u64" where
  "compute_next_difficulty c next_height =
     (let window = max (retarget_window (cgenesis c)) 1
      in if next_height \<le> window then Inr (initial_difficulty (cgenesis c))
         else case get_block_by_height (cstate c) (next_height - 1) of
           None \<Rightarrow> Inl (BlockNotFound (next_height - 1))
         | Some tip_block \<Rightarrow>
             (case get_block_by_height (cstate c) (next_height - 1 - window) of
                None \<Rightarrow> Inl WindowStartNotFound
              | Some start \<Rightarrow>
                  Inr (next_difficulty (difficulty (header tip_block))
                    (sat_sub (timestamp (header tip_block)) (timestamp (header start)))
                    (target_block_time_secs (cgenesis c)) window)))"

fun block_ancestor :: "chain_state \<Rightarrow> block \<Rightarrow> nat \<Rightarrow> block option" where
  "block_ancestor s b 0 = Some b"
| "block_ancestor s b (Suc depth) =
     (case get_block s (prev_hash (header b)) of
        Some p \<Rightarrow> block_ancestor s p depth
      | None \<Rightarrow> None)"

definition expected_difficulty_after :: "chain \<Rightarrow> block \<Rightarrow> chain_error + u64" where
  "expected_difficulty_after c parent =
     (let next_height = height (header parent) + 1;
          window = max (retarget_window (cgenesis c)) 1
      in if next_height \<le> window then Inr (initial_difficulty (cgenesis c))
         else case block_ancestor (cstate c) parent (unat window) of
           None \<Rightarrow> Inl NotEnoughAncestors
         | Some start \<Rightarrow>
             Inr (next_difficulty (difficulty (header parent))
               (sat_sub (timestamp (header parent)) (timestamp (header start)))
               (target_block_time_secs (cgenesis c)) window))"

text \<open>\<open>now_secs()\<close> reads the clock: an argument.\<close>

definition work_template ::
    "'a env_scheme \<Rightarrow> u64 \<Rightarrow> chain \<Rightarrow> address \<Rightarrow> transaction list \<Rightarrow> ((chain_error + block \<times> dataset) \<times> chain) option" where
  "work_template E now c miner_addr pending_txs =
     (case tip (cstate c) of
        None \<Rightarrow> Some (Inl NotInitialized, c)
      | Some (h, prev) \<Rightarrow>
          (case dataset_for_height E c (h + 1) of
             None \<Rightarrow> None
           | Some (Inl e, c') \<Rightarrow> Some (Inl e, c')
           | Some (Inr ds, c') \<Rightarrow>
               (case compute_next_difficulty c' (h + 1) of
                  Inl e \<Rightarrow> Some (Inl e, c')
                | Inr diff \<Rightarrow>
                    Some (Inr (\<lparr>header = \<lparr>height = h + 1, prev_hash = prev,
                                  tx_root = merkle_root E (map (tx_hash E) pending_txs),
                                  timestamp = now, difficulty = diff, miner = miner_addr, nonce = 0\<rparr>,
                                transactions = pending_txs\<rparr>, ds), c'))))"

section \<open>Fork paths\<close>

type_synonym block_chain = "(hash256 \<times> block) list"

text \<open>
  The first two loops of \<open>fork_paths\<close> have one shape: follow \<open>prev_hash\<close> while the block is
  higher than \<open>h\<close>, collecting the blocks left behind. The third walks both sides.
\<close>

partial_function (option) rewind ::
    "chain_state \<Rightarrow> u64 \<Rightarrow> hash256 \<Rightarrow> block \<Rightarrow> block_chain \<Rightarrow> (chain_error + hash256 \<times> block \<times> block_chain) option" where
  "rewind s h x b acc =
     (if height (header b) > h
      then (case get_block s (prev_hash (header b)) of
              None \<Rightarrow> Some (Inl (MissingAncestor (prev_hash (header b))))
            | Some p \<Rightarrow> rewind s h (prev_hash (header b)) p (acc @ [(x, b)]))
      else Some (Inr (x, b, acc)))"

partial_function (option) meet ::
    "chain_state \<Rightarrow> hash256 \<Rightarrow> block \<Rightarrow> block_chain \<Rightarrow> hash256 \<Rightarrow> block \<Rightarrow> block_chain \<Rightarrow>
       (chain_error + block_chain \<times> block_chain) option" where
  "meet s ox ob undo nx nb app =
     (if ox \<noteq> nx
      then (case get_block s (prev_hash (header ob)) of
              None \<Rightarrow> Some (Inl (MissingAncestor (prev_hash (header ob))))
            | Some op \<Rightarrow>
                (case get_block s (prev_hash (header nb)) of
                   None \<Rightarrow> Some (Inl (MissingAncestor (prev_hash (header nb))))
                 | Some np \<Rightarrow>
                     meet s (prev_hash (header ob)) op (undo @ [(ox, ob)])
                       (prev_hash (header nb)) np (app @ [(nx, nb)])))
      else Some (Inr (undo, app)))"

definition fork_paths :: "chain_state \<Rightarrow> hash256 \<Rightarrow> hash256 \<Rightarrow> (chain_error + block_chain \<times> block_chain) option" where
  "fork_paths s old_tip new_tip =
     (case get_block s old_tip of
        None \<Rightarrow> Some (Inl (MissingBlock old_tip))
      | Some ob \<Rightarrow>
          (case get_block s new_tip of
             None \<Rightarrow> Some (Inl (MissingBlock new_tip))
           | Some nb \<Rightarrow>
               (case rewind s (height (header nb)) old_tip ob [] of
                  None \<Rightarrow> None
                | Some (Inl e) \<Rightarrow> Some (Inl e)
                | Some (Inr (ox, ob', undo)) \<Rightarrow>
                    (case rewind s (height (header ob')) new_tip nb [] of
                       None \<Rightarrow> None
                     | Some (Inl e) \<Rightarrow> Some (Inl e)
                     | Some (Inr (nx, nb', app)) \<Rightarrow>
                         (case meet s ox ob' undo nx nb' app of
                            None \<Rightarrow> None
                          | Some (Inl e) \<Rightarrow> Some (Inl e)
                          | Some (Inr (undo', app')) \<Rightarrow> Some (Inr (undo', rev app')))))))"

section \<open>Simulation on an overlay\<close>

type_synonym overlay = "address \<rightharpoonup> account"

definition get_acc :: "chain_state \<Rightarrow> overlay \<Rightarrow> address \<Rightarrow> account" where
  "get_acc s ov a = (case ov a of Some acc \<Rightarrow> acc | None \<Rightarrow> get_account s a)"

definition put_acc :: "address \<Rightarrow> account \<Rightarrow> overlay \<Rightarrow> overlay" where
  "put_acc a acc ov = ov(a \<mapsto> acc)"

interpretation overlay_view: account_view "get_acc s" put_acc for s
  by unfold_locales (simp add: get_acc_def put_acc_def)

definition undo_tx :: "'a prims_scheme \<Rightarrow> chain_state \<Rightarrow> transaction \<Rightarrow> overlay \<Rightarrow> overlay" where
  "undo_tx P s tx ov =
     (let to_acc = get_acc s ov (tx_to tx);
          ov = put_acc (tx_to tx) (to_acc\<lparr>balance := sat_sub (balance to_acc) (amount tx)\<rparr>) ov;
          sender = to_address P (tx_from tx);
          sender_acc = get_acc s ov sender
      in put_acc sender (sender_acc\<lparr>balance := sat_add (balance sender_acc) (amount tx + fee tx),
                                    acct_nonce := sat_sub (acct_nonce sender_acc) 1\<rparr>) ov)"

definition undo_block :: "'a prims_scheme \<Rightarrow> genesis_config \<Rightarrow> chain_state \<Rightarrow> block \<Rightarrow> overlay \<Rightarrow> overlay" where
  "undo_block P gen s b ov =
     (let miner_acc = get_acc s ov (miner (header b));
          ov = put_acc (miner (header b))
                 (miner_acc\<lparr>balance := sat_sub (balance miner_acc) (block_reward gen (height (header b)))\<rparr>) ov
      in fold (undo_tx P s) (rev (transactions b)) ov)"

definition apply_tx :: "'a prims_scheme \<Rightarrow> chain_state \<Rightarrow> u64 \<Rightarrow> transaction \<Rightarrow> overlay \<Rightarrow> chain_error + overlay" where
  "apply_tx P s h tx ov =
     (let sender = to_address P (tx_from tx); sender_acc = get_acc s ov sender
      in if account_nonce tx \<noteq> acct_nonce sender_acc then Inl (ReorgBadNonce h)
         else if \<not> balance sender_acc \<ge> sat_add (amount tx) (fee tx) then Inl (ReorgInsufficientBalance h)
         else
           let ov = put_acc sender (sender_acc\<lparr>balance := balance sender_acc - (amount tx + fee tx),
                                               acct_nonce := acct_nonce sender_acc + 1\<rparr>) ov;
               to_acc = get_acc s ov (tx_to tx)
           in Inr (put_acc (tx_to tx) (to_acc\<lparr>balance := sat_add (balance to_acc) (amount tx)\<rparr>) ov))"

fun apply_txs :: "'a prims_scheme \<Rightarrow> chain_state \<Rightarrow> u64 \<Rightarrow> transaction list \<Rightarrow> overlay \<Rightarrow> chain_error + overlay" where
  "apply_txs P s h [] ov = Inr ov"
| "apply_txs P s h (tx # txs) ov =
     (case apply_tx P s h tx ov of Inl e \<Rightarrow> Inl e | Inr ov' \<Rightarrow> apply_txs P s h txs ov')"

definition apply_block :: "'a prims_scheme \<Rightarrow> genesis_config \<Rightarrow> chain_state \<Rightarrow> block \<Rightarrow> overlay \<Rightarrow> chain_error + overlay" where
  "apply_block P gen s b ov =
     (case apply_txs P s (height (header b)) (transactions b) ov of
        Inl e \<Rightarrow> Inl e
      | Inr ov' \<Rightarrow>
          let miner_acc = get_acc s ov' (miner (header b))
          in Inr (put_acc (miner (header b))
               (miner_acc\<lparr>balance := sat_add (balance miner_acc) (block_reward gen (height (header b)))\<rparr>) ov'))"

fun apply_blocks :: "'a prims_scheme \<Rightarrow> genesis_config \<Rightarrow> chain_state \<Rightarrow> block list \<Rightarrow> overlay \<Rightarrow> chain_error + overlay" where
  "apply_blocks P gen s [] ov = Inr ov"
| "apply_blocks P gen s (b # bs) ov =
     (case apply_block P gen s b ov of Inl e \<Rightarrow> Inl e | Inr ov' \<Rightarrow> apply_blocks P gen s bs ov')"

text \<open>
  The commit: every entry of the overlay is written (a \<open>HashMap\<close> has one entry per key, so the
  order does not matter), then the height index is moved and the tip is set.
\<close>

definition commit_overlay :: "overlay \<Rightarrow> chain_state \<Rightarrow> chain_state" where
  "commit_overlay ov s = s\<lparr>accounts := accounts s ++ ov\<rparr>"

definition unindex :: "block_chain \<Rightarrow> chain_state \<Rightarrow> chain_state" where
  "unindex bs = fold (\<lambda>(x, b). remove_canonical_height (height (header b))) bs"

definition index :: "block_chain \<Rightarrow> chain_state \<Rightarrow> chain_state" where
  "index bs = fold (\<lambda>(x, b). set_canonical_height (height (header b)) x) bs"

definition requeued :: "'a env_scheme \<Rightarrow> block_chain \<Rightarrow> block_chain \<Rightarrow> transaction list" where
  "requeued E undo_list apply_list =
     (let applied = concat (map (\<lambda>(x, b). map (tx_hash E) (transactions b)) apply_list)
      in filter (\<lambda>tx. tx_hash E tx \<notin> set applied) (concat (map (\<lambda>(x, b). transactions b) undo_list)))"

definition reconsider_tip ::
    "'a env_scheme \<Rightarrow> genesis_config \<Rightarrow> chain_state \<Rightarrow> hash256 \<Rightarrow> hash256 \<Rightarrow> u64 \<Rightarrow>
       ((chain_error + transaction list) \<times> chain_state) option" where
  "reconsider_tip E gen s old_tip new_tip new_tip_height =
     (case fork_paths s old_tip new_tip of
        None \<Rightarrow> None
      | Some (Inl e) \<Rightarrow> Some (Inl e, s)
      | Some (Inr (undo_list, apply_list)) \<Rightarrow>
          (let ov = fold (undo_block E gen s) (map snd undo_list) Map.empty
           in case apply_blocks E gen s (map snd apply_list) ov of
                Inl e \<Rightarrow> Some (Inl e, s)
              | Inr ov' \<Rightarrow>
                  Some (Inr (requeued E undo_list apply_list),
                    set_tip new_tip_height new_tip
                      (index apply_list (unindex undo_list (commit_overlay ov' s))))))"

section \<open>Submitting a block\<close>

text \<open>From the point where the parent is known: contextual checks, storage, fork choice.\<close>

definition submit_on_parent ::
    "'a env_scheme \<Rightarrow> chain \<Rightarrow> block \<Rightarrow> hash256 \<Rightarrow> block \<Rightarrow> ((chain_error + submit_outcome) \<times> chain) option" where
  "submit_on_parent E c b x parent =
     (let hd = header b in
      if height (header parent) + 1 \<noteq> height hd
      then Some (Inl (HeightMismatch (height hd) (height (header parent))), c)
      else case expected_difficulty_after c parent of
        Inl e \<Rightarrow> Some (Inl e, c)
      | Inr expected \<Rightarrow>
          if difficulty hd \<noteq> expected then Some (Inl (WrongDifficulty (difficulty hd) expected), c)
          else case get_chainwork (cstate c) (prev_hash hd) of
            None \<Rightarrow> Some (Inl (MissingChainwork (prev_hash hd)), c)
          | Some parent_work \<Rightarrow>
              (let this_work = parent_work + block_work (difficulty hd);
                   s = set_chainwork x this_work (store_block x b (cstate c));
                   c' = c\<lparr>cstate := s\<rparr>
               in case tip s of
                    None \<Rightarrow> Some (Inl NotInitialized, c')
                  | Some (_, tip_hash) \<Rightarrow>
                      (case get_chainwork s tip_hash of
                         None \<Rightarrow> Some (Inl MissingTipWork, c')
                       | Some tip_work \<Rightarrow>
                           if this_work > tip_work
                           then (case reconsider_tip E (cgenesis c) s tip_hash x (height hd) of
                                   None \<Rightarrow> None
                                 | Some (Inl e, s') \<Rightarrow> Some (Inl e, c'\<lparr>cstate := s'\<rparr>)
                                 | Some (Inr requeue, s') \<Rightarrow>
                                     Some (Inr (Accepted x (height hd) (tip_hash \<noteq> prev_hash hd) requeue),
                                           c'\<lparr>cstate := s'\<rparr>))
                           else Some (Inr (SideBranch x (height hd)), c'))))"

definition submit_block :: "'a env_scheme \<Rightarrow> chain \<Rightarrow> block \<Rightarrow> ((chain_error + submit_outcome) \<times> chain) option" where
  "submit_block E c b =
     (let hd = header b in
      if \<not> height hd > 0 then Some (Inl SecondGenesis, c)
      else case dataset_for_height E c (height hd) of
        None \<Rightarrow> None
      | Some (Inl e, c') \<Rightarrow> Some (Inl e, c')
      | Some (Inr ds, c') \<Rightarrow>
          (case header_id E hd ds of
             None \<Rightarrow> None
           | Some x \<Rightarrow>
               if has_block (cstate c') x then Some (Inr AlreadyKnown, c')
               else if tx_root hd \<noteq> compute_tx_root E b then Some (Inl InvalidTxRoot, c')
               else if \<not> meets_target x (target_for_difficulty (difficulty hd))
                 then Some (Inl PowBelowTarget, c')
               else if \<not> list_all (is_signature_valid E) (transactions b)
                 then Some (Inl InvalidTxSignature, c')
               else (case get_block (cstate c') (prev_hash hd) of
                       None \<Rightarrow> Some (Inr (Orphan (prev_hash hd)), c')
                     | Some parent \<Rightarrow> submit_on_parent E c' b x parent)))"

end
