(* ===== verification/Noise_Transport.thy ===== *)
theory Noise_Transport
  imports Primitives
begin

text \<open>
  Model of \<open>crates/ondris-network/src/noise.rs\<close>: length-prefixed frames, the two sides of the
  Noise XX handshake, the encrypted writer that cuts its input into chunks, the encrypted reader with
  its leftover bytes, and the persistent node identity. The crate \<open>snow\<close> is not part of the
  repository: its calls are the fields of the parameter record \<open>snow\<close>, and what the code relies on
  is stated by \<open>snow_paired\<close>, \<open>snow_xx\<close> and \<open>snow_halves\<close>. A connection is the sequence of bytes that arrives on
  it; a read past its end is the error of \<open>tokio::io::AsyncReadExt::read_exact\<close>. An operation that
  writes returns the bytes it wrote, also when it fails half-way.
\<close>

datatype net_error =
    UnexpectedEof
  | NoiseError
  | NoStaticKey
  | BadStaticKeyLength
  | MessageTooLarge nat
  | BadJson
  | DifferentNetwork string

record ('h, 't) snow =
  build_initiator :: "bytes \<Rightarrow> 'h option"  \<comment> \<open>from the local private key\<close>
  build_responder :: "bytes \<Rightarrow> 'h option"
  hs_write_message :: "'h \<Rightarrow> bytes \<Rightarrow> (bytes \<times> 'h) option"  \<comment> \<open>payload; \<open>None\<close>: a \<open>snow::Error\<close>\<close>
  hs_read_message :: "'h \<Rightarrow> bytes \<Rightarrow> (bytes \<times> 'h) option"
  get_remote_static :: "'h \<Rightarrow> bytes option"
  into_transport_mode :: "'h \<Rightarrow> 't option"
  write_transport :: "'t \<Rightarrow> bytes \<Rightarrow> (bytes \<times> 't) option"
  read_transport :: "'t \<Rightarrow> bytes \<Rightarrow> (bytes \<times> 't) option"

definition MAX_NOISE_PLAINTEXT :: nat where
  "MAX_NOISE_PLAINTEXT = 65535 - 16"

section \<open>Frames\<close>

definition write_frame :: "bytes \<Rightarrow> bytes" where
  "write_frame data = be_bytes 2 (of_nat (length data) :: u16) @ data"

definition take_exact :: "nat \<Rightarrow> bytes \<Rightarrow> net_error + bytes \<times> bytes" where
  "take_exact n stream = (if n \<le> length stream then Inr (take n stream, drop n stream) else Inl UnexpectedEof)"

definition read_frame :: "bytes \<Rightarrow> net_error + bytes \<times> bytes" where
  "read_frame stream =
     (case take_exact 2 stream of
        Inl e \<Rightarrow> Inl e
      | Inr (len_buf, rest) \<Rightarrow> take_exact (unat (be_word len_buf :: u16)) rest)"

text \<open>What the handshake and the transport rely on: a frame is read back, whatever follows it.\<close>

locale framing =
  fixes frame :: "'a \<Rightarrow> bytes" and unframe :: "bytes \<Rightarrow> 'e + 'a \<times> bytes" and fits :: "'a \<Rightarrow> bool"
  assumes unframe_frame: "fits a \<Longrightarrow> unframe (frame a @ rest) = Inr (a, rest)"
begin

lemma frame_prefix_inject: "fits a \<Longrightarrow> fits b \<Longrightarrow> frame a @ r = frame b @ s \<longleftrightarrow> a = b \<and> r = s"
  using unframe_frame [of a r] unframe_frame [of b s] by (metis Inr_inject prod.inject)

lemma frames_inject:
  assumes "\<forall>a \<in> set as. fits a" "\<forall>b \<in> set bs. fits b" "length as = length bs"
    and "concat (map frame as) @ r = concat (map frame bs) @ s"
  shows "as = bs \<and> r = s"
  using assms(3,1,2,4)
proof (induction as bs rule: list_induct2)
  case (Cons a as b bs)
  then have "frame a @ concat (map frame as) @ r = frame b @ concat (map frame bs) @ s" by simp
  with Cons.prems have "a = b" "concat (map frame as) @ r = concat (map frame bs) @ s"
    using frame_prefix_inject [of a b] by simp_all
  with Cons show ?case by simp
qed simp

end

lemma read_frame_write_frame:
  assumes "length d < 2 ^ 16"
  shows "read_frame (write_frame d @ rest) = Inr (d, rest)"
proof -
  have "unat (of_nat (length d) :: u16) = length d"
    using assms by (simp add: unsigned_of_nat take_bit_nat_eq_self)
  then show ?thesis
    by (simp add: read_frame_def write_frame_def take_exact_def be16.dec_prefix be16.take_enc be16.drop_enc
        be_word_be_bytes)
qed

interpretation frames: framing write_frame read_frame "\<lambda>d. length d < 2 ^ 16"
  by unfold_locales (rule read_frame_write_frame)

lemma read_frame_shorter: "read_frame s = Inr (d, r) \<Longrightarrow> length r < length s"
  by (auto simp: read_frame_def take_exact_def split: sum.splits if_splits)

section \<open>Handshake\<close>

definition remote_static_peer_id :: "('h, 't) snow \<Rightarrow> 'h \<Rightarrow> net_error + bytes" where
  "remote_static_peer_id N hs =
     (case get_remote_static N hs of
        None \<Rightarrow> Inl NoStaticKey
      | Some key \<Rightarrow> if length key = 32 then Inr key else Inl BadStaticKeyLength)"

text \<open>The end both sides share: the peer id is read first, then the transport state is made.\<close>

definition finish_handshake :: "('h, 't) snow \<Rightarrow> 'h \<Rightarrow> bytes \<Rightarrow> net_error + 't \<times> bytes \<times> bytes" where
  "finish_handshake N hs stream =
     (case remote_static_peer_id N hs of
        Inl e \<Rightarrow> Inl e
      | Inr peer_id \<Rightarrow>
          (case into_transport_mode N hs of
             None \<Rightarrow> Inl NoiseError
           | Some t \<Rightarrow> Inr (t, peer_id, stream)))"

text \<open>
  A side of the handshake takes the bytes that arrive and returns its result (transport state, peer
  id and the bytes it has not read) with the bytes it wrote.
\<close>

definition handshake_initiator ::
    "('h, 't) snow \<Rightarrow> bytes \<Rightarrow> bytes \<Rightarrow> (net_error + 't \<times> bytes \<times> bytes) \<times> bytes" where
  "handshake_initiator N private_key stream =
     (case build_initiator N private_key of
        None \<Rightarrow> (Inl NoiseError, [])
      | Some h0 \<Rightarrow>
          (case hs_write_message N h0 [] of
             None \<Rightarrow> (Inl NoiseError, [])
           | Some (m1, h1) \<Rightarrow>
               (case read_frame stream of
                  Inl e \<Rightarrow> (Inl e, write_frame m1)
                | Inr (m2, stream') \<Rightarrow>
                    (case hs_read_message N h1 m2 of
                       None \<Rightarrow> (Inl NoiseError, write_frame m1)
                     | Some (payload, h2) \<Rightarrow>
                         (case hs_write_message N h2 [] of
                            None \<Rightarrow> (Inl NoiseError, write_frame m1)
                          | Some (m3, h3) \<Rightarrow>
                              (finish_handshake N h3 stream', write_frame m1 @ write_frame m3))))))"

definition handshake_responder ::
    "('h, 't) snow \<Rightarrow> bytes \<Rightarrow> bytes \<Rightarrow> (net_error + 't \<times> bytes \<times> bytes) \<times> bytes" where
  "handshake_responder N private_key stream =
     (case build_responder N private_key of
        None \<Rightarrow> (Inl NoiseError, [])
      | Some h0 \<Rightarrow>
          (case read_frame stream of
             Inl e \<Rightarrow> (Inl e, [])
           | Inr (m1, stream') \<Rightarrow>
               (case hs_read_message N h0 m1 of
                  None \<Rightarrow> (Inl NoiseError, [])
                | Some (payload, h1) \<Rightarrow>
                    (case hs_write_message N h1 [] of
                       None \<Rightarrow> (Inl NoiseError, [])
                     | Some (m2, h2) \<Rightarrow>
                         (case read_frame stream' of
                            Inl e \<Rightarrow> (Inl e, write_frame m2)
                          | Inr (m3, stream'') \<Rightarrow>
                              (case hs_read_message N h2 m3 of
                                 None \<Rightarrow> (Inl NoiseError, write_frame m2)
                               | Some (payload', h3) \<Rightarrow>
                                   (finish_handshake N h3 stream'', write_frame m2)))))))"

section \<open>The encrypted stream\<close>

text \<open>The loop of \<open>EncryptedWriter::write_all\<close> over the chunks.\<close>

fun write_chunks :: "('h, 't) snow \<Rightarrow> 't \<Rightarrow> bytes list \<Rightarrow> (net_error + unit) \<times> bytes \<times> 't" where
  "write_chunks N t [] = (Inr (), [], t)"
| "write_chunks N t (chunk # cs) =
     (case write_transport N t chunk of
        None \<Rightarrow> (Inl NoiseError, [], t)
      | Some (ct, t') \<Rightarrow>
          (case write_chunks N t' cs of
             (r, out, t'') \<Rightarrow> (r, write_frame ct @ out, t'')))"

definition write_all :: "('h, 't) snow \<Rightarrow> 't \<Rightarrow> bytes \<Rightarrow> (net_error + unit) \<times> bytes \<times> 't" where
  "write_all N t plaintext = write_chunks N t (chunks MAX_NOISE_PLAINTEXT plaintext)"

record 't enc_reader =
  er_stream :: bytes
  er_transport :: 't
  er_leftover :: bytes

text \<open>\<open>EncryptedReader::read_exact\<close>; after an error the connection is dropped, so no state is kept.\<close>

function read_exact :: "('h, 't) snow \<Rightarrow> nat \<Rightarrow> 't enc_reader \<Rightarrow> net_error + bytes \<times> 't enc_reader" where
  "read_exact N n r =
     (if length (er_leftover r) < n
      then (case read_frame (er_stream r) of
              Inl e \<Rightarrow> Inl e
            | Inr (ct, stream') \<Rightarrow>
                (case read_transport N (er_transport r) ct of
                   None \<Rightarrow> Inl NoiseError
                 | Some (pt, t') \<Rightarrow>
                     read_exact N n \<lparr>er_stream = stream', er_transport = t', er_leftover = er_leftover r @ pt\<rparr>))
      else Inr (take n (er_leftover r), r\<lparr>er_leftover := drop n (er_leftover r)\<rparr>))"
  by pat_completeness auto
termination
  by (relation "measure (\<lambda>(N, n, r). length (er_stream r))") (auto dest: read_frame_shorter)

declare read_exact.simps [simp del]

section \<open>The node identity\<close>

record node_identity =
  private_key :: bytes
  public_key :: bytes

text \<open>
  \<open>load_or_generate\<close> on the content of the key file (\<open>None\<close>: it cannot be read), with the key pair
  that \<open>generate_keypair\<close> would return, whether the file can be written and whether its permissions
  can then be set. It returns the identity, or \<open>None\<close> for an error, and what the file holds afterwards.
\<close>

definition load_or_generate ::
    "bytes \<times> bytes \<Rightarrow> bool \<Rightarrow> bool \<Rightarrow> bytes option \<Rightarrow> node_identity option \<times> bytes option" where
  "load_or_generate keypair writable chmod_ok file =
     (let fresh = (if \<not> writable then (None, file)
                   else if \<not> chmod_ok then (None, Some (fst keypair @ snd keypair))
                   else (Some \<lparr>private_key = fst keypair, public_key = snd keypair\<rparr>, Some (fst keypair @ snd keypair)))
      in case file of
           Some bs \<Rightarrow>
             if length bs = 64
             then (Some \<lparr>private_key = take 32 bs, public_key = take 32 (drop 32 bs)\<rparr>, file)
             else fresh
         | None \<Rightarrow> fresh)"

text \<open>An identity is kept: the next start loads the one this start has returned.\<close>

lemma identity_persists:
  assumes "load_or_generate keypair w p file = (Some identity, file')" "length (fst keypair) = 32" "length (snd keypair) = 32"
  shows "load_or_generate keypair2 w2 p2 file' = (Some identity, file')"
  using assms by (auto simp: load_or_generate_def Let_def split: option.splits if_splits)

section \<open>What the code relies on from \<open>snow\<close>\<close>

text \<open>
  \<open>paired s r k\<close> says that the sending half of the state \<open>s\<close> feeds the receiving half of \<open>r\<close> for
  \<open>k\<close> more messages (Noise counts messages in 64 bits). A message of at most 65519 bytes becomes a
  ciphertext 16 bytes longer, and read in order it comes back.
\<close>

definition snow_paired :: "('h, 't) snow \<Rightarrow> ('t \<Rightarrow> 't \<Rightarrow> nat \<Rightarrow> bool) \<Rightarrow> bool" where
  "snow_paired N paired \<longleftrightarrow>
     (\<forall>s r k p. paired s r (Suc k) \<and> length p \<le> 65519 \<longrightarrow>
        (\<exists>c s' r'. write_transport N s p = Some (c, s') \<and> length c = length p + 16 \<and>
           read_transport N r c = Some (p, r') \<and> paired s' r' k))"

text \<open>
  The three messages of the XX pattern, each at most 65535 bytes: afterwards each side knows the
  other's static public key and the two transport states are paired in both directions.
\<close>

definition snow_xx :: "('h, 't) snow \<Rightarrow> ('t \<Rightarrow> 't \<Rightarrow> nat \<Rightarrow> bool) \<Rightarrow> (bytes \<Rightarrow> bytes) \<Rightarrow> bool" where
  "snow_xx N paired pub \<longleftrightarrow>
     (\<forall>a b. length a = 32 \<and> length b = 32 \<longrightarrow> length (pub a) = 32 \<and>
        (\<exists>i0 i1 i2 i3 r0 r1 r2 r3 m1 m2 m3 ti tr.
           build_initiator N a = Some i0 \<and> build_responder N b = Some r0 \<and>
           hs_write_message N i0 [] = Some (m1, i1) \<and> hs_read_message N r0 m1 = Some ([], r1) \<and>
           hs_write_message N r1 [] = Some (m2, r2) \<and> hs_read_message N i1 m2 = Some ([], i2) \<and>
           hs_write_message N i2 [] = Some (m3, i3) \<and> hs_read_message N r2 m3 = Some ([], r3) \<and>
           length m1 < 2 ^ 16 \<and> length m2 < 2 ^ 16 \<and> length m3 < 2 ^ 16 \<and>
           get_remote_static N i3 = Some (pub b) \<and> get_remote_static N r3 = Some (pub a) \<and>
           into_transport_mode N i3 = Some ti \<and> into_transport_mode N r3 = Some tr \<and>
           paired ti tr (2 ^ 64 - 1) \<and> paired tr ti (2 ^ 64 - 1)))"

text \<open>
  The transport state holds one cipher state per direction: \<open>write_message\<close> uses and changes only the sending one,
  \<open>read_message\<close> only the receiving one.
\<close>

definition snow_halves :: "('h, 't) snow \<Rightarrow> ('t \<Rightarrow> 's) \<Rightarrow> ('t \<Rightarrow> 'r) \<Rightarrow> bool" where
  "snow_halves N sending receiving \<longleftrightarrow>
     (\<forall>t p c t'. write_transport N t p = Some (c, t') \<longrightarrow> receiving t' = receiving t) \<and>
     (\<forall>t c p t'. read_transport N t c = Some (p, t') \<longrightarrow> sending t' = sending t) \<and>
     (\<forall>t u p. sending t = sending u \<longrightarrow>
        map_option (map_prod id sending) (write_transport N t p) = map_option (map_prod id sending) (write_transport N u p)) \<and>
     (\<forall>t u c. receiving t = receiving u \<longrightarrow>
        map_option (map_prod id receiving) (read_transport N t c) = map_option (map_prod id receiving) (read_transport N u c))"

section \<open>One transport state for the two halves of a connection\<close>

text \<open>
  \<open>EncryptedWriter\<close> and \<open>EncryptedReader\<close> share one state under a lock, and take the lock for one call at a time: the
  state sees any interleaving of the calls of the two. The results are listed in the order of the calls.
\<close>

datatype transport_use = Encrypt bytes | Decrypt bytes

fun use_shared :: "('h, 't) snow \<Rightarrow> 't \<Rightarrow> transport_use list \<Rightarrow> (transport_use \<times> bytes option) list" where
  "use_shared N t [] = []"
| "use_shared N t (Encrypt p # us) =
     (case write_transport N t p of
        None \<Rightarrow> (Encrypt p, None) # use_shared N t us
      | Some (c, t') \<Rightarrow> (Encrypt p, Some c) # use_shared N t' us)"
| "use_shared N t (Decrypt c # us) =
     (case read_transport N t c of
        None \<Rightarrow> (Decrypt c, None) # use_shared N t us
      | Some (p, t') \<Rightarrow> (Decrypt c, Some p) # use_shared N t' us)"

fun is_encrypt :: "transport_use \<Rightarrow> bool" where
  "is_encrypt (Encrypt p) = True"
| "is_encrypt (Decrypt c) = False"

text \<open>
  Each half gets what it would get from a state of its own, whatever the other does in between. This is why the
  models of writer and reader each carry the state they have started with.
\<close>

lemma writer_apart:
  assumes "snow_halves N sending receiving"
  shows "sending t = sending u \<Longrightarrow>
    filter (is_encrypt \<circ> fst) (use_shared N t us) = use_shared N u (filter is_encrypt us)"
proof (induction us arbitrary: t u)
  case (Cons a us)
  note laws = assms [unfolded snow_halves_def]
  show ?case
  proof (cases a)
    case (Encrypt p)
    have "map_option (map_prod id sending) (write_transport N t p) = map_option (map_prod id sending) (write_transport N u p)"
      using laws Cons.prems by blast
    then show ?thesis using Encrypt Cons.prems
      by (cases "write_transport N t p"; cases "write_transport N u p") (auto simp: Cons.IH [unfolded comp_def])
  next
    case (Decrypt c)
    have "sending t' = sending u" if "read_transport N t c = Some (p, t')" for p t'
      using laws that Cons.prems by metis
    then show ?thesis using Decrypt Cons.prems
      by (cases "read_transport N t c") (auto simp: Cons.IH [unfolded comp_def])
  qed
qed simp

lemma reader_apart:
  assumes "snow_halves N sending receiving"
  shows "receiving t = receiving u \<Longrightarrow>
    filter (Not \<circ> is_encrypt \<circ> fst) (use_shared N t us) = use_shared N u (filter (Not \<circ> is_encrypt) us)"
proof (induction us arbitrary: t u)
  case (Cons a us)
  note laws = assms [unfolded snow_halves_def]
  show ?case
  proof (cases a)
    case (Decrypt c)
    have "map_option (map_prod id receiving) (read_transport N t c) = map_option (map_prod id receiving) (read_transport N u c)"
      using laws Cons.prems by blast
    then show ?thesis using Decrypt Cons.prems
      by (cases "read_transport N t c"; cases "read_transport N u c") (auto simp: Cons.IH [unfolded comp_def])
  next
    case (Encrypt p)
    have "receiving t' = receiving u" if "write_transport N t p = Some (c, t')" for c t'
      using laws that Cons.prems by metis
    then show ?thesis using Encrypt Cons.prems
      by (cases "write_transport N t p") (auto simp: Cons.IH [unfolded comp_def])
  qed
qed simp

section \<open>Reading back what was written\<close>

lemma write_chunks_total:
  assumes "snow_paired N paired" "paired s r k" "length cs \<le> k" "\<forall>c \<in> set cs. length c \<le> MAX_NOISE_PLAINTEXT"
  shows "\<exists>out s'. write_chunks N s cs = (Inr (), out, s') \<and> (\<exists>r'. paired s' r' (k - length cs))"
  using assms(2-4)
proof (induction cs arbitrary: s r k)
  case (Cons c cs)
  then obtain k' where k: "k = Suc k'" "length cs \<le> k'" by (cases k) auto
  with Cons.prems obtain ct s1 r1 where "write_transport N s c = Some (ct, s1)" "paired s1 r1 k'"
    using assms(1) unfolding snow_paired_def MAX_NOISE_PLAINTEXT_def by fastforce
  with Cons.IH [of s1 r1 k'] Cons.prems k show ?case by fastforce
qed auto

text \<open>
  The reader consumes whole frames until it has enough bytes: it takes some of the chunks, hands out
  the front of their concatenation and keeps the rest as leftover.
\<close>

lemma read_exact_chunks:
  assumes laws: "snow_paired N paired"
    and prem: "paired s t k" "length cs \<le> k" "\<forall>c \<in> set cs. length c \<le> MAX_NOISE_PLAINTEXT"
      "write_chunks N s cs = (Inr (), out, s')" "n \<le> length (l @ concat cs)"
  shows "\<exists>cs1 cs2 s1 t1 out2. cs = cs1 @ cs2 \<and> n \<le> length (l @ concat cs1) \<and>
    read_exact N n \<lparr>er_stream = out @ rest, er_transport = t, er_leftover = l\<rparr> =
      Inr (take n (l @ concat cs1),
           \<lparr>er_stream = out2 @ rest, er_transport = t1, er_leftover = drop n (l @ concat cs1)\<rparr>) \<and>
    write_chunks N s1 cs2 = (Inr (), out2, s') \<and> paired s1 t1 (k - length cs1)"
  using prem
proof (induction cs arbitrary: l s t k out)
  case Nil
  then show ?case
    by (intro exI [of _ "[]"] exI [of _ s] exI [of _ t]) (simp add: read_exact.simps)
next
  case (Cons c cs)
  show ?case
  proof (cases "length l < n")
    case False
    with Cons.prems show ?thesis
      by (intro exI [of _ "[]"] exI [of _ "c # cs"] exI [of _ s] exI [of _ t] exI [of _ out])
        (simp add: read_exact.simps)
  next
    case True
    obtain k' where k: "k = Suc k'" "length cs \<le> k'" using Cons.prems(2) by (cases k) auto
    have "length c \<le> 65519" using Cons.prems(3) by (simp add: MAX_NOISE_PLAINTEXT_def)
    with laws Cons.prems(1) k obtain ct s1 t1 where ct: "write_transport N s c = Some (ct, s1)"
      "length ct = length c + 16" "read_transport N t ct = Some (c, t1)" "paired s1 t1 k'"
      unfolding snow_paired_def by blast
    obtain out1 where out: "out = write_frame ct @ out1" "write_chunks N s1 cs = (Inr (), out1, s')"
      using Cons.prems(4) ct(1) by (auto split: prod.splits)
    have fr: "read_frame (out @ rest) = Inr (ct, out1 @ rest)"
      using read_frame_write_frame [of ct "out1 @ rest"] ct(2) \<open>length c \<le> 65519\<close> by (simp add: out(1))
    have step: "read_exact N n \<lparr>er_stream = out @ rest, er_transport = t, er_leftover = l\<rparr> =
        read_exact N n \<lparr>er_stream = out1 @ rest, er_transport = t1, er_leftover = l @ c\<rparr>"
      using True fr ct(3) by (subst read_exact.simps) simp
    from Cons.IH [of s1 t1 k' out1 "l @ c"] Cons.prems ct(4) k out(2) obtain cs1 cs2 s2 t2 out2 where
      IH: "cs = cs1 @ cs2" "n \<le> length ((l @ c) @ concat cs1)"
      "read_exact N n \<lparr>er_stream = out1 @ rest, er_transport = t1, er_leftover = l @ c\<rparr> =
        Inr (take n ((l @ c) @ concat cs1),
          \<lparr>er_stream = out2 @ rest, er_transport = t2, er_leftover = drop n ((l @ c) @ concat cs1)\<rparr>)"
      "write_chunks N s2 cs2 = (Inr (), out2, s')" "paired s2 t2 (k' - length cs1)"
      by auto
    show ?thesis
      by (rule exI [of _ "c # cs1"], rule exI [of _ cs2], rule exI [of _ s2], rule exI [of _ t2], rule exI [of _ out2])
        (use IH step k in simp)
  qed
qed

end
