(* ===== verification/Network.thy ===== *)
theory Network
  imports Noise_Transport Ledger_Types "HOL-Library.AList" "HOL-Library.Sublist"
begin

text \<open>
  Model of \<open>crates/ondris-network/src/lib.rs\<close>: the messages and their framing on the encrypted
  stream, the peer table, and the life of a connection. A connection is an entry of \<open>conns\<close>; its
  unbounded channel is the list \<open>out_queue\<close> (the sending ends are the entries of the peer table that
  name the connection, the receiving end exists while \<open>rx_open\<close>), and \<open>wire\<close> is what its writer has
  put on the stream. Tasks run interleaved: the inductive relation \<open>net_step\<close> has one rule per
  critical section of the code.
\<close>

section \<open>Messages\<close>

datatype message =
    Handshake (hs_version: u32) (hs_network: string) (hs_height: u64)
  | NewBlock block
  | NewTransaction transaction
  | GetBlock hash256
  | BlockResponse "block option"
  | Ping
  | Pong

definition PROTOCOL_VERSION :: u32 where
  "PROTOCOL_VERSION = 1"

text \<open>\<open>serde_json\<close> on messages is a parameter, like the other third-party functions.\<close>

record net_env = env +
  json_message :: "message \<Rightarrow> bytes"  \<comment> \<open>\<open>serde_json::to_vec\<close>\<close>
  parse_message :: "bytes \<Rightarrow> message option"  \<comment> \<open>\<open>serde_json::from_slice\<close>\<close>

definition MAX_MESSAGE :: nat where
  "MAX_MESSAGE = 64 * 1024 * 1024"

definition write_message ::
    "('h, 't) snow \<Rightarrow> 'a net_env_scheme \<Rightarrow> 't \<Rightarrow> message \<Rightarrow> (net_error + unit) \<times> bytes \<times> 't" where
  "write_message N E t msg =
     (let bs = json_message E msg;
          len = of_nat (length bs) :: u32
      in write_all N t (be_bytes 4 len @ bs))"

definition read_message ::
    "('h, 't) snow \<Rightarrow> 'a net_env_scheme \<Rightarrow> 't enc_reader \<Rightarrow> net_error + message \<times> 't enc_reader" where
  "read_message N E r =
     (case read_exact N 4 r of
        Inl e \<Rightarrow> Inl e
      | Inr (len_buf, r1) \<Rightarrow>
          (let len = unat (be_word len_buf :: u32)
           in if \<not> len \<le> MAX_MESSAGE then Inl (MessageTooLarge len)
              else case read_exact N len r1 of
                Inl e \<Rightarrow> Inl e
              | Inr (buf, r2) \<Rightarrow>
                  (case parse_message E buf of None \<Rightarrow> Inl BadJson | Some msg \<Rightarrow> Inr (msg, r2))))"

text \<open>The writer task over the messages it is handed, and the first \<open>n\<close> rounds of the read loop.\<close>

fun write_messages ::
    "('h, 't) snow \<Rightarrow> 'a net_env_scheme \<Rightarrow> 't \<Rightarrow> message list \<Rightarrow> (net_error + unit) \<times> bytes \<times> 't" where
  "write_messages N E t [] = (Inr (), [], t)"
| "write_messages N E t (m # ms) =
     (case write_message N E t m of
        (Inl e, out, t') \<Rightarrow> (Inl e, out, t')
      | (Inr (), out, t') \<Rightarrow>
          (case write_messages N E t' ms of (r, out', t'') \<Rightarrow> (r, out @ out', t'')))"

fun read_messages ::
    "('h, 't) snow \<Rightarrow> 'a net_env_scheme \<Rightarrow> nat \<Rightarrow> 't enc_reader \<Rightarrow> net_error + message list \<times> 't enc_reader" where
  "read_messages N E 0 r = Inr ([], r)"
| "read_messages N E (Suc n) r =
     (case read_message N E r of
        Inl e \<Rightarrow> Inl e
      | Inr (m, r') \<Rightarrow>
          (case read_messages N E n r' of
             Inl e \<Rightarrow> Inl e
           | Inr (ms, r'') \<Rightarrow> Inr (m # ms, r'')))"

section \<open>State of the network\<close>

type_synonym socket_addr = string

datatype network_event =
    PeerConnected socket_addr
  | PeerDisconnected socket_addr
  | NewBlockEvent block
  | NewTransactionEvent transaction
  | GetBlockRequest socket_addr hash256
  | BlockResponseEvent "block option"

datatype phase = Greeting | Running | Closed

record conn =
  conn_addr :: socket_addr
  conn_phase :: phase
  out_queue :: "message list"
  rx_open :: bool
  wire :: "message list"

record network =
  peers :: "(socket_addr \<times> nat) list"
  conns :: "conn list"
  events :: "network_event list"
  net_name :: string
  my_height :: u64

definition new_network :: "string \<Rightarrow> network" where
  "new_network name = \<lparr>peers = [], conns = [], events = [], net_name = name, my_height = 0\<rparr>"

definition set_height :: "u64 \<Rightarrow> network \<Rightarrow> network" where
  "set_height h n = n\<lparr>my_height := h\<rparr>"

definition emit_event :: "network_event \<Rightarrow> network \<Rightarrow> network" where
  "emit_event e n = n\<lparr>events := events n @ [e]\<rparr>"

definition update_conn :: "nat \<Rightarrow> (conn \<Rightarrow> conn) \<Rightarrow> network \<Rightarrow> network" where
  "update_conn i f n = n\<lparr>conns := (conns n)[i := f (conns n ! i)]\<rparr>"

text \<open>\<open>tx.send(msg)\<close> on an unbounded channel: lost when the receiving end is gone.\<close>

definition chan_send :: "message \<Rightarrow> nat \<Rightarrow> network \<Rightarrow> network" where
  "chan_send msg i = update_conn i (\<lambda>c. if rx_open c then c\<lparr>out_queue := out_queue c @ [msg]\<rparr> else c)"

definition send_to :: "socket_addr \<Rightarrow> message \<Rightarrow> network \<Rightarrow> network" where
  "send_to a msg n = (case map_of (peers n) a of Some i \<Rightarrow> chan_send msg i n | None \<Rightarrow> n)"

definition broadcast :: "message \<Rightarrow> network \<Rightarrow> network" where
  "broadcast msg n = fold (chan_send msg) (map snd (peers n)) n"

definition peer_count :: "network \<Rightarrow> nat" where
  "peer_count n = length (peers n)"

section \<open>The life of a connection\<close>

text \<open>
  The start of \<open>handle_connection\<close>: who plays which part of the handshake depends on who opened the
  connection, and the encrypted reader starts with nothing left over. The code puts the transport state behind one
  lock for reader and writer (\<open>Arc<Mutex<TransportState>>\<close>). The writer here carries the returned state and the reader
  a copy of it, because neither sees what the other does to it: \<open>writer_apart\<close> and \<open>reader_apart\<close> of \<open>Noise_Transport\<close>,
  from the documented \<open>snow_halves\<close>.
\<close>

definition secure_connection ::
    "('h, 't) snow \<Rightarrow> node_identity \<Rightarrow> bool \<Rightarrow> bytes \<Rightarrow> (net_error + bytes \<times> 't \<times> 't enc_reader) \<times> bytes" where
  "secure_connection N identity is_initiator stream =
     (case if is_initiator then handshake_initiator N (private_key identity) stream
           else handshake_responder N (private_key identity) stream of
        (Inl e, out) \<Rightarrow> (Inl e, out)
      | (Inr (t, peer_id, rest), out) \<Rightarrow>
          (Inr (peer_id, t, \<lparr>er_stream = rest, er_transport = t, er_leftover = []\<rparr>), out))"

text \<open>After the Noise handshake: the channel is made, entered in the table, and announced.\<close>

definition register_peer :: "socket_addr \<Rightarrow> network \<Rightarrow> network" where
  "register_peer a n =
     emit_event (PeerConnected a)
       (n\<lparr>peers := AList.update a (length (conns n)) (peers n),
          conns := conns n @ [\<lparr>conn_addr = a, conn_phase = Greeting, out_queue = [], rx_open = True, wire = []\<rparr>]\<rparr>)"

text \<open>
  The first message; \<open>ok\<close> is whether \<open>write_message\<close> succeeds. When it fails, the \<open>?\<close> returns from
  \<open>handle_connection\<close> at once.
\<close>

definition greet_peer :: "nat \<Rightarrow> bool \<Rightarrow> network \<Rightarrow> network" where
  "greet_peer i ok n =
     update_conn i (\<lambda>c. if ok
       then c\<lparr>conn_phase := Running, wire := wire c @ [Handshake PROTOCOL_VERSION (net_name n) (my_height n)]\<rparr>
       else c\<lparr>conn_phase := Closed, rx_open := False\<rparr>) n"

text \<open>One round of the writer task, which ends at a failed write, or when every sender is gone.\<close>

definition write_round :: "nat \<Rightarrow> bool \<Rightarrow> network \<Rightarrow> network" where
  "write_round i ok n =
     (case out_queue (conns n ! i) of
        m # ms \<Rightarrow>
          update_conn i (\<lambda>c. if ok then c\<lparr>out_queue := ms, wire := wire c @ [m]\<rparr>
                             else c\<lparr>out_queue := ms, rx_open := False\<rparr>) n
      | [] \<Rightarrow> if i \<in> set (map snd (peers n)) then n else update_conn i (\<lambda>c. c\<lparr>rx_open := False\<rparr>) n)"

text \<open>The end of \<open>handle_connection\<close> once the read loop has failed.\<close>

definition close_connection :: "nat \<Rightarrow> network \<Rightarrow> network" where
  "close_connection i n =
     (let a = conn_addr (conns n ! i)
      in update_conn i (\<lambda>c. c\<lparr>conn_phase := Closed, rx_open := False\<rparr>)
           (emit_event (PeerDisconnected a) (n\<lparr>peers := AList.delete a (peers n)\<rparr>)))"

text \<open>One round of the read loop on the outcome of \<open>read_message\<close>.\<close>

definition handle_message :: "nat \<Rightarrow> message \<Rightarrow> network \<Rightarrow> net_error + network" where
  "handle_message i msg n =
     (let a = conn_addr (conns n ! i)
      in case msg of
           Handshake v name h \<Rightarrow> if name = net_name n then Inr n else Inl (DifferentNetwork name)
         | NewBlock b \<Rightarrow> Inr (emit_event (NewBlockEvent b) n)
         | NewTransaction tx \<Rightarrow> Inr (emit_event (NewTransactionEvent tx) n)
         | GetBlock x \<Rightarrow> Inr (emit_event (GetBlockRequest a x) n)
         | BlockResponse b \<Rightarrow> Inr (emit_event (BlockResponseEvent b) n)
         | Ping \<Rightarrow> Inr (send_to a Pong n)
         | Pong \<Rightarrow> Inr n)"

definition read_round :: "nat \<Rightarrow> net_error + message \<Rightarrow> network \<Rightarrow> network" where
  "read_round i received n =
     (case received of
        Inl e \<Rightarrow> close_connection i n
      | Inr msg \<Rightarrow> (case handle_message i msg n of Inl e \<Rightarrow> close_connection i n | Inr n' \<Rightarrow> n'))"

inductive net_step :: "network \<Rightarrow> network \<Rightarrow> bool" where
  registered: "net_step n (register_peer a n)"
| greeted: "i < length (conns n) \<Longrightarrow> conn_phase (conns n ! i) = Greeting \<Longrightarrow> net_step n (greet_peer i ok n)"
| wrote: "i < length (conns n) \<Longrightarrow> conn_phase (conns n ! i) = Running \<Longrightarrow> rx_open (conns n ! i) \<Longrightarrow>
    net_step n (write_round i ok n)"
| received: "i < length (conns n) \<Longrightarrow> conn_phase (conns n ! i) = Running \<Longrightarrow> net_step n (read_round i m n)"
| sent: "net_step n (send_to a msg n)"
| broadcasted: "net_step n (broadcast msg n)"
| height_set: "net_step n (set_height h n)"
| event_taken: "events n = e # es \<Longrightarrow> net_step n (n\<lparr>events := es\<rparr>)"

inductive net_reachable :: "string \<Rightarrow> network \<Rightarrow> bool" for name where
  started: "net_reachable name (new_network name)"
| stepped: "net_reachable name n \<Longrightarrow> net_step n n' \<Longrightarrow> net_reachable name n'"

inductive_cases net_stepE: "net_step n n'"

section \<open>Messages arrive\<close>

definition framed_message :: "'a net_env_scheme \<Rightarrow> message \<Rightarrow> bytes" where
  "framed_message E m = be_bytes 4 (of_nat (length (json_message E m)) :: u32) @ json_message E m"

text \<open>The number of Noise messages that an application message takes.\<close>

definition message_frames :: "'a net_env_scheme \<Rightarrow> message \<Rightarrow> nat" where
  "message_frames E m = length (chunks MAX_NOISE_PLAINTEXT (framed_message E m))"

definition sendable :: "'a net_env_scheme \<Rightarrow> message \<Rightarrow> bool" where
  "sendable E m \<longleftrightarrow> length (json_message E m) \<le> MAX_MESSAGE \<and> parse_message E (json_message E m) = Some m"

lemma write_message_framed: "write_message N E t m = write_chunks N t (chunks MAX_NOISE_PLAINTEXT (framed_message E m))"
  by (simp add: write_message_def write_all_def framed_message_def Let_def)

lemma framed_chunks:
  "concat (chunks MAX_NOISE_PLAINTEXT xs) = xs" "\<forall>c \<in> set (chunks MAX_NOISE_PLAINTEXT xs). length c \<le> MAX_NOISE_PLAINTEXT"
  "[] \<notin> set (chunks MAX_NOISE_PLAINTEXT xs)"
  using concat_chunks [of MAX_NOISE_PLAINTEXT xs] length_in_chunks [of _ MAX_NOISE_PLAINTEXT xs]
  by (auto simp: MAX_NOISE_PLAINTEXT_def)

lemma write_message_total:
  assumes "snow_paired N paired" "paired s t k" "message_frames E m \<le> k"
  shows "\<exists>out s' t'. write_message N E s m = (Inr (), out, s') \<and> paired s' t' (k - message_frames E m)"
  using write_chunks_total [OF assms(1,2) assms(3) [unfolded message_frames_def] framed_chunks(2)]
  by (simp add: write_message_framed message_frames_def)

lemma read_length_prefix:
  assumes "snow_paired N paired" "paired s t k" "message_frames E m \<le> k" "write_message N E s m = (Inr (), out, s')"
  shows "\<exists>cs1 cs2 s1 t1 out2. chunks MAX_NOISE_PLAINTEXT (framed_message E m) = cs1 @ cs2 \<and>
    json_message E m = drop 4 (concat cs1) @ concat cs2 \<and>
    read_exact N 4 \<lparr>er_stream = out @ rest, er_transport = t, er_leftover = []\<rparr> =
      Inr (be_bytes 4 (of_nat (length (json_message E m)) :: u32),
           \<lparr>er_stream = out2 @ rest, er_transport = t1, er_leftover = drop 4 (concat cs1)\<rparr>) \<and>
    write_chunks N s1 cs2 = (Inr (), out2, s') \<and> paired s1 t1 (k - length cs1)"
proof -
  let ?len = "be_bytes 4 (of_nat (length (json_message E m)) :: u32)"
  let ?cs = "chunks MAX_NOISE_PLAINTEXT (framed_message E m)"
  have "4 \<le> length ([] @ concat ?cs)" by (simp add: framed_chunks framed_message_def)
  from read_exact_chunks [OF assms(1,2) assms(3) [unfolded message_frames_def] framed_chunks(2)
      assms(4) [unfolded write_message_framed] this, of rest]
  obtain cs1 cs2 s1 t1 out2 where r: "?cs = cs1 @ cs2" "4 \<le> length (concat cs1)"
    "read_exact N 4 \<lparr>er_stream = out @ rest, er_transport = t, er_leftover = []\<rparr> =
      Inr (take 4 (concat cs1), \<lparr>er_stream = out2 @ rest, er_transport = t1, er_leftover = drop 4 (concat cs1)\<rparr>)"
    "write_chunks N s1 cs2 = (Inr (), out2, s')" "paired s1 t1 (k - length cs1)"
    by auto
  have all: "concat cs1 @ concat cs2 = ?len @ json_message E m"
    using framed_chunks(1) [of "framed_message E m"]
    by (simp only: r(1) concat_append) (simp only: framed_message_def)
  have "take 4 (concat cs1) = take 4 (concat cs1 @ concat cs2)" using r(2) by simp
  also have "\<dots> = ?len" by (simp add: all)
  finally have len: "take 4 (concat cs1) = ?len" .
  have "drop 4 (concat cs1) @ concat cs2 = drop 4 (concat cs1 @ concat cs2)" using r(2) by simp
  also have "\<dots> = json_message E m" by (simp add: all)
  finally have "json_message E m = drop 4 (concat cs1) @ concat cs2" by simp
  with r len show ?thesis by metis
qed

lemma unat_length_prefix:
  "length bs < 2 ^ 32 \<Longrightarrow> unat (be_word (be_bytes 4 (of_nat (length bs) :: u32)) :: u32) = length bs"
  by (simp add: be_word_be_bytes unsigned_of_nat take_bit_nat_eq_self)

lemma read_message_written:
  assumes laws: "snow_paired N paired" and prem: "paired s t k" "message_frames E m \<le> k"
    and w: "write_message N E s m = (Inr (), out, s')" and ok: "sendable E m"
  shows "\<exists>t'. read_message N E \<lparr>er_stream = out @ rest, er_transport = t, er_leftover = []\<rparr> =
      Inr (m, \<lparr>er_stream = rest, er_transport = t', er_leftover = []\<rparr>) \<and> paired s' t' (k - message_frames E m)"
proof -
  let ?bs = "json_message E m" and ?cs = "chunks MAX_NOISE_PLAINTEXT (framed_message E m)"
  obtain cs1 cs2 s1 t1 out2 where a: "?cs = cs1 @ cs2" "?bs = drop 4 (concat cs1) @ concat cs2"
    "read_exact N 4 \<lparr>er_stream = out @ rest, er_transport = t, er_leftover = []\<rparr> =
      Inr (be_bytes 4 (of_nat (length ?bs) :: u32),
           \<lparr>er_stream = out2 @ rest, er_transport = t1, er_leftover = drop 4 (concat cs1)\<rparr>)"
    "write_chunks N s1 cs2 = (Inr (), out2, s')" "paired s1 t1 (k - length cs1)"
    using read_length_prefix [OF laws prem w] by metis
  have cs2: "length cs2 \<le> k - length cs1" "\<forall>c \<in> set cs2. length c \<le> MAX_NOISE_PLAINTEXT" "[] \<notin> set cs2"
    using prem(2) framed_chunks(2,3) [of "framed_message E m"] by (auto simp: message_frames_def a(1))
  have "length ?bs \<le> length (drop 4 (concat cs1) @ concat cs2)" using a(2) by simp
  from read_exact_chunks [OF laws a(5) cs2(1,2) a(4) this, of rest]
  obtain cs3 cs4 s2 t2 out3 where b: "cs2 = cs3 @ cs4" "length ?bs \<le> length (drop 4 (concat cs1) @ concat cs3)"
    "read_exact N (length ?bs) \<lparr>er_stream = out2 @ rest, er_transport = t1, er_leftover = drop 4 (concat cs1)\<rparr> =
      Inr (take (length ?bs) (drop 4 (concat cs1) @ concat cs3),
        \<lparr>er_stream = out3 @ rest, er_transport = t2,
         er_leftover = drop (length ?bs) (drop 4 (concat cs1) @ concat cs3)\<rparr>)"
    "write_chunks N s2 cs4 = (Inr (), out3, s')" "paired s2 t2 (k - length cs1 - length cs3)"
    by blast
  have len: "length ?bs = length (drop 4 (concat cs1) @ concat cs3) + length (concat cs4)"
    using arg_cong [OF a(2), of length] by (simp add: b(1))
  with b(2) have "concat cs4 = []" by simp
  then have cs4: "cs4 = []" using cs2(3) b(1) by (cases cs4) auto
  then have all: "drop 4 (concat cs1) @ concat cs3 = ?bs" using a(2) b(1) by simp
  have small: "length ?bs < 2 ^ 32" "length ?bs \<le> MAX_MESSAGE" "parse_message E ?bs = Some m"
    using ok by (auto simp: sendable_def MAX_MESSAGE_def)
  have "k - message_frames E m = k - length cs1 - length cs3"
    using arg_cong [OF a(1), of length] b(1) cs4 by (simp add: message_frames_def)
  then show ?thesis
    using a(3) b(3-5) cs4 all small
    by (intro exI [of _ t2]) (simp add: read_message_def unat_length_prefix)
qed

text \<open>A message over 64 MiB is written without complaint, and refused by the reader on its length alone.\<close>

lemma oversized_message:
  assumes "snow_paired N paired" "paired s t k" "message_frames E m \<le> k"
    and "MAX_MESSAGE < length (json_message E m)" "length (json_message E m) < 2 ^ 32"
  shows "\<exists>out s'. write_message N E s m = (Inr (), out, s') \<and>
    read_message N E \<lparr>er_stream = out @ rest, er_transport = t, er_leftover = []\<rparr> =
      Inl (MessageTooLarge (length (json_message E m)))"
proof -
  obtain out s' where w: "write_message N E s m = (Inr (), out, s')" using write_message_total [OF assms(1-3)] by blast
  obtain r where "read_exact N 4 \<lparr>er_stream = out @ rest, er_transport = t, er_leftover = []\<rparr> =
      Inr (be_bytes 4 (of_nat (length (json_message E m)) :: u32), r)"
    using read_length_prefix [OF assms(1-3) w, of rest] by metis
  with w assms(4,5) show ?thesis
    by (intro exI [of _ out] exI [of _ s']) (simp add: read_message_def unat_length_prefix)
qed

lemma messages_written_read:
  assumes laws: "snow_paired N paired" and "paired s t k" "sum_list (map (message_frames E) ms) \<le> k" "list_all (sendable E) ms"
  shows "\<exists>out s'. write_messages N E s ms = (Inr (), out, s') \<and>
    (\<exists>t'. read_messages N E (length ms) \<lparr>er_stream = out @ rest, er_transport = t, er_leftover = []\<rparr> =
      Inr (ms, \<lparr>er_stream = rest, er_transport = t', er_leftover = []\<rparr>))"
  using assms(2-4)
proof (induction ms arbitrary: s t k)
  case (Cons m ms)
  then have k: "message_frames E m \<le> k" "sum_list (map (message_frames E) ms) \<le> k - message_frames E m" by auto
  obtain out s1 where w: "write_message N E s m = (Inr (), out, s1)"
    using write_message_total [OF laws Cons.prems(1) k(1)] by blast
  have ok: "sendable E m" using Cons.prems(3) by simp
  obtain t0 where "paired s1 t0 (k - message_frames E m)"
    using read_message_written [OF laws Cons.prems(1) k(1) w ok, of rest] by blast
  from Cons.IH [OF this k(2)] Cons.prems(3) obtain out' s' where
    ms: "write_messages N E s1 ms = (Inr (), out', s')" by auto
  obtain t1 where r: "read_message N E \<lparr>er_stream = out @ (out' @ rest), er_transport = t, er_leftover = []\<rparr> =
      Inr (m, \<lparr>er_stream = out' @ rest, er_transport = t1, er_leftover = []\<rparr>)" "paired s1 t1 (k - message_frames E m)"
    using read_message_written [OF laws Cons.prems(1) k(1) w ok, of "out' @ rest"] by blast
  have "\<exists>t'. read_messages N E (length ms) \<lparr>er_stream = out' @ rest, er_transport = t1, er_leftover = []\<rparr> =
      Inr (ms, \<lparr>er_stream = rest, er_transport = t', er_leftover = []\<rparr>)"
    using Cons.IH [OF r(2) k(2)] Cons.prems(3) ms by auto
  then obtain t' where rs: "read_messages N E (length ms) \<lparr>er_stream = out' @ rest, er_transport = t1, er_leftover = []\<rparr> =
      Inr (ms, \<lparr>er_stream = rest, er_transport = t', er_leftover = []\<rparr>)" by blast
  have "write_messages N E s (m # ms) = (Inr (), out @ out', s')" using w ms by (simp split: unit.split)
  moreover have "read_messages N E (length (m # ms)) \<lparr>er_stream = (out @ out') @ rest, er_transport = t, er_leftover = []\<rparr> =
      Inr (m # ms, \<lparr>er_stream = rest, er_transport = t', er_leftover = []\<rparr>)"
    using r(1) rs by simp
  ultimately show ?case by blast
qed simp

end
