(* ===== verification/Node.thy ===== *)
theory Node
  imports Chain Network
begin

text \<open>
  Model of \<open>crates/ondris-node/src/main.rs\<close> and of the types it answers with
  (\<open>crates/ondris-core/src/rpc_types.rs\<close>): the shared state of a node, the loop that takes network
  events, the buffer of orphan blocks with its cascade, and the RPC handlers. A handler takes the state
  of the node and returns the new one with its \<open>Result\<close>; the outer \<open>option\<close> is \<open>None\<close> where it does
  not return. What the node sends goes through the operations of theory \<open>Network\<close>.
\<close>

section \<open>State\<close>

record app =
  achain :: chain
  anet :: network
  orphans :: "(hash256 \<times> block list) list"

definition with_state :: "(chain_state \<Rightarrow> chain_state) \<Rightarrow> app \<Rightarrow> app" where
  "with_state f app = app\<lparr>achain := (achain app)\<lparr>cstate := f (cstate (achain app))\<rparr>\<rparr>"

definition with_net :: "(network \<Rightarrow> network) \<Rightarrow> app \<Rightarrow> app" where
  "with_net f app = app\<lparr>anet := f (anet app)\<rparr>"

text \<open>The part of \<open>main\<close> that builds the state; the \<open>expect\<close> on the tip is the outer \<open>None\<close>.\<close>

definition node_start :: "'a prims_scheme \<Rightarrow> genesis_config \<Rightarrow> chain_state \<Rightarrow> (chain_error + app) option" where
  "node_start P gen s =
     (case chain_open P gen s of
        Inl e \<Rightarrow> Some (Inl e)
      | Inr c \<Rightarrow>
          (case tip (cstate c) of
             None \<Rightarrow> None
           | Some (start_height, x) \<Rightarrow>
               Some (Inr \<lparr>achain = c, anet = set_height start_height (new_network (network_name gen)),
                          orphans = []\<rparr>)))"

section \<open>Blocks\<close>

text \<open>\<open>entry(k).or_default().push(b)\<close>.\<close>

definition buffer_orphan :: "hash256 \<Rightarrow> block \<Rightarrow> (hash256 \<times> block list) list \<Rightarrow> (hash256 \<times> block list) list" where
  "buffer_orphan k b os = AList.update k ((case map_of os k of None \<Rightarrow> [] | Some bs \<Rightarrow> bs) @ [b]) os"

definition handle_outcome :: "'a env_scheme \<Rightarrow> block \<Rightarrow> submit_outcome \<Rightarrow> app \<Rightarrow> app" where
  "handle_outcome E b outcome app =
     (case outcome of
        Accepted x h reorged requeue \<Rightarrow>
          (let app1 = with_net (broadcast (NewBlock b) \<circ> set_height h) app;
               app2 = with_state (fold (\<lambda>tx. mempool_remove (tx_hash E tx)) (transactions b)) app1
           in with_state (fold (mempool_insert E) requeue) app2)
      | SideBranch x h \<Rightarrow> with_net (broadcast (NewBlock b)) app
      | AlreadyKnown \<Rightarrow> app
      | Orphan missing_parent \<Rightarrow>
          with_net (broadcast (GetBlock missing_parent))
            (app\<lparr>orphans := buffer_orphan missing_parent b (orphans app)\<rparr>))"

text \<open>The inner loop of the cascade, over the orphans that waited on one block.\<close>

fun retry_children ::
    "'a env_scheme \<Rightarrow> block list \<Rightarrow> hash256 list \<Rightarrow> app \<Rightarrow> (hash256 list \<times> app) option" where
  "retry_children E [] queue app = Some (queue, app)"
| "retry_children E (child # cs) queue app =
     (case submit_block E (achain app) child of
        None \<Rightarrow> None
      | Some (Inl e, c) \<Rightarrow> retry_children E cs queue (app\<lparr>achain := c\<rparr>)
      | Some (Inr outcome, c) \<Rightarrow>
          retry_children E cs
            (case outcome of Accepted x2 h re rq \<Rightarrow> queue @ [x2] | _ \<Rightarrow> queue)
            (handle_outcome E child outcome (app\<lparr>achain := c\<rparr>)))"

partial_function (option) cascade :: "'a env_scheme \<Rightarrow> hash256 list \<Rightarrow> app \<Rightarrow> app option" where
  "cascade E queue app =
     (case queue of
        [] \<Rightarrow> Some app
      | x # queue' \<Rightarrow>
          (case map_of (orphans app) x of
             None \<Rightarrow> cascade E queue' app
           | Some children \<Rightarrow>
               (case retry_children E children queue' (app\<lparr>orphans := AList.delete x (orphans app)\<rparr>) of
                  None \<Rightarrow> None
                | Some (queue'', app') \<Rightarrow> cascade E queue'' app')))"

definition accept_and_broadcast :: "'a env_scheme \<Rightarrow> block \<Rightarrow> app \<Rightarrow> ((chain_error + submit_outcome) \<times> app) option" where
  "accept_and_broadcast E b app =
     (case submit_block E (achain app) b of
        None \<Rightarrow> None
      | Some (Inl e, c) \<Rightarrow> Some (Inl e, app\<lparr>achain := c\<rparr>)
      | Some (Inr outcome, c) \<Rightarrow>
          (let app' = handle_outcome E b outcome (app\<lparr>achain := c\<rparr>)
           in case outcome of
                Accepted x h re rq \<Rightarrow>
                  (case cascade E [x] app' of None \<Rightarrow> None | Some app'' \<Rightarrow> Some (Inr outcome, app''))
              | _ \<Rightarrow> Some (Inr outcome, app')))"

section \<open>The event loop\<close>

definition on_event :: "'a env_scheme \<Rightarrow> network_event \<Rightarrow> app \<Rightarrow> app option" where
  "on_event E ev app =
     (case ev of
        NewBlockEvent b \<Rightarrow> map_option snd (accept_and_broadcast E b app)
      | NewTransactionEvent tx \<Rightarrow>
          if is_signature_valid E tx
          then Some (with_net (broadcast (NewTransaction tx)) (with_state (mempool_insert E tx) app))
          else Some app
      | GetBlockRequest peer_addr x \<Rightarrow>
          Some (with_net (send_to peer_addr (BlockResponse (get_block (cstate (achain app)) x))) app)
      | BlockResponseEvent (Some b) \<Rightarrow> map_option snd (accept_and_broadcast E b app)
      | BlockResponseEvent None \<Rightarrow> Some app
      | PeerConnected a \<Rightarrow> Some app
      | PeerDisconnected a \<Rightarrow> Some app)"

text \<open>One tick of the task that announces the pending transactions again.\<close>

definition rebroadcast :: "app \<Rightarrow> app" where
  "rebroadcast app =
     with_net (fold (\<lambda>tx. broadcast (NewTransaction tx)) (mempool_all (cstate (achain app)))) app"

section \<open>RPC\<close>

text \<open>Every error of a handler becomes \<open>400 Bad Request\<close> with its text; here it stays a value.\<close>

datatype rpc_error =
    ChainFailed chain_error
  | ChainNotInitialized
  | BadAddress parse_error
  | NoBlockAtHeight u64
  | InvalidSignature
  | BlockAlreadyKnown
  | UnknownParent hash256

record chain_info =
  ci_network :: string
  ci_height :: u64
  ci_tip_hash :: hash256
  ci_next_difficulty :: u64
  ci_peer_count :: nat

record account_info =
  ai_address :: address
  ai_balance :: u64
  ai_nonce :: u64

definition account_info_new :: "address \<Rightarrow> account \<Rightarrow> account_info" where
  "account_info_new a acc = \<lparr>ai_address = a, ai_balance = balance acc, ai_nonce = acct_nonce acc\<rparr>"

record work_reply =
  wt_block :: block
  wt_target :: bytes
  wt_epoch :: u64
  wt_boundary_hash :: "hash256 option"

record submit_block_reply =
  sb_block_hash :: hash256
  sb_height :: u64

definition rpc_chain_info :: "app \<Rightarrow> rpc_error + chain_info" where
  "rpc_chain_info app =
     (case tip (cstate (achain app)) of
        None \<Rightarrow> Inl ChainNotInitialized
      | Some (h, x) \<Rightarrow>
          (case compute_next_difficulty (achain app) (h + 1) of
             Inl e \<Rightarrow> Inl (ChainFailed e)
           | Inr diff \<Rightarrow>
               Inr \<lparr>ci_network = network_name (cgenesis (achain app)), ci_height = h, ci_tip_hash = x,
                    ci_next_difficulty = diff, ci_peer_count = peer_count (anet app)\<rparr>))"

definition rpc_get_account :: "'a prims_scheme \<Rightarrow> string \<Rightarrow> app \<Rightarrow> rpc_error + account_info" where
  "rpc_get_account P text app =
     (case addr_from_str P text of
        Inl e \<Rightarrow> Inl (BadAddress e)
      | Inr a \<Rightarrow> Inr (account_info_new a (get_account (cstate (achain app)) a)))"

definition rpc_get_block_by_height :: "u64 \<Rightarrow> app \<Rightarrow> rpc_error + block" where
  "rpc_get_block_by_height h app =
     (case get_block_by_height (cstate (achain app)) h of
        None \<Rightarrow> Inl (NoBlockAtHeight h)
      | Some b \<Rightarrow> Inr b)"

text \<open>
  \<open>get_work\<close> takes no lock of the chain. This is the request between whose reads nothing comes; theories \<open>Template_Race\<close>
  and \<open>Disturbed_Work\<close> let the node move between them.
\<close>

definition rpc_get_work :: "'a env_scheme \<Rightarrow> u64 \<Rightarrow> string \<Rightarrow> app \<Rightarrow> ((rpc_error + work_reply) \<times> app) option" where
  "rpc_get_work E now text app =
     (case addr_from_str E text of
        Inl e \<Rightarrow> Some (Inl (BadAddress e), app)
      | Inr miner_addr \<Rightarrow>
          (case work_template E now (achain app) miner_addr (mempool_all (cstate (achain app))) of
             None \<Rightarrow> None
           | Some (Inl e, c) \<Rightarrow> Some (Inl (ChainFailed e), app\<lparr>achain := c\<rparr>)
           | Some (Inr (b, ds), c) \<Rightarrow>
               (let epoch = epoch_of (height (header b))
                in Some (Inr \<lparr>wt_block = b, wt_target = target_for_difficulty (difficulty (header b)),
                              wt_epoch = epoch,
                              wt_boundary_hash =
                                (if epoch = 0 then None else get_hash_by_height (cstate c) (epoch * EPOCH_LENGTH))\<rparr>,
                         app\<lparr>achain := c\<rparr>))))"

definition rpc_submit_block :: "'a env_scheme \<Rightarrow> block \<Rightarrow> app \<Rightarrow> ((rpc_error + submit_block_reply) \<times> app) option" where
  "rpc_submit_block E b app =
     (case accept_and_broadcast E b app of
        None \<Rightarrow> None
      | Some (Inl e, app') \<Rightarrow> Some (Inl (ChainFailed e), app')
      | Some (Inr outcome, app') \<Rightarrow>
          Some (case outcome of
                  Accepted x h re rq \<Rightarrow> Inr \<lparr>sb_block_hash = x, sb_height = h\<rparr>
                | SideBranch x h \<Rightarrow> Inr \<lparr>sb_block_hash = x, sb_height = h\<rparr>
                | AlreadyKnown \<Rightarrow> Inl BlockAlreadyKnown
                | Orphan p \<Rightarrow> Inl (UnknownParent p), app'))"

definition rpc_submit_tx :: "'a env_scheme \<Rightarrow> transaction \<Rightarrow> app \<Rightarrow> (rpc_error + hash256) \<times> app" where
  "rpc_submit_tx E tx app =
     (if \<not> is_signature_valid E tx then (Inl InvalidSignature, app)
      else (Inr (tx_hash E tx),
            with_net (broadcast (NewTransaction tx)) (with_state (mempool_insert E tx) app)))"

section \<open>Runs of a node\<close>

text \<open>
  A node starts on an empty database, may be restarted on what it stored, and in between takes events,
  serves requests and lets its connections work, in any order. The event loop is over-approximated by
  events that come from anywhere. A handler runs as one step here; theory \<open>Node_Tasks\<close> interleaves the handlers
  between any two of their accesses to what they share.
\<close>

inductive node_step :: "'a env_scheme \<Rightarrow> app \<Rightarrow> app \<Rightarrow> bool" for E :: "'a env_scheme" where
  event: "on_event E ev app = Some app' \<Longrightarrow> node_step E app app'"
| tick: "node_step E app (rebroadcast app)"
| work_asked: "rpc_get_work E now text app = Some (r, app') \<Longrightarrow> node_step E app app'"
| block_posted: "rpc_submit_block E b app = Some (r, app') \<Longrightarrow> node_step E app app'"
| tx_posted: "rpc_submit_tx E tx app = (r, app') \<Longrightarrow> node_step E app app'"
| network_moved: "net_step (anet app) n \<Longrightarrow> node_step E app (app\<lparr>anet := n\<rparr>)"

inductive node_run :: "'a env_scheme \<Rightarrow> genesis_config \<Rightarrow> app \<Rightarrow> bool"
  for E :: "'a env_scheme" and gen :: genesis_config where
  started: "node_start E gen empty_state = Some (Inr app) \<Longrightarrow> node_run E gen app"
| restarted: "node_run E gen app \<Longrightarrow> node_start E gen (cstate (achain app)) = Some (Inr app') \<Longrightarrow> node_run E gen app'"
| stepped: "node_run E gen app \<Longrightarrow> node_step E app app' \<Longrightarrow> node_run E gen app'"

lemma node_run_steps: "(node_step E)\<^sup>*\<^sup>* app app' \<Longrightarrow> node_run E gen app \<Longrightarrow> node_run E gen app'"
  by (induction rule: rtranclp_induct) (auto intro: node_run.stepped)

end
