(* ===== verification/Miner.thy ===== *)
theory Miner
  imports Ledger_Types
begin

text \<open>
  Model of \<open>crates/ondris-miner/src/main.rs\<close>: the nonce search of \<open>mine_block\<close> with its worker threads
  and the flag they share, and the dataset the main loop keeps between rounds. A schedule is the list of
  the threads in the order in which they take a step; every theorem holds for all of them.
\<close>

section \<open>The search\<close>

text \<open>
  A worker at the head of its loop, about to hash a nonce, about to store a nonce it has found, about to
  raise the flag, and at its end.
\<close>

datatype worker = Checking u64 | Hashing u64 | Storing u64 | Raising | Stopped

record search =
  workers :: "worker list"
  found :: bool
  found_nonce :: "u64 option"
  counter :: u64

definition start_search :: "nat \<Rightarrow> search" where
  "start_search threads =
     \<lparr>workers = map (\<lambda>t. Checking (of_nat t)) [0..<max threads 1], found = False, found_nonce = None, counter = 0\<rparr>"

definition set_worker :: "nat \<Rightarrow> worker \<Rightarrow> search \<Rightarrow> search" where
  "set_worker i w s = s\<lparr>workers := (workers s)[i := w]\<rparr>"

text \<open>One step of thread \<open>i\<close>; \<open>None\<close> is a panic of the hash function.\<close>

definition worker_step :: "'a prims_scheme \<Rightarrow> bytes \<Rightarrow> bytes \<Rightarrow> dataset \<Rightarrow> nat \<Rightarrow> search \<Rightarrow> search option" where
  "worker_step P header_bytes target ds i s =
     (case workers s ! i of
        Checking n \<Rightarrow> Some (set_worker i (if found s then Stopped else Hashing n) s)
      | Hashing n \<Rightarrow>
          (case ondris_hash P header_bytes n ds of
             None \<Rightarrow> None
           | Some x \<Rightarrow>
               Some (set_worker i (if meets_target x target then Storing n else Checking (n + of_nat (length (workers s))))
                 (s\<lparr>counter := counter s + 1\<rparr>)))
      | Storing n \<Rightarrow> Some (set_worker i Raising (s\<lparr>found_nonce := Some n\<rparr>))
      | Raising \<Rightarrow> Some (set_worker i Stopped (s\<lparr>found := True\<rparr>))
      | Stopped \<Rightarrow> Some s)"

fun run_workers :: "'a prims_scheme \<Rightarrow> bytes \<Rightarrow> bytes \<Rightarrow> dataset \<Rightarrow> nat list \<Rightarrow> search \<Rightarrow> search option" where
  "run_workers P hb target ds [] s = Some s"
| "run_workers P hb target ds (i # is) s =
     (if i < length (workers s)
      then case worker_step P hb target ds i s of None \<Rightarrow> None | Some s' \<Rightarrow> run_workers P hb target ds is s'
      else run_workers P hb target ds is s)"

definition with_nonce :: "block \<Rightarrow> u64 \<Rightarrow> block" where
  "with_nonce b n = b\<lparr>header := (header b)\<lparr>nonce := n\<rparr>\<rparr>"

datatype mining = Searching | Panicked | Mined block

text \<open>
  The call after the steps of a schedule: the scope is left when every worker has stopped and the main
  thread has seen the flag; then the \<open>expect\<close> on the stored nonce panics or the block is returned.
\<close>

definition mine_block :: "'a prims_scheme \<Rightarrow> nat list \<Rightarrow> block \<Rightarrow> bytes \<Rightarrow> dataset \<Rightarrow> nat \<Rightarrow> mining" where
  "mine_block P schedule b target ds threads =
     (case run_workers P (bytes_for_pow (header b)) target ds schedule (start_search threads) of
        None \<Rightarrow> Panicked
      | Some s \<Rightarrow>
          if list_all (\<lambda>w. w = Stopped) (workers s) \<and> found s
          then (case found_nonce s of None \<Rightarrow> Panicked | Some n \<Rightarrow> Mined (with_nonce b n))
          else Searching)"

text \<open>The dataset of a round of the main loop, and what is kept for the next.\<close>

definition choose_dataset ::
    "'a prims_scheme \<Rightarrow> (u64 \<times> dataset) option \<Rightarrow> u64 \<Rightarrow> hash256 option \<Rightarrow> (dataset \<times> (u64 \<times> dataset) option) option" where
  "choose_dataset P cached epoch boundary =
     (let fresh = (case generate P epoch (epoch_seed P boundary) of
                     None \<Rightarrow> None
                   | Some ds \<Rightarrow> Some (ds, Some (epoch, ds)))
      in case cached of
           Some (e, ds) \<Rightarrow> if e = epoch then Some (ds, cached) else fresh
         | None \<Rightarrow> fresh)"

lemma with_nonce_simps [simp]:
  "transactions (with_nonce b n) = transactions b" "height (header (with_nonce b n)) = height (header b)"
  "prev_hash (header (with_nonce b n)) = prev_hash (header b)" "difficulty (header (with_nonce b n)) = difficulty (header b)"
  "tx_root (header (with_nonce b n)) = tx_root (header b)"
  "compute_tx_root P (with_nonce b n) = compute_tx_root P b"
  "bytes_for_pow (header (with_nonce b n)) = bytes_for_pow (header b)" "nonce (header (with_nonce b n)) = n"
  by (simp_all add: with_nonce_def compute_tx_root_def bytes_for_pow_def)

section \<open>What every schedule keeps\<close>

definition good_nonce :: "'a prims_scheme \<Rightarrow> bytes \<Rightarrow> bytes \<Rightarrow> dataset \<Rightarrow> u64 \<Rightarrow> bool" where
  "good_nonce P hb target ds n \<longleftrightarrow> (\<exists>x. ondris_hash P hb n ds = Some x \<and> meets_target x target)"

definition worker_ok :: "'a prims_scheme \<Rightarrow> bytes \<Rightarrow> bytes \<Rightarrow> dataset \<Rightarrow> search \<Rightarrow> worker \<Rightarrow> bool" where
  "worker_ok P hb target ds s w \<longleftrightarrow>
     (case w of Storing n \<Rightarrow> good_nonce P hb target ds n | Raising \<Rightarrow> found_nonce s \<noteq> None | Stopped \<Rightarrow> found s | _ \<Rightarrow> True)"

definition search_ok :: "'a prims_scheme \<Rightarrow> bytes \<Rightarrow> bytes \<Rightarrow> dataset \<Rightarrow> search \<Rightarrow> bool" where
  "search_ok P hb target ds s \<longleftrightarrow> (found s \<longrightarrow> found_nonce s \<noteq> None) \<and>
     (\<forall>n. found_nonce s = Some n \<longrightarrow> good_nonce P hb target ds n) \<and> (\<forall>w \<in> set (workers s). worker_ok P hb target ds s w)"

lemma set_worker_simps [simp]:
  "workers (set_worker i w s) = (workers s)[i := w]" "found (set_worker i w s) = found s"
  "found_nonce (set_worker i w s) = found_nonce s"
  by (simp_all add: set_worker_def)

lemma worker_ok_mono:
  "worker_ok P hb target ds s w \<Longrightarrow> (found s \<longrightarrow> found s') \<Longrightarrow> (found_nonce s \<noteq> None \<longrightarrow> found_nonce s' \<noteq> None) \<Longrightarrow>
     worker_ok P hb target ds s' w"
  by (auto simp: worker_ok_def split: worker.splits)

lemma search_ok_step:
  assumes ok: "search_ok P hb target ds s" and i: "i < length (workers s)"
    and new: "workers s' = (workers s)[i := w]" "worker_ok P hb target ds s' w"
    and flags: "found s \<longrightarrow> found s'" "found s' \<longrightarrow> found_nonce s' \<noteq> None" "found_nonce s \<noteq> None \<longrightarrow> found_nonce s' \<noteq> None"
      "\<And>n. found_nonce s' = Some n \<Longrightarrow> good_nonce P hb target ds n"
  shows "search_ok P hb target ds s'"
proof -
  have "worker_ok P hb target ds s' v" if "v \<in> set (workers s')" for v
  proof (cases "v = w")
    case False
    with that have "v \<in> set (workers s)" using set_update_subset_insert [of "workers s" i w] by (auto simp: new(1))
    then have "worker_ok P hb target ds s v" using ok by (simp add: search_ok_def)
    then show ?thesis by (rule worker_ok_mono [OF _ flags(1,3)])
  qed (simp add: new(2))
  with flags show ?thesis by (simp add: search_ok_def)
qed

lemma worker_step_ok:
  assumes "hash_sizes P" "wf_dataset ds" "search_ok P hb target ds s" "i < length (workers s)"
  shows "\<exists>s'. worker_step P hb target ds i s = Some s' \<and> search_ok P hb target ds s' \<and> length (workers s') = length (workers s)"
proof -
  note ok = assms(3)
  have w: "worker_ok P hb target ds s (workers s ! i)" using ok assms(4) by (simp add: search_ok_def)
  have good: "found_nonce s = Some n \<Longrightarrow> good_nonce P hb target ds n" for n using ok by (simp add: search_ok_def)
  have fn: "found s \<longrightarrow> found_nonce s \<noteq> None" using ok by (simp add: search_ok_def)
  show ?thesis
  proof (cases "workers s ! i")
    case (Checking n)
    have "search_ok P hb target ds (set_worker i (if found s then Stopped else Hashing n) s)"
      by (rule search_ok_step [OF ok assms(4)]) (use fn good in \<open>auto simp: worker_ok_def\<close>)
    with Checking show ?thesis by (simp add: worker_step_def)
  next
    case (Hashing n)
    obtain x where x: "ondris_hash P hb n ds = Some x"
      using ondris_hash_total [OF assms(1,2)] unfolding ondris_hash_def by blast
    have "search_ok P hb target ds
        (set_worker i (if meets_target x target then Storing n else Checking (n + of_nat (length (workers s))))
          (s\<lparr>counter := counter s + 1\<rparr>))"
      by (rule search_ok_step [OF ok assms(4)]) (use fn good x in \<open>auto simp: worker_ok_def good_nonce_def\<close>)
    with Hashing x show ?thesis by (simp add: worker_step_def)
  next
    case (Storing n)
    have "search_ok P hb target ds (set_worker i Raising (s\<lparr>found_nonce := Some n\<rparr>))"
      by (rule search_ok_step [OF ok assms(4)]) (use w Storing in \<open>auto simp: worker_ok_def\<close>)
    with Storing show ?thesis by (simp add: worker_step_def)
  next
    case Raising
    have "search_ok P hb target ds (set_worker i Stopped (s\<lparr>found := True\<rparr>))"
      by (rule search_ok_step [OF ok assms(4)]) (use w Raising good in \<open>auto simp: worker_ok_def\<close>)
    with Raising show ?thesis by (simp add: worker_step_def)
  qed (use ok in \<open>simp add: worker_step_def\<close>)
qed

lemma start_search_ok: "search_ok P hb target ds (start_search threads)"
  by (auto simp: search_ok_def start_search_def worker_ok_def)

lemma start_search_length [simp]: "length (workers (start_search threads)) = max threads 1"
  by (simp add: start_search_def)

lemma run_workers_ok:
  assumes "hash_sizes P" "wf_dataset ds" "search_ok P hb target ds s"
  shows "\<exists>s'. run_workers P hb target ds is s = Some s' \<and> search_ok P hb target ds s' \<and> length (workers s') = length (workers s)"
  using assms(3)
proof (induction "is" arbitrary: s)
  case (Cons i "is")
  show ?case
  proof (cases "i < length (workers s)")
    case True
    then obtain s1 where "worker_step P hb target ds i s = Some s1" "search_ok P hb target ds s1"
      "length (workers s1) = length (workers s)" using worker_step_ok [OF assms(1,2) Cons.prems] by blast
    with Cons.IH [of s1] True show ?thesis by auto
  qed (use Cons in simp)
qed simp

section \<open>When the search ends\<close>

text \<open>
  The number of steps that thread \<open>t\<close> of \<open>k\<close> needs at most until the flag is up, when its \<open>j\<close>-th nonce
  meets the target.
\<close>

definition due :: "nat \<Rightarrow> nat \<Rightarrow> nat \<Rightarrow> nat \<Rightarrow> search \<Rightarrow> bool" where
  "due t k j d s \<longleftrightarrow> found s \<or>
     (case workers s ! t of
        Checking n \<Rightarrow> (\<exists>i \<le> j. n = of_nat (t + i * k) \<and> 2 * (j - i) + 4 \<le> d)
      | Hashing n \<Rightarrow> (\<exists>i \<le> j. n = of_nat (t + i * k) \<and> 2 * (j - i) + 3 \<le> d)
      | Storing n \<Rightarrow> 2 \<le> d
      | Raising \<Rightarrow> 1 \<le> d
      | Stopped \<Rightarrow> False)"

lemma step_other:
  assumes "worker_step P hb target ds i s = Some s'"
  shows "(\<forall>t. t \<noteq> i \<longrightarrow> workers s' ! t = workers s ! t) \<and> (found s \<longrightarrow> found s')"
  using assms by (cases "workers s ! i") (auto simp: worker_step_def split: option.splits)

lemma due_other:
  assumes "worker_step P hb target ds i s = Some s'" "i \<noteq> t" "due t k j d s"
  shows "due t k j d s'"
  using step_other [OF assms(1)] assms(2,3) by (auto simp: due_def)

lemma due_self:
  assumes "worker_step P hb target ds t s = Some s'" "t < k" "length (workers s) = k" "due t k j d s"
    and "good_nonce P hb target ds (of_nat (t + j * k))"
  shows "due t k j (d - 1) s'"
proof (cases "workers s ! t")
  case (Checking n)
  show ?thesis
  proof (cases "found s")
    case False
    then obtain i where "i \<le> j" "n = of_nat (t + i * k)" "2 * (j - i) + 3 \<le> d - 1"
      using assms(4) Checking by (auto simp: due_def)
    moreover have "s' = set_worker t (Hashing n) s" using assms(1) Checking False by (simp add: worker_step_def)
    ultimately show ?thesis using assms(2,3) by (auto simp: due_def)
  qed (use assms(1) Checking in \<open>auto simp: worker_step_def due_def\<close>)
next
  case (Hashing n)
  show ?thesis
  proof (cases "found s")
    case False
    then obtain i where i: "i \<le> j" "n = of_nat (t + i * k)" "2 * (j - i) + 3 \<le> d"
      using assms(4) Hashing by (auto simp: due_def)
    obtain x where x: "ondris_hash P hb n ds = Some x"
      "s' = set_worker t (if meets_target x target then Storing n else Checking (n + of_nat k)) (s\<lparr>counter := counter s + 1\<rparr>)"
      using assms(1,3) Hashing by (auto simp: worker_step_def split: option.splits)
    show ?thesis
    proof (cases "meets_target x target")
      case True
      moreover have "2 \<le> d - 1" using i(3) by linarith
      ultimately show ?thesis using x assms(2,3) by (simp add: due_def)
    next
      case miss: False
      then have "i \<noteq> j" using assms(5) i(2) x(1) by (auto simp: good_nonce_def)
      with i have "Suc i \<le> j" "n + of_nat k = of_nat (t + Suc i * k)" "2 * (j - Suc i) + 4 \<le> d - 1"
        by (auto simp: algebra_simps)
      moreover have "workers s' ! t = Checking (n + of_nat k)" using x miss assms(2,3) by simp
      ultimately show ?thesis unfolding due_def by (simp only: worker.case) blast
    qed
  qed (use assms(1) Hashing in \<open>auto simp: worker_step_def due_def split: option.splits\<close>)
qed (use assms(1-4) in \<open>auto simp: worker_step_def due_def\<close>)

lemma run_workers_due:
  assumes "run_workers P hb target ds is s = Some s'" "hash_sizes P" "wf_dataset ds" "search_ok P hb target ds s"
    and "t < k" "length (workers s) = k" "due t k j d s" "good_nonce P hb target ds (of_nat (t + j * k))"
  shows "due t k j (d - count_list is t) s'"
  using assms(1,4,6,7)
proof (induction "is" arbitrary: s d)
  case (Cons i "is")
  show ?case
  proof (cases "i < length (workers s)")
    case True
    then obtain s1 where s1: "worker_step P hb target ds i s = Some s1" "search_ok P hb target ds s1" "length (workers s1) = k"
      using worker_step_ok [OF assms(2,3) Cons.prems(2)] Cons.prems(3) by blast
    then have rest: "run_workers P hb target ds is s1 = Some s'" using Cons.prems(1) True by simp
    show ?thesis
    proof (cases "i = t")
      case same: True
      with due_self [OF _ assms(5) Cons.prems(3,4) assms(8)] s1(1) have "due t k j (d - 1) s1" by blast
      from Cons.IH [OF rest s1(2,3) this] same show ?thesis by simp
    next
      case False
      with due_other [OF s1(1) _ Cons.prems(4)] Cons.IH [OF rest s1(2,3)] show ?thesis by simp
    qed
  next
    case False
    with Cons assms(5) show ?thesis by auto
  qed
qed simp

text \<open>Once the flag is up, every thread stops within three more steps.\<close>

definition rank :: "worker \<Rightarrow> nat" where
  "rank w = (case w of Checking n \<Rightarrow> 1 | Hashing n \<Rightarrow> 3 | Storing n \<Rightarrow> 2 | Raising \<Rightarrow> 1 | Stopped \<Rightarrow> 0)"

lemma rank_le: "rank w \<le> 3"
  by (simp add: rank_def split: worker.split)

lemma rank_zero: "rank w = 0 \<longleftrightarrow> w = Stopped"
  by (simp add: rank_def split: worker.split)

lemma rank_step:
  assumes "worker_step P hb target ds i s = Some s'" "found s" "i < length (workers s)"
  shows "found s' \<and> rank (workers s' ! i) \<le> rank (workers s ! i) - 1 \<and> (\<forall>t. t \<noteq> i \<longrightarrow> workers s' ! t = workers s ! t)"
  using assms step_other [OF assms(1)]
  by (cases "workers s ! i") (auto simp: worker_step_def rank_def split: option.splits)

lemma run_workers_stop:
  assumes "run_workers P hb target ds is s = Some s'" "hash_sizes P" "wf_dataset ds" "search_ok P hb target ds s"
    and "found s" "t < length (workers s)"
  shows "found s' \<and> rank (workers s' ! t) \<le> rank (workers s ! t) - count_list is t"
  using assms(1,4,5,6)
proof (induction "is" arbitrary: s)
  case (Cons i "is")
  show ?case
  proof (cases "i < length (workers s)")
    case True
    then obtain s1 where s1: "worker_step P hb target ds i s = Some s1" "search_ok P hb target ds s1"
      "length (workers s1) = length (workers s)"
      using worker_step_ok [OF assms(2,3) Cons.prems(2)] by blast
    then have rest: "run_workers P hb target ds is s1 = Some s'" using Cons.prems(1) True by simp
    note r = rank_step [OF s1(1) Cons.prems(3) True]
    have "found s' \<and> rank (workers s' ! t) \<le> rank (workers s1 ! t) - count_list is t"
      using Cons.IH [OF rest s1(2)] r s1(3) Cons.prems(4) by simp
    then show ?thesis using r by (cases "i = t") auto
  next
    case False
    with Cons show ?thesis by auto
  qed
qed simp

lemma run_workers_append:
  assumes "run_workers P hb target ds is s = Some s1"
  shows "run_workers P hb target ds (is @ js) s = run_workers P hb target ds js s1"
  using assms by (induction "is" arbitrary: s) (auto split: option.splits if_splits)

lemma mine_block_mined:
  assumes "mine_block P schedule b target ds threads = Mined m" "hash_sizes P" "wf_dataset ds"
  shows "\<exists>n x. m = with_nonce b n \<and> header_id P (header m) ds = Some x \<and> meets_target x target"
proof -
  obtain s where "run_workers P (bytes_for_pow (header b)) target ds schedule (start_search threads) = Some s"
    "search_ok P (bytes_for_pow (header b)) target ds s"
    using run_workers_ok [OF assms(2,3) start_search_ok] by blast
  with assms(1) obtain n where "m = with_nonce b n" "good_nonce P (bytes_for_pow (header b)) target ds n"
    by (auto simp: mine_block_def search_ok_def split: if_splits option.splits)
  then show ?thesis by (auto simp: good_nonce_def header_id_def)
qed

lemma mine_block_no_panic:
  assumes "hash_sizes P" "wf_dataset ds"
  shows "mine_block P schedule b target ds threads \<noteq> Panicked"
proof -
  obtain s where "run_workers P (bytes_for_pow (header b)) target ds schedule (start_search threads) = Some s"
    "search_ok P (bytes_for_pow (header b)) target ds s"
    using run_workers_ok [OF assms start_search_ok] by blast
  then show ?thesis by (auto simp: mine_block_def search_ok_def split: option.splits)
qed

lemma mine_block_ends:
  assumes "hash_sizes P" "wf_dataset ds" "t < max threads 1"
    and "header_id P (header (with_nonce b (of_nat (t + j * max threads 1)))) ds = Some x" "meets_target x target"
    and "2 * j + 4 \<le> count_list sched1 t" "\<And>i. i < max threads 1 \<Longrightarrow> 3 \<le> count_list sched2 i"
  shows "\<exists>m. mine_block P (sched1 @ sched2) b target ds threads = Mined m"
proof -
  let ?hb = "bytes_for_pow (header b)" and ?k = "max threads 1" and ?s = "start_search threads"
  have good: "good_nonce P ?hb target ds (of_nat (t + j * ?k))"
    using assms(4,5) by (simp add: good_nonce_def header_id_def)
  obtain s1 where s1: "run_workers P ?hb target ds sched1 ?s = Some s1" "search_ok P ?hb target ds s1" "length (workers s1) = ?k"
    using run_workers_ok [OF assms(1,2) start_search_ok, of "?hb" target sched1 threads] by auto
  obtain s2 where s2: "run_workers P ?hb target ds sched2 s1 = Some s2" "search_ok P ?hb target ds s2" "length (workers s2) = ?k"
    using run_workers_ok [OF assms(1,2) s1(2), of sched2] s1(3) by auto
  have "due t ?k j (2 * j + 4) ?s" using assms(3) by (auto simp: due_def start_search_def intro: exI [of _ 0])
  from run_workers_due [OF s1(1) assms(1,2) start_search_ok assms(3) _ this good] assms(6)
  have f: "found s1" by (auto simp: due_def split: worker.splits)
  have fin: "found s2 \<and> workers s2 ! i = Stopped" if "i < ?k" for i
  proof -
    have "found s2" "rank (workers s2 ! i) \<le> rank (workers s1 ! i) - count_list sched2 i"
      using run_workers_stop [OF s2(1) assms(1,2) s1(2) f] that by (simp_all add: s1(3))
    moreover have "rank (workers s1 ! i) - count_list sched2 i = 0"
      using rank_le [of "workers s1 ! i"] assms(7) [OF that] by simp
    ultimately show ?thesis by (simp add: rank_zero)
  qed
  then have "found s2" using assms(3) by blast
  moreover have "workers s2 ! i = Stopped" if "i < ?k" for i using fin [OF that] by blast
  then have "list_all (\<lambda>w. w = Stopped) (workers s2)" by (simp add: list_all_length s2(3))
  ultimately show ?thesis
    using s2(2) run_workers_append [OF s1(1), of sched2] s2(1) by (auto simp: mine_block_def search_ok_def)
qed

section \<open>The contract of a search\<close>

text \<open>
  What the rest of a miner needs of its search, by threads or on a GPU: a block that it may return for a
  template is the template with another nonce, and its hash meets the target.
\<close>

locale nonce_search =
  fixes P :: "'a env_scheme" and search :: "block \<Rightarrow> bytes \<Rightarrow> dataset \<Rightarrow> block \<Rightarrow> bool"
  assumes found_nonce: "search b target ds m \<Longrightarrow> hash_sizes P \<Longrightarrow> wf_dataset ds \<Longrightarrow>
    \<exists>n x. m = with_nonce b n \<and> header_id P (header m) ds = Some x \<and> meets_target x target"

interpretation cpu: nonce_search P "\<lambda>b target ds m. \<exists>schedule threads. mine_block P schedule b target ds threads = Mined m"
  for P :: "'a env_scheme"
  by unfold_locales (use mine_block_mined in blast)

end
