(* ===== verification/Ledger_Spec.thy ===== *)
theory Ledger_Spec
  imports Chain
begin

text \<open>
  The abstract specification of the money: a ledger of natural numbers, on which a transaction
  either moves exactly its amount and burns exactly its fee or is refused, and a block adds its
  reward. The 64-bit code of \<open>chain.rs\<close> implements it as long as the supply stays below
  \<open>2^64 - 1\<close>, and a bound on the emission shows that it does.
\<close>

type_synonym ledger = "address \<Rightarrow> nat \<times> nat"  \<comment> \<open>balance and next nonce\<close>

definition credit_ledger :: "address \<Rightarrow> nat \<Rightarrow> ledger \<Rightarrow> ledger" where
  "credit_ledger a v L = L(a := (fst (L a) + v, snd (L a)))"

definition spec_tx :: "'a prims_scheme \<Rightarrow> transaction \<Rightarrow> ledger \<Rightarrow> ledger option" where
  "spec_tx P tx L =
     (let sender = to_address P (tx_from tx); cost = unat (amount tx) + unat (fee tx)
      in if snd (L sender) = unat (account_nonce tx) \<and> cost \<le> fst (L sender)
         then Some (credit_ledger (tx_to tx) (unat (amount tx))
                (L(sender := (fst (L sender) - cost, snd (L sender) + 1))))
         else None)"

fun spec_txs :: "'a prims_scheme \<Rightarrow> transaction list \<Rightarrow> ledger \<Rightarrow> ledger option" where
  "spec_txs P [] L = Some L"
| "spec_txs P (tx # txs) L = (case spec_tx P tx L of None \<Rightarrow> None | Some L' \<Rightarrow> spec_txs P txs L')"

definition spec_block :: "'a prims_scheme \<Rightarrow> genesis_config \<Rightarrow> block \<Rightarrow> ledger \<Rightarrow> ledger option" where
  "spec_block P gen b L =
     map_option (credit_ledger (miner (header b)) (unat (block_reward gen (height (header b)))))
       (spec_txs P (transactions b) L)"

fun spec_blocks :: "'a prims_scheme \<Rightarrow> genesis_config \<Rightarrow> block list \<Rightarrow> ledger \<Rightarrow> ledger option" where
  "spec_blocks P gen [] L = Some L"
| "spec_blocks P gen (b # bs) L =
     (case spec_block P gen b L of None \<Rightarrow> None | Some L' \<Rightarrow> spec_blocks P gen bs L')"

definition read_ledger :: "(address \<Rightarrow> account) \<Rightarrow> ledger" where
  "read_ledger get a = (unat (balance (get a)), unat (acct_nonce (get a)))"

lemma fst_read_ledger [simp]: "fst (read_ledger f a) = unat (balance (f a))"
  by (simp add: read_ledger_def)

lemma snd_read_ledger [simp]: "snd (read_ledger f a) = unat (acct_nonce (f a))"
  by (simp add: read_ledger_def)

lemma read_ledger_upd: "read_ledger (f(a := acc)) = (read_ledger f)(a := (unat (balance acc), unat (acct_nonce acc)))"
  by (auto simp: read_ledger_def fun_eq_iff)

lemma spec_blocks_append:
  "spec_blocks P gen (xs @ ys) L =
     (case spec_blocks P gen xs L of None \<Rightarrow> None | Some L' \<Rightarrow> spec_blocks P gen ys L')"
  by (induction xs arbitrary: L) (auto split: option.splits)

section \<open>Supply\<close>

definition holders :: "ledger \<Rightarrow> address set" where
  "holders L = {a. fst (L a) \<noteq> 0}"

definition total_supply :: "ledger \<Rightarrow> nat" where
  "total_supply L = (\<Sum>a \<in> holders L. fst (L a))"

lemma holders_upd: "holders (L(a := p)) \<subseteq> insert a (holders L)"
  by (auto simp: holders_def)

lemma finite_holders_upd: "finite (holders L) \<Longrightarrow> finite (holders (L(a := p)))"
  by (rule finite_subset [OF holders_upd]) simp

lemma supply_on: "finite S \<Longrightarrow> holders L \<subseteq> S \<Longrightarrow> total_supply L = (\<Sum>a \<in> S. fst (L a))"
  unfolding total_supply_def by (rule sum.mono_neutral_left) (auto simp: holders_def)

lemma supply_upd: "finite (holders L) \<Longrightarrow> total_supply (L(a := p)) + fst (L a) = total_supply L + fst p"
proof -
  assume fin: "finite (holders L)"
  let ?S = "insert a (holders L)"
  have "total_supply (L(a := p)) = (\<Sum>x \<in> ?S. fst ((L(a := p)) x))"
    by (rule supply_on) (use fin holders_upd in auto)
  also have "\<dots> = fst p + (\<Sum>x \<in> ?S - {a}. fst (L x))"
    using fin by (subst sum.remove [of ?S a]) (auto intro!: sum.cong)
  finally have 1: "total_supply (L(a := p)) = fst p + (\<Sum>x \<in> ?S - {a}. fst (L x))" .
  have "total_supply L = (\<Sum>x \<in> ?S. fst (L x))" by (rule supply_on) (use fin in auto)
  also have "\<dots> = fst (L a) + (\<Sum>x \<in> ?S - {a}. fst (L x))"
    using fin by (subst sum.remove [of ?S a]) auto
  finally show ?thesis using 1 by simp
qed

lemma balance_le_supply: "finite (holders L) \<Longrightarrow> fst (L a) \<le> total_supply L"
proof (cases "a \<in> holders L")
  case True
  assume "finite (holders L)"
  with True show ?thesis unfolding total_supply_def by (intro member_le_sum) auto
qed (simp add: holders_def)

lemma credit_ledger_supply:
  "finite (holders L) \<Longrightarrow> total_supply (credit_ledger a v L) = total_supply L + v \<and> finite (holders (credit_ledger a v L))"
  using supply_upd [of L a "(fst (L a) + v, snd (L a))"]
  by (simp add: credit_ledger_def finite_holders_upd)

lemma spec_tx_supply:
  assumes "spec_tx P tx L = Some L'" "finite (holders L)"
  shows "total_supply L' + unat (fee tx) = total_supply L \<and> finite (holders L')"
proof -
  let ?sd = "to_address P (tx_from tx)" and ?c = "unat (amount tx) + unat (fee tx)"
  let ?L1 = "L(?sd := (fst (L ?sd) - ?c, snd (L ?sd) + 1))"
  from assms(1) have c: "?c \<le> fst (L ?sd)" and L': "L' = credit_ledger (tx_to tx) (unat (amount tx)) ?L1"
    by (auto simp: spec_tx_def Let_def split: if_splits)
  have "total_supply ?L1 + fst (L ?sd) = total_supply L + (fst (L ?sd) - ?c)"
    using supply_upd [OF assms(2), of ?sd "(fst (L ?sd) - ?c, snd (L ?sd) + 1)"] by simp
  moreover have "finite (holders ?L1)" by (rule finite_holders_upd [OF assms(2)])
  ultimately show ?thesis
    using c credit_ledger_supply [of ?L1 "tx_to tx" "unat (amount tx)"] L' by simp
qed

definition fees :: "block \<Rightarrow> nat" where
  "fees b = sum_list (map (unat \<circ> fee) (transactions b))"

lemma spec_txs_supply:
  "spec_txs P txs L = Some L' \<Longrightarrow> finite (holders L) \<Longrightarrow>
     total_supply L' + sum_list (map (unat \<circ> fee) txs) = total_supply L \<and> finite (holders L')"
proof (induction txs arbitrary: L)
  case (Cons tx txs)
  from Cons.prems(1) obtain L1 where L1: "spec_tx P tx L = Some L1" "spec_txs P txs L1 = Some L'"
    by (auto split: option.splits)
  with spec_tx_supply [OF L1(1) Cons.prems(2)] Cons.IH [OF L1(2)] show ?case by simp
qed simp

lemma spec_block_supply:
  assumes "spec_block P gen b L = Some L'" "finite (holders L)"
  shows "total_supply L' + fees b = total_supply L + unat (block_reward gen (height (header b))) \<and> finite (holders L')"
proof -
  from assms(1) obtain L1 where L1: "spec_txs P (transactions b) L = Some L1"
    and L': "L' = credit_ledger (miner (header b)) (unat (block_reward gen (height (header b)))) L1"
    by (auto simp: spec_block_def)
  show ?thesis
    using spec_txs_supply [OF L1 assms(2)] credit_ledger_supply [of L1] L' by (simp add: fees_def)
qed

section \<open>The 64-bit code implements the specification\<close>

text \<open>Room for \<open>n\<close> more transactions before a nonce counter could wrap around.\<close>

definition nonces_within :: "nat \<Rightarrow> ledger \<Rightarrow> bool" where
  "nonces_within n L \<longleftrightarrow> (\<forall>a. snd (L a) + n < 2 ^ 64)"

lemma nonces_within_mono: "nonces_within n L \<Longrightarrow> m \<le> n \<Longrightarrow> nonces_within m L"
  unfolding nonces_within_def by (meson add_left_mono le_less_trans)

lemma nonces_within_credit [simp]: "nonces_within n (credit_ledger a v L) \<longleftrightarrow> nonces_within n L"
  by (auto simp: nonces_within_def credit_ledger_def)

lemma spec_tx_nonces:
  "spec_tx P tx L = Some L' \<Longrightarrow> nonces_within (Suc n) L \<Longrightarrow> nonces_within n L'"
proof -
  assume "spec_tx P tx L = Some L'" and room: "nonces_within (Suc n) L"
  then obtain v w where "L' = credit_ledger (tx_to tx) v
      (L(to_address P (tx_from tx) := (w, snd (L (to_address P (tx_from tx))) + 1)))"
    by (auto simp: spec_tx_def Let_def split: if_splits)
  moreover have "nonces_within n (L(to_address P (tx_from tx) := (w, snd (L (to_address P (tx_from tx))) + 1)))"
    using room by (auto simp: nonces_within_def intro: Suc_lessD)
  ultimately show ?thesis by simp
qed

lemma spec_txs_nonces:
  "spec_txs P txs L = Some L' \<Longrightarrow> nonces_within (length txs + n) L \<Longrightarrow> nonces_within n L'"
proof (induction txs arbitrary: L)
  case (Cons tx txs)
  then obtain L1 where L1: "spec_tx P tx L = Some L1" "spec_txs P txs L1 = Some L'"
    by (auto split: option.splits)
  with spec_tx_nonces [OF L1(1), of "length txs + n"] Cons show ?case by simp
qed simp

lemma spec_block_nonces:
  "spec_block P gen b L = Some L' \<Longrightarrow> nonces_within (length (transactions b) + n) L \<Longrightarrow> nonces_within n L'"
  by (auto simp: spec_block_def intro: spec_txs_nonces)

definition tx_count :: "block list \<Rightarrow> nat" where
  "tx_count bs = sum_list (map (length \<circ> transactions) bs)"

lemma tx_count_simps [simp]:
  "tx_count [] = 0" "tx_count (b # bs) = length (transactions b) + tx_count bs"
  "tx_count (xs @ ys) = tx_count xs + tx_count ys"
  by (simp_all add: tx_count_def)

lemma spec_blocks_nonces:
  "spec_blocks P gen bs L = Some L' \<Longrightarrow> nonces_within (tx_count bs + n) L \<Longrightarrow> nonces_within n L'"
proof (induction bs arbitrary: L)
  case (Cons b bs)
  then obtain L1 where L1: "spec_block P gen b L = Some L1" "spec_blocks P gen bs L1 = Some L'"
    by (auto split: option.splits)
  with spec_block_nonces [OF L1(1), of "tx_count bs + n"] Cons show ?case by (simp add: add.assoc)
qed simp

lemma unat_Suc64: "unat (n :: u64) + 1 < 2 ^ 64 \<Longrightarrow> unat (n + 1) = unat n + 1"
  using unat_add_bounded [of n 1] by simp

lemma apply_tx_refines:
  fixes s ov
  defines "L \<equiv> read_ledger (get_acc s ov)"
  assumes fin: "finite (holders L)" and cap: "total_supply L < 2 ^ 64 - 1" and room: "nonces_within 1 L"
  shows "case apply_tx P s h tx ov of
      Inl e \<Rightarrow> spec_tx P tx L = None
    | Inr ov' \<Rightarrow> spec_tx P tx L = Some (read_ledger (get_acc s ov'))"
proof -
  let ?sd = "to_address P (tx_from tx)"
  let ?acc = "get_acc s ov ?sd" and ?c = "unat (amount tx) + unat (fee tx)"
  have L: "fst (L ?sd) = unat (balance ?acc)" "snd (L ?sd) = unat (acct_nonce ?acc)"
    by (simp_all add: L_def read_ledger_def)
  have b: "fst (L ?sd) < 2 ^ 64 - 1"
    using balance_le_supply [OF fin, of ?sd] cap by linarith
  have g1: "account_nonce tx = acct_nonce ?acc \<longleftrightarrow> snd (L ?sd) = unat (account_nonce tx)"
    by (auto simp: L word_unat_eq_iff)
  have g2: "sat_add (amount tx) (fee tx) \<le> balance ?acc \<longleftrightarrow> ?c \<le> fst (L ?sd)"
    using b by (auto simp: L word_le_nat_alt unat_sat_add min_def)
  show ?thesis
  proof (cases "snd (L ?sd) = unat (account_nonce tx) \<and> ?c \<le> fst (L ?sd)")
    case False
    then show ?thesis using g1 g2 by (auto simp: apply_tx_def spec_tx_def Let_def)
  next
    case True
    let ?acc1 = "?acc\<lparr>balance := balance ?acc - (amount tx + fee tx), acct_nonce := acct_nonce ?acc + 1\<rparr>"
    let ?ov1 = "put_acc ?sd ?acc1 ov"
    let ?to = "get_acc s ?ov1 (tx_to tx)"
    let ?ov2 = "put_acc (tx_to tx) (?to\<lparr>balance := sat_add (balance ?to) (amount tx)\<rparr>) ?ov1"
    let ?L1 = "L(?sd := (fst (L ?sd) - ?c, snd (L ?sd) + 1))"
    have app: "apply_tx P s h tx ov = Inr ?ov2"
      using True g1 g2 by (simp add: apply_tx_def Let_def)
    have sum: "unat (amount tx + fee tx) = ?c"
      using True b by (intro unat_add_bounded) simp
    then have "unat (balance ?acc - (amount tx + fee tx)) = fst (L ?sd) - ?c"
      using True L by (simp add: unat_sub word_le_nat_alt)
    moreover have "unat (acct_nonce ?acc + 1) = snd (L ?sd) + 1"
      using room L unfolding nonces_within_def by (metis unat_Suc64)
    ultimately have L1: "read_ledger (get_acc s ?ov1) = ?L1"
      by (simp add: overlay_view.view_put read_ledger_upd L_def)
    have fin1: "finite (holders ?L1)" by (rule finite_holders_upd [OF fin])
    have "total_supply ?L1 + fst (L ?sd) = total_supply L + (fst (L ?sd) - ?c)"
      using supply_upd [OF fin, of ?sd "(fst (L ?sd) - ?c, snd (L ?sd) + 1)"] by simp
    then have "fst (?L1 (tx_to tx)) + unat (amount tx) \<le> total_supply L"
      using balance_le_supply [OF fin1, of "tx_to tx"] True by linarith
    moreover have to: "unat (balance ?to) = fst (?L1 (tx_to tx))" "unat (acct_nonce ?to) = snd (?L1 (tx_to tx))"
      by (simp_all only: L1 [symmetric] fst_read_ledger snd_read_ledger)
    ultimately have "unat (balance ?to) + unat (amount tx) < 2 ^ 64 - 1"
      using cap by linarith
    then have "unat (sat_add (balance ?to) (amount tx)) = unat (balance ?to) + unat (amount tx)"
      by (simp add: unat_sat_add min_def)
    then have "read_ledger (get_acc s ?ov2) = credit_ledger (tx_to tx) (unat (amount tx)) ?L1"
      by (simp only: overlay_view.view_put [of s "tx_to tx"] read_ledger_upd L1)
        (simp add: credit_ledger_def to)
    then show ?thesis using True app by (simp add: spec_tx_def Let_def)
  qed
qed


lemma apply_txs_refines:
  assumes "finite (holders (read_ledger (get_acc s ov)))"
    and "total_supply (read_ledger (get_acc s ov)) < 2 ^ 64 - 1"
    and "nonces_within (length txs) (read_ledger (get_acc s ov))"
  shows "case apply_txs P s h txs ov of
      Inl e \<Rightarrow> spec_txs P txs (read_ledger (get_acc s ov)) = None
    | Inr ov' \<Rightarrow> spec_txs P txs (read_ledger (get_acc s ov)) = Some (read_ledger (get_acc s ov'))"
  using assms
proof (induction txs arbitrary: ov)
  case (Cons tx txs)
  let ?L = "read_ledger (get_acc s ov)"
  have step: "case apply_tx P s h tx ov of Inl e \<Rightarrow> spec_tx P tx ?L = None
      | Inr ov' \<Rightarrow> spec_tx P tx ?L = Some (read_ledger (get_acc s ov'))"
    by (rule apply_tx_refines [OF Cons.prems(1,2)])
      (rule nonces_within_mono [OF Cons.prems(3)], simp)
  show ?case
  proof (cases "apply_tx P s h tx ov")
    case (Inl e)
    with step show ?thesis by simp
  next
    case (Inr ov1)
    with step have sp: "spec_tx P tx ?L = Some (read_ledger (get_acc s ov1))" by simp
    note spec_tx_supply [OF sp Cons.prems(1)]
    then have "finite (holders (read_ledger (get_acc s ov1)))"
      and "total_supply (read_ledger (get_acc s ov1)) < 2 ^ 64 - 1"
      using Cons.prems(2) by auto
    moreover have "nonces_within (length txs) (read_ledger (get_acc s ov1))"
      using spec_tx_nonces [OF sp] Cons.prems(3) by simp
    ultimately show ?thesis using Cons.IH [of ov1]
      by (simp add: Inr sp split: sum.splits)
  qed
qed simp

text \<open>What the blocks of a list mint.\<close>

definition minted :: "genesis_config \<Rightarrow> block list \<Rightarrow> nat" where
  "minted gen bs = sum_list (map (\<lambda>b. unat (block_reward gen (height (header b)))) bs)"

lemma minted_simps [simp]:
  "minted gen [] = 0"
  "minted gen (b # bs) = unat (block_reward gen (height (header b))) + minted gen bs"
  "minted gen (xs @ ys) = minted gen xs + minted gen ys"
  "minted gen (rev bs) = minted gen bs"
  by (simp_all add: minted_def rev_map [symmetric] sum_list_rev)

lemma apply_block_refines:
  assumes fin: "finite (holders (read_ledger (get_acc s ov)))"
    and cap: "total_supply (read_ledger (get_acc s ov)) + minted gen [b] < 2 ^ 64 - 1"
    and room: "nonces_within (length (transactions b)) (read_ledger (get_acc s ov))"
  shows "case apply_block P gen s b ov of
      Inl e \<Rightarrow> spec_block P gen b (read_ledger (get_acc s ov)) = None
    | Inr ov' \<Rightarrow> spec_block P gen b (read_ledger (get_acc s ov)) = Some (read_ledger (get_acc s ov'))"
proof -
  let ?h = "height (header b)" and ?m = "miner (header b)"
  let ?txs = "transactions b" and ?L = "read_ledger (get_acc s ov)"
  have step: "case apply_txs P s ?h ?txs ov of Inl e \<Rightarrow> spec_txs P ?txs ?L = None
      | Inr ov' \<Rightarrow> spec_txs P ?txs ?L = Some (read_ledger (get_acc s ov'))"
    using apply_txs_refines [OF fin _ room] cap by simp
  show ?thesis
  proof (cases "apply_txs P s ?h ?txs ov")
    case (Inl e)
    with step show ?thesis by (simp add: apply_block_def spec_block_def)
  next
    case (Inr ov1)
    let ?L1 = "read_ledger (get_acc s ov1)"
    from Inr step have sp: "spec_txs P ?txs ?L = Some ?L1" by simp
    have "fst (?L1 ?m) + unat (block_reward gen ?h) < 2 ^ 64 - 1"
      using spec_txs_supply [OF sp fin] balance_le_supply [of ?L1 ?m] cap by simp
    then have "unat (sat_add (balance (get_acc s ov1 ?m)) (block_reward gen ?h))
        = fst (?L1 ?m) + unat (block_reward gen ?h)"
      by (simp add: unat_sat_add min_def)
    then show ?thesis
      by (simp add: apply_block_def spec_block_def Inr sp Let_def overlay_view.view_put
          read_ledger_upd credit_ledger_def)
  qed
qed

lemma apply_blocks_refines:
  assumes "finite (holders (read_ledger (get_acc s ov)))"
    and "total_supply (read_ledger (get_acc s ov)) + minted gen bs < 2 ^ 64 - 1"
    and "nonces_within (tx_count bs) (read_ledger (get_acc s ov))"
  shows "case apply_blocks P gen s bs ov of
      Inl e \<Rightarrow> spec_blocks P gen bs (read_ledger (get_acc s ov)) = None
    | Inr ov' \<Rightarrow> spec_blocks P gen bs (read_ledger (get_acc s ov)) = Some (read_ledger (get_acc s ov'))"
  using assms
proof (induction bs arbitrary: ov)
  case (Cons b bs)
  let ?L = "read_ledger (get_acc s ov)"
  have step: "case apply_block P gen s b ov of Inl e \<Rightarrow> spec_block P gen b ?L = None
      | Inr ov' \<Rightarrow> spec_block P gen b ?L = Some (read_ledger (get_acc s ov'))"
    using Cons.prems by (intro apply_block_refines) (auto elim: nonces_within_mono)
  show ?case
  proof (cases "apply_block P gen s b ov")
    case (Inl e)
    with step show ?thesis by simp
  next
    case (Inr ov1)
    with step have sp: "spec_block P gen b ?L = Some (read_ledger (get_acc s ov1))" by simp
    note sup = spec_block_supply [OF sp Cons.prems(1)]
    from sup have "finite (holders (read_ledger (get_acc s ov1)))" by simp
    moreover from sup have "total_supply (read_ledger (get_acc s ov1)) + minted gen bs < 2 ^ 64 - 1"
      using Cons.prems(2) by simp
    moreover have "nonces_within (tx_count bs) (read_ledger (get_acc s ov1))"
      using spec_block_nonces [OF sp] Cons.prems(3) by simp
    ultimately show ?thesis using Cons.IH [of ov1] by (simp add: Inr sp split: sum.splits)
  qed
qed simp

lemma spec_blocks_supply:
  "spec_blocks P gen bs L = Some L' \<Longrightarrow> finite (holders L) \<Longrightarrow>
     total_supply L' + sum_list (map fees bs) = total_supply L + minted gen bs \<and> finite (holders L')"
proof (induction bs arbitrary: L)
  case (Cons b bs)
  from Cons.prems(1) obtain L1 where L1: "spec_block P gen b L = Some L1" "spec_blocks P gen bs L1 = Some L'"
    by (auto split: option.splits)
  with spec_block_supply [OF L1(1) Cons.prems(2)] Cons.IH [OF L1(2)] show ?case by simp
qed simp

section \<open>Undoing\<close>

lemma undo_tx_inverse:
  assumes sp: "spec_tx P tx L = Some (read_ledger (get_acc s ov))"
    and fin: "finite (holders L)" and cap: "total_supply L < 2 ^ 64 - 1"
  shows "read_ledger (get_acc s (undo_tx P s tx ov)) = L"
proof -
  let ?sd = "to_address P (tx_from tx)" and ?c = "unat (amount tx) + unat (fee tx)"
  let ?L1 = "L(?sd := (fst (L ?sd) - ?c, snd (L ?sd) + 1))"
  let ?to = "get_acc s ov (tx_to tx)"
  let ?ov1 = "put_acc (tx_to tx) (?to\<lparr>balance := sat_sub (balance ?to) (amount tx)\<rparr>) ov"
  let ?sa = "get_acc s ?ov1 ?sd"
  from sp have c: "?c \<le> fst (L ?sd)"
    and L': "read_ledger (get_acc s ov) = credit_ledger (tx_to tx) (unat (amount tx)) ?L1"
    by (auto simp: spec_tx_def Let_def split: if_splits)
  have "unat (balance ?to) = fst (?L1 (tx_to tx)) + unat (amount tx)"
    "unat (acct_nonce ?to) = snd (?L1 (tx_to tx))"
    by (simp_all only: fst_read_ledger [symmetric] snd_read_ledger [symmetric] L' credit_ledger_def
        fun_upd_same fst_conv snd_conv)
  then have L1: "read_ledger (get_acc s ?ov1) = ?L1"
    by (simp only: overlay_view.view_put read_ledger_upd L')
      (auto simp: credit_ledger_def unat_sat_sub fun_eq_iff)
  have sa: "unat (balance ?sa) = fst (L ?sd) - ?c" "unat (acct_nonce ?sa) = snd (L ?sd) + 1"
    by (simp_all only: fst_read_ledger [symmetric] snd_read_ledger [symmetric] L1 fun_upd_same fst_conv snd_conv)
  have b: "fst (L ?sd) < 2 ^ 64 - 1" using balance_le_supply [OF fin, of ?sd] cap by linarith
  have "unat (amount tx + fee tx) = ?c" using c b by (intro unat_add_bounded) simp
  then have "unat (sat_add (balance ?sa) (amount tx + fee tx)) = fst (L ?sd)"
    using sa c b by (simp add: unat_sat_add min_def)
  moreover have "unat (sat_sub (acct_nonce ?sa) 1) = snd (L ?sd)" using sa by (simp add: unat_sat_sub)
  ultimately show ?thesis
    by (simp only: undo_tx_def Let_def overlay_view.view_put [of s ?sd] read_ledger_upd L1)
      (simp add: fun_eq_iff)
qed

lemma undo_txs_inverse:
  "spec_txs P txs L = Some (read_ledger (get_acc s ov)) \<Longrightarrow> finite (holders L) \<Longrightarrow>
     total_supply L < 2 ^ 64 - 1 \<Longrightarrow> read_ledger (get_acc s (fold (undo_tx P s) (rev txs) ov)) = L"
proof (induction txs arbitrary: L)
  case (Cons tx txs)
  from Cons.prems(1) obtain L1 where L1: "spec_tx P tx L = Some L1"
    "spec_txs P txs L1 = Some (read_ledger (get_acc s ov))"
    by (auto split: option.splits)
  note sup = spec_tx_supply [OF L1(1) Cons.prems(2)]
  have "read_ledger (get_acc s (fold (undo_tx P s) (rev txs) ov)) = L1"
    using Cons.IH [OF L1(2)] sup Cons.prems(3) by simp
  with L1(1) Cons.prems(2,3) show ?case by (simp add: undo_tx_inverse)
qed simp

lemma undo_block_inverse:
  assumes sp: "spec_block P gen b L = Some (read_ledger (get_acc s ov))"
    and fin: "finite (holders L)" and cap: "total_supply L < 2 ^ 64 - 1"
  shows "read_ledger (get_acc s (undo_block P gen s b ov)) = L"
proof -
  let ?m = "miner (header b)" and ?r = "block_reward gen (height (header b))"
  let ?acc = "get_acc s ov ?m"
  let ?ov1 = "put_acc ?m (?acc\<lparr>balance := sat_sub (balance ?acc) ?r\<rparr>) ov"
  from sp obtain L1 where L1: "spec_txs P (transactions b) L = Some L1"
    and L': "read_ledger (get_acc s ov) = credit_ledger ?m (unat ?r) L1"
    by (auto simp: spec_block_def)
  have "unat (balance ?acc) = fst (L1 ?m) + unat ?r" "unat (acct_nonce ?acc) = snd (L1 ?m)"
    by (simp_all only: fst_read_ledger [symmetric] snd_read_ledger [symmetric] L' credit_ledger_def
        fun_upd_same fst_conv snd_conv)
  then have "read_ledger (get_acc s ?ov1) = L1"
    by (simp only: overlay_view.view_put read_ledger_upd L')
      (auto simp: credit_ledger_def unat_sat_sub fun_eq_iff)
  with L1 have "spec_txs P (transactions b) L = Some (read_ledger (get_acc s ?ov1))" by simp
  from undo_txs_inverse [OF this fin cap] show ?thesis by (simp add: undo_block_def Let_def)
qed

lemma undo_blocks_inverse:
  "spec_blocks P gen bs L = Some (read_ledger (get_acc s ov)) \<Longrightarrow> finite (holders L) \<Longrightarrow>
     total_supply L + minted gen bs < 2 ^ 64 - 1 \<Longrightarrow>
     read_ledger (get_acc s (fold (undo_block P gen s) (rev bs) ov)) = L"
proof (induction bs arbitrary: L)
  case (Cons b bs)
  from Cons.prems(1) obtain L1 where L1: "spec_block P gen b L = Some L1"
    "spec_blocks P gen bs L1 = Some (read_ledger (get_acc s ov))"
    by (auto split: option.splits)
  note sup = spec_block_supply [OF L1(1) Cons.prems(2)]
  have "read_ledger (get_acc s (fold (undo_block P gen s) (rev bs) ov)) = L1"
    using Cons.IH [OF L1(2)] sup Cons.prems(3) by simp
  with L1(1) Cons.prems(2,3) show ?case by (simp add: undo_block_inverse)
qed simp

section \<open>A reorganisation on the overlay\<close>

lemma get_acc_empty [simp]: "get_acc s Map.empty = get_account s"
  by (simp add: get_acc_def fun_eq_iff)

lemma spec_blocks_prefix:
  "spec_blocks P gen (cs @ us) L = Some L' \<Longrightarrow>
     \<exists>Lc. spec_blocks P gen cs L = Some Lc \<and> spec_blocks P gen us Lc = Some L'"
  by (auto simp: spec_blocks_append split: option.splits)

lemma reorg_refines:
  assumes led: "spec_blocks P gen (cs @ us) L = Some (read_ledger (get_account s))"
    and fin: "finite (holders L)"
    and cap: "total_supply L + minted gen (cs @ us) < 2 ^ 64 - 1" "total_supply L + minted gen (cs @ ns) < 2 ^ 64 - 1"
    and room: "nonces_within (tx_count (cs @ ns)) L"
  shows "case apply_blocks P gen s ns (fold (undo_block P gen s) (rev us) Map.empty) of
      Inl e \<Rightarrow> spec_blocks P gen (cs @ ns) L = None
    | Inr ov \<Rightarrow> spec_blocks P gen (cs @ ns) L = Some (read_ledger (get_acc s ov))"
proof -
  obtain Lc where Lc: "spec_blocks P gen cs L = Some Lc"
    and us: "spec_blocks P gen us Lc = Some (read_ledger (get_acc s Map.empty))"
    using spec_blocks_prefix [OF led] by auto
  note sup = spec_blocks_supply [OF Lc fin]
  from undo_blocks_inverse [OF us] sup cap
  have undo: "read_ledger (get_acc s (fold (undo_block P gen s) (rev us) Map.empty)) = Lc" by simp
  have "nonces_within (tx_count ns) Lc"
    using spec_blocks_nonces [OF Lc] room by simp
  with apply_blocks_refines [of s "fold (undo_block P gen s) (rev us) Map.empty" gen ns P] sup cap undo
  show ?thesis by (simp add: spec_blocks_append Lc split: sum.splits)
qed

lemma get_account_commit: "get_account (commit_overlay ov s) = get_acc s ov"
  by (auto simp: get_account_def commit_overlay_def get_acc_def fun_eq_iff map_add_def split: option.splits)

section \<open>The emission\<close>

lemma block_reward_val:
  "unat (block_reward gen h) = unat (initial_reward gen) div 2 ^ (unat h div max (unat (halving_interval gen)) 1)"
proof -
  let ?n = "h div max (halving_interval gen) 1"
  have n: "unat ?n = unat h div max (unat (halving_interval gen)) 1" by (simp add: unat_div unat_max)
  show ?thesis
  proof (cases "?n \<ge> 64")
    case True
    then have "64 \<le> unat ?n" by (simp add: word_le_nat_alt)
    then have "(2 :: nat) ^ 64 \<le> 2 ^ unat ?n" by (intro power_increasing) simp_all
    then have "unat (initial_reward gen) < 2 ^ unat ?n"
      using unat_less_pow [of "initial_reward gen"] by simp
    then show ?thesis using True n by (simp add: block_reward_def Let_def)
  next
    case False
    have "unat (drop_bit (unat ?n) (initial_reward gen)) = unat (initial_reward gen) div 2 ^ unat ?n"
      unfolding unat_drop_bit_eq by (rule drop_bit_eq_div)
    then show ?thesis using n False by (simp add: block_reward_def Let_def)
  qed
qed

lemma sum_blocks_of_K:
  "(\<Sum>i < m * K. f (i div K)) = (\<Sum>j < m. K * f j)" for f :: "nat \<Rightarrow> nat" and K :: nat
proof (induction m)
  case (Suc m)
  have "(\<Sum>i < Suc m * K. f (i div K)) = (\<Sum>i < m * K. f (i div K)) + (\<Sum>i \<in> {m * K ..< m * K + K}. f (i div K))"
    by (subst sum.union_disjoint [symmetric]) (auto intro!: sum.cong)
  also have "(\<Sum>i \<in> {m * K ..< m * K + K}. f (i div K)) = (\<Sum>i \<in> {m * K ..< m * K + K}. f m)"
    by (intro sum.cong) (auto intro!: arg_cong [of _ _ f] div_nat_eqI simp: mult.commute)
  finally show ?case using Suc by simp
qed simp

lemma halving_sum: "(\<Sum>j < m. R div 2 ^ j) + 2 * (R div 2 ^ m) \<le> 2 * R" for R :: nat
proof (induction m)
  case (Suc m)
  have "2 * (R div 2 ^ Suc m) \<le> R div 2 ^ m"
    by (simp add: mult.commute [of 2] div_mult2_eq)
  with Suc show ?case by simp
qed simp

lemma emission_sum:
  fixes R :: nat
  assumes "0 < K"
  shows "(\<Sum>i < n. R div 2 ^ (i div K)) \<le> 2 * R * K"
proof -
  have "{..<n} \<subseteq> {..<n * K}" using assms by (auto intro: less_le_trans)
  then have "(\<Sum>i < n. R div 2 ^ (i div K)) \<le> (\<Sum>i < n * K. R div 2 ^ (i div K))"
    by (intro sum_mono2) auto
  also have "\<dots> = K * (\<Sum>j < n. R div 2 ^ j)"
    by (simp only: sum_blocks_of_K [of "\<lambda>j. R div 2 ^ j"] sum_distrib_left)
  also have "\<dots> \<le> K * (2 * R)"
    using halving_sum [of R n] by (intro mult_le_mono2) linarith
  finally show ?thesis by (simp add: mult.commute)
qed

definition emission_cap :: "genesis_config \<Rightarrow> nat" where
  "emission_cap gen = 2 * unat (initial_reward gen) * max (unat (halving_interval gen)) 1"

lemma minted_le_cap:
  assumes "map (unat \<circ> height \<circ> header) bs = [1..<Suc (length bs)]"
  shows "minted gen bs \<le> emission_cap gen"
proof -
  let ?K = "max (unat (halving_interval gen)) 1" and ?R = "unat (initial_reward gen)"
  have "minted gen bs = sum_list (map (\<lambda>h. ?R div 2 ^ (h div ?K)) (map (unat \<circ> height \<circ> header) bs))"
    by (simp add: minted_def block_reward_val comp_def)
  also have "\<dots> = (\<Sum>h \<in> {1..<Suc (length bs)}. ?R div 2 ^ (h div ?K))"
    unfolding assms by (simp only: sum_list_distinct_conv_sum_set distinct_upt set_upt)
  also have "\<dots> \<le> (\<Sum>h < Suc (length bs). ?R div 2 ^ (h div ?K))"
    by (intro sum_mono2) auto
  also have "\<dots> \<le> emission_cap gen"
    unfolding emission_cap_def by (rule emission_sum) simp
  finally show ?thesis .
qed

section \<open>Properties\<close>

text \<open>
  The reward of a block is the initial reward halved once per interval, exactly, also beyond 64
  halvings and for an interval of 0, and what any number of consecutive blocks from height 1 mint
  together never exceeds twice the initial reward times the interval.
\<close>

theorem emission_bounded:
  assumes "map (unat \<circ> height \<circ> header) bs = [1..<Suc (length bs)]"
  shows "unat (block_reward gen h) = unat (initial_reward gen) div 2 ^ (unat h div max (unat (halving_interval gen)) 1) \<and>
    minted gen bs \<le> 2 * unat (initial_reward gen) * max (unat (halving_interval gen)) 1"
  using minted_le_cap [OF assms] block_reward_val by (simp add: emission_cap_def)

theorem emission_bounded_witness:
  "let b = \<lparr>header = \<lparr>height = 1, prev_hash = ZERO, tx_root = ZERO, timestamp = 30, difficulty = 1000,
         miner = Address (replicate 20 0), nonce = 0\<rparr>, transactions = []\<rparr> in
   unat (block_reward testnet_default 210000) =
     unat (initial_reward testnet_default) div 2 ^ (unat (210000 :: u64) div max (unat (halving_interval testnet_default)) 1) \<and>
   minted testnet_default [b] \<le> 2 * unat (initial_reward testnet_default) * max (unat (halving_interval testnet_default)) 1"
  unfolding Let_def by (rule emission_bounded) simp

text \<open>
  At the largest balance the check and the debit disagree: the check saturates \<open>amount + fee\<close>
  to \<open>2^64 - 1\<close>, the debit wraps it around, so a sender who holds \<open>2^64 - 1\<close> units is
  charged \<open>2^64\<close> units too little for a transaction that costs more than that.
\<close>

theorem debit_wraps_at_max_balance:
  assumes "get_acc s ov (to_address P (tx_from tx)) = \<lparr>balance = - 1, acct_nonce = account_nonce tx\<rparr>"
    and "2 ^ 64 \<le> unat (amount tx) + unat (fee tx)" "tx_to tx \<noteq> to_address P (tx_from tx)"
  shows "\<exists>ov'. apply_tx P s h tx ov = Inr ov' \<and>
    unat (balance (get_acc s ov (to_address P (tx_from tx)))) -
      unat (balance (get_acc s ov' (to_address P (tx_from tx)))) = unat (amount tx) + unat (fee tx) - 2 ^ 64"
proof -
  let ?sd = "to_address P (tx_from tx)"
  have "unat (amount tx + fee tx) = (unat (amount tx) + unat (fee tx)) mod 2 ^ 64"
    by (simp add: unat_word_ariths)
  also have "\<dots> = unat (amount tx) + unat (fee tx) - 2 ^ 64"
    using assms(2) unat_less_pow [of "amount tx"] unat_less_pow [of "fee tx"]
    by (simp add: mod_if)
  finally have w: "unat (amount tx + fee tx) = unat (amount tx) + unat (fee tx) - 2 ^ 64" .
  have sat: "sat_add (amount tx) (fee tx) \<le> - 1" by simp
  have "amount tx + fee tx \<le> - 1" by simp
  from unat_sub [OF this] have "unat (- 1 - (amount tx + fee tx)) = 2 ^ 64 - 1 - unat (amount tx + fee tx)"
    by (simp add: unat_minus_1)
  then show ?thesis
    using assms(3) unat_less_pow [of "amount tx + fee tx"]
    by (simp add: apply_tx_def Let_def assms(1) sat overlay_view.get_put w unat_minus_1)
qed

theorem debit_wraps_at_max_balance_witness:
  "let tx = new_unsigned (PublicKey (replicate 32 7)) (Address (replicate 20 1)) (- 1) 1 0;
       s = set_account (Address (replicate 20 7)) \<lparr>balance = - 1, acct_nonce = 0\<rparr> empty_state in
   \<exists>ov'. apply_tx sample_env s 1 tx Map.empty = Inr ov' \<and>
     unat (balance (get_acc s Map.empty (to_address sample_env (tx_from tx)))) -
       unat (balance (get_acc s ov' (to_address sample_env (tx_from tx)))) =
     unat (amount tx) + unat (fee tx) - 2 ^ 64"
  unfolding Let_def
  by (rule debit_wraps_at_max_balance)
    (simp_all add: to_address_def sample_env_def sample_hash_def new_unsigned_def state_simps unat_minus_1)

end
