(* ===== verification/Chain_Fork.thy ===== *)
theory Chain_Fork
  imports Ledger_Spec
begin

text \<open>
  The block tree of the store. \<open>branch s g x bs\<close> holds when following the parent links from block
  \<open>x\<close> leads to the genesis block \<open>g\<close>, and \<open>bs\<close> lists the blocks passed on the way,
  genesis excluded, oldest first, their heights counting up from 1. On such a tree \<open>fork_paths\<close>
  terminates and splits two branches at their last common block.
\<close>

inductive branch :: "chain_state \<Rightarrow> hash256 \<Rightarrow> hash256 \<Rightarrow> block_chain \<Rightarrow> bool"
  for s :: chain_state and g :: hash256 where
  genesis: "get_block s g = Some b \<Longrightarrow> height (header b) = 0 \<Longrightarrow> branch s g g []"
| grow: "branch s g (prev_hash (header b)) bs \<Longrightarrow> get_block s x = Some b \<Longrightarrow>
    unat (height (header b)) = Suc (length bs) \<Longrightarrow> branch s g x (bs @ [(x, b)])"

inductive_simps branch_snoc: "branch s g x (bs @ [p])"
inductive_simps branch_Nil: "branch s g x []"

lemma branch_stored: "branch s g x bs \<Longrightarrow> \<exists>b. get_block s x = Some b \<and> unat (height (header b)) = length bs"
  by (cases rule: branch.cases) auto

lemma branch_height: "branch s g x bs \<Longrightarrow> get_block s x = Some b \<Longrightarrow> unat (height (header b)) = length bs"
  using branch_stored by fastforce

lemma branch_unique: "branch s g x bs \<Longrightarrow> branch s g x cs \<Longrightarrow> bs = cs"
proof (induction arbitrary: cs rule: branch.induct)
  case (genesis b)
  from genesis.prems show ?case
    by (cases rule: branch.cases) (use genesis.hyps in auto)
next
  case (grow b bs x)
  from grow.prems grow.hyps(2,3) obtain cs' where cs: "cs = cs' @ [(x, b)]" "branch s g (prev_hash (header b)) cs'"
    by (cases rule: branch.cases) auto
  with grow.IH [OF cs(2)] show ?case by simp
qed

lemma branch_bound:
  assumes "branch s g x bs"
  shows "length bs < 2 ^ 64"
proof -
  obtain b where "get_block s x = Some b" "unat (height (header b)) = length bs"
    using branch_stored [OF assms] by blast
  then show ?thesis using unat_less_pow [of "height (header b)"] by simp
qed

text \<open>Every prefix of a branch is a branch, and its blocks are the stored ones.\<close>

lemma branch_prefix: "branch s g x bs \<Longrightarrow> n < length bs \<Longrightarrow>
    branch s g (prev_hash (header (snd (bs ! n)))) (take n bs)"
proof (induction arbitrary: n rule: branch.induct)
  case (grow b bs x)
  then show ?case by (cases "n = length bs") (simp_all add: nth_append)
qed simp

lemma branch_nth: "branch s g x bs \<Longrightarrow> n < length bs \<Longrightarrow> bs ! n = (y, b) \<Longrightarrow>
    get_block s y = Some b \<and> branch s g y (take (Suc n) bs) \<and> unat (height (header b)) = Suc n"
proof (induction arbitrary: n rule: branch.induct)
  case (grow b' bs x)
  show ?case
  proof (cases "n = length bs")
    case True
    then show ?thesis using grow branch.grow [OF grow.hyps] by simp
  next
    case False
    then have "n < length bs" "bs ! n = (y, b)" using grow.prems by (simp_all add: nth_append)
    with grow.IH show ?thesis by simp
  qed
qed simp

lemma branch_take: "branch s g x bs \<Longrightarrow> \<exists>y. branch s g y (take n bs)"
  using branch_prefix [of s g x bs n] by (cases "n < length bs") auto

lemma branch_genesis: "branch s g x bs \<Longrightarrow> branch s g g []"
  by (induction rule: branch.induct) (auto intro: branch.genesis)

lemma branch_last: "branch s g x bs \<Longrightarrow> x = (if bs = [] then g else fst (last bs))"
  by (erule branch.cases) auto

lemma branch_heights: "branch s g x bs \<Longrightarrow> map (unat \<circ> height \<circ> header) (map snd bs) = [1..<Suc (length bs)]"
  by (induction rule: branch.induct) simp_all

lemma branch_distinct: "branch s g x bs \<Longrightarrow> distinct (map fst bs)"
proof (induction rule: branch.induct)
  case (grow b bs x)
  have "x \<notin> fst ` set bs"
  proof
    assume "x \<in> fst ` set bs"
    then obtain n c where n: "n < length bs" "bs ! n = (x, c)"
      by (auto simp: in_set_conv_nth)
    with branch_nth [OF grow.hyps(1) n] grow.hyps show False by auto
  qed
  with grow.IH show ?case by auto
qed simp

text \<open>Storing a block under a fresh hash keeps every branch.\<close>

lemma branch_mono:
  "branch s g x bs \<Longrightarrow> (\<And>y c. get_block s y = Some c \<Longrightarrow> get_block s' y = Some c) \<Longrightarrow> branch s' g x bs"
  by (induction rule: branch.induct) (auto intro: branch.intros)

lemma branch_cong: "get_block s = get_block s' \<Longrightarrow> branch s g x bs \<longleftrightarrow> branch s' g x bs"
  by (auto intro: branch_mono)

lemma branch_back:
  assumes "branch s' g x bs" and sub: "\<And>z c. z \<noteq> y \<Longrightarrow> get_block s' z = Some c \<Longrightarrow> get_block s z = Some c"
    and closed: "\<And>z c. z \<noteq> y \<Longrightarrow> get_block s' z = Some c \<Longrightarrow> prev_hash (header c) \<noteq> y \<or> height (header c) = 0"
    and "x \<noteq> y"
  shows "branch s g x bs"
  using assms(1,4)
proof (induction rule: branch.induct)
  case (grow b bs x)
  have "prev_hash (header b) \<noteq> y" using closed [OF grow.prems grow.hyps(2)] grow.hyps(3) by auto
  with grow sub show ?case by (intro branch.grow) auto
qed (auto intro: branch.genesis sub)

section \<open>The first two loops\<close>

lemma rewind_branch:
  "branch s g x bs \<Longrightarrow> get_block s x = Some b \<Longrightarrow>
     \<exists>y c. rewind s h x b acc = Some (Inr (y, c, acc @ rev (drop (unat h) bs))) \<and>
       branch s g y (take (unat h) bs) \<and> get_block s y = Some c"
proof (induction arbitrary: b acc rule: branch.induct)
  case (genesis b')
  then show ?case by (subst rewind.simps) (auto intro: branch.genesis)
next
  case (grow b' bs x)
  then have b: "b = b'" by simp
  show ?case
  proof (cases "height (header b) > h")
    case True
    then have le: "unat h \<le> length bs"
      using grow.hyps(3) b by (simp add: word_less_nat_alt)
    from branch_stored [OF grow.hyps(1)] obtain p where p: "get_block s (prev_hash (header b')) = Some p" by blast
    from grow.IH [OF p, of "acc @ [(x, b)]"] le show ?thesis
      by (subst rewind.simps) (use True in \<open>simp add: b p\<close>)
  next
    case False
    then have "Suc (length bs) \<le> unat h"
      using grow.hyps(3) b by (simp add: word_less_nat_alt not_less)
    moreover have "branch s g x (bs @ [(x, b')])" by (rule branch.grow [OF grow.hyps])
    ultimately show ?thesis using False grow.prems by (subst rewind.simps) auto
  qed
qed

section \<open>The third loop\<close>

lemma meet_branches:
  "branch s g ox obs \<Longrightarrow> branch s g nx nbs \<Longrightarrow> length obs = length nbs \<Longrightarrow>
     get_block s ox = Some ob \<Longrightarrow> get_block s nx = Some nb \<Longrightarrow>
     \<exists>cs us ns. meet s ox ob undo nx nb app = Some (Inr (undo @ rev us, app @ rev ns)) \<and>
       obs = cs @ us \<and> nbs = cs @ ns \<and> (us \<noteq> [] \<longrightarrow> hd us \<noteq> hd ns)"
proof (induction arbitrary: nx nbs ob nb undo app rule: branch.induct)
  case (genesis b)
  then have "nbs = []" by simp
  with genesis.prems(1) have "nx = g" by (simp add: branch_Nil)
  with \<open>nbs = []\<close> show ?case by (subst meet.simps) simp
next
  case (grow b obs ox)
  have ob: "ob = b" using grow by simp
  have obr: "branch s g ox (obs @ [(ox, b)])" by (rule branch.grow [OF grow.hyps])
  show ?case
  proof (cases "ox = nx")
    case True
    with branch_unique [OF obr] grow.prems have "nbs = obs @ [(ox, b)]" by blast
    with True show ?thesis by (subst meet.simps) simp
  next
    case False
    from grow.prems(1,2) obtain b2 nbs' where nbs: "nbs = nbs' @ [(nx, b2)]"
      and nb': "branch s g (prev_hash (header b2)) nbs'" and b2: "get_block s nx = Some b2"
      by (cases rule: branch.cases) auto
    have nb: "nb = b2" using b2 grow.prems(4) by simp
    obtain op np where p: "get_block s (prev_hash (header b)) = Some op" "get_block s (prev_hash (header b2)) = Some np"
      using branch_stored [OF grow.hyps(1)] branch_stored [OF nb'] by blast
    from grow.IH [OF nb' _ p, of "undo @ [(ox, ob)]" "app @ [(nx, nb)]"] grow.prems(2) nbs
    obtain cs us ns where
      m: "meet s (prev_hash (header b)) op (undo @ [(ox, ob)]) (prev_hash (header b2)) np (app @ [(nx, nb)]) =
          Some (Inr ((undo @ [(ox, ob)]) @ rev us, (app @ [(nx, nb)]) @ rev ns))"
      and eq: "obs = cs @ us" "nbs' = cs @ ns" "us \<noteq> [] \<longrightarrow> hd us \<noteq> hd ns" by auto
    have "hd (us @ [(ox, b)]) \<noteq> hd (ns @ [(nx, b2)])"
    proof (cases "us = []")
      case True
      then have "ns = []" using eq grow.prems(2) nbs by simp
      with True False show ?thesis by simp
    next
      case ne: False
      then have "ns \<noteq> []" using eq grow.prems(2) nbs by auto
      with ne eq(3) show ?thesis by simp
    qed
    with m eq show ?thesis
      by (subst meet.simps) (simp add: False p nb ob nbs, rule exI [of _ cs], simp)
  qed
qed

section \<open>Fork paths\<close>

lemma take_append_drop_min: "take n xs = cs @ us \<Longrightarrow> xs = cs @ us @ drop n xs"
  by (metis append.assoc append_take_drop_id)

lemma fork_paths_split:
  assumes "branch s g x xs" "branch s g y ys"
  shows "\<exists>cs us ns. fork_paths s x y = Some (Inr (rev us, ns)) \<and> xs = cs @ us \<and> ys = cs @ ns \<and>
    (us \<noteq> [] \<and> ns \<noteq> [] \<longrightarrow> hd us \<noteq> hd ns)"
proof -
  obtain ob nb where ob: "get_block s x = Some ob" "unat (height (header ob)) = length xs"
    and nb: "get_block s y = Some nb" "unat (height (header nb)) = length ys"
    using branch_stored [OF assms(1)] branch_stored [OF assms(2)] by blast
  let ?n = "min (length xs) (length ys)"
  obtain ox ob' where r1: "rewind s (height (header nb)) x ob [] = Some (Inr (ox, ob', rev (drop (length ys) xs)))"
    and o: "branch s g ox (take (length ys) xs)" "get_block s ox = Some ob'"
    using rewind_branch [OF assms(1) ob(1), of "height (header nb)" "[]"] nb(2) by auto
  have h': "unat (height (header ob')) = ?n"
    using branch_height [OF o] by simp
  obtain nx nb' where r2: "rewind s (height (header ob')) y nb [] = Some (Inr (nx, nb', rev (drop ?n ys)))"
    and n: "branch s g nx (take ?n ys)" "get_block s nx = Some nb'"
    using rewind_branch [OF assms(2) nb(1), of "height (header ob')" "[]"] h' by auto
  obtain cs us ns where m: "meet s ox ob' (rev (drop (length ys) xs)) nx nb' (rev (drop ?n ys)) =
      Some (Inr (rev (drop (length ys) xs) @ rev us, rev (drop ?n ys) @ rev ns))"
    and eq: "take (length ys) xs = cs @ us" "take ?n ys = cs @ ns" "us \<noteq> [] \<longrightarrow> hd us \<noteq> hd ns"
    using meet_branches [OF o(1) n(1) _ o(2) n(2), of "rev (drop (length ys) xs)" "rev (drop ?n ys)"]
    by force
  have xs: "xs = cs @ us @ drop (length ys) xs" and ys: "ys = cs @ ns @ drop ?n ys"
    using take_append_drop_min [OF eq(1)] take_append_drop_min [OF eq(2)] by auto
  have len: "length us = length ns" using arg_cong [OF eq(1), of length] arg_cong [OF eq(2), of length] by simp
  let ?us = "us @ drop (length ys) xs" and ?ns = "ns @ drop ?n ys"
  have "?us \<noteq> [] \<and> ?ns \<noteq> [] \<longrightarrow> hd ?us \<noteq> hd ?ns"
  proof (cases "us = []")
    case True
    then have "ns = []" using len by simp
    have "drop (length ys) xs = [] \<or> drop ?n ys = []" by auto
    with True \<open>ns = []\<close> show ?thesis by auto
  next
    case False
    then have "ns \<noteq> []" using len by auto
    with False eq(3) show ?thesis by simp
  qed
  moreover have "fork_paths s x y = Some (Inr (rev ?us, ?ns))"
    by (simp add: fork_paths_def ob(1) nb(1) r1 r2 m)
  ultimately show ?thesis using xs ys by blast
qed

text \<open>The split is determined by the branches: the common part is the longest one.\<close>

lemma split_at_fork:
  assumes "xs = cs @ us" "ys = cs @ ns" "us \<noteq> [] \<and> ns \<noteq> [] \<longrightarrow> hd us \<noteq> hd ns"
    and "xs = ds @ vs" "ys = ds @ ms"
  shows "length ds \<le> length cs"
proof (rule ccontr)
  assume "\<not> length ds \<le> length cs"
  then have lt: "length cs < length ds" by simp
  have "xs ! length cs = ys ! length cs" using assms(4,5) lt by (simp add: nth_append)
  moreover have "us \<noteq> []" "ns \<noteq> []" using assms(1,2,4,5) lt by auto
  ultimately show False using assms(1-3) by (simp add: nth_append hd_conv_nth)
qed

end
