(* ===== verification/Chain_Invariant.thy ===== *)
theory Chain_Invariant
  imports Chain_Fork
begin

text \<open>
  The invariant of the chain store and the runs it holds on. It says that the stored blocks form a
  tree under genesis, that the chain work of a block is the sum of the difficulties on its branch,
  that the height index and the tip describe one branch, the canonical one, that every stored block
  passed every check of \<open>submit_block\<close>, and that the accounts are what replaying the canonical
  branch on the premine gives.
\<close>

section \<open>The genesis ledger\<close>

fun spec_premine :: "(address \<times> u64) list \<Rightarrow> ledger \<Rightarrow> ledger" where
  "spec_premine [] L = L"
| "spec_premine ((a, am) # ps) L = spec_premine ps (credit_ledger a (unat am) L)"

definition premine_list :: "'a prims_scheme \<Rightarrow> genesis_config \<Rightarrow> (address \<times> u64) list" where
  "premine_list P gen = (case premine_parsed P gen of Inl e \<Rightarrow> [] | Inr ps \<Rightarrow> ps)"

definition genesis_ledger :: "'a prims_scheme \<Rightarrow> genesis_config \<Rightarrow> ledger" where
  "genesis_ledger P gen = spec_premine (premine_list P gen) (\<lambda>a. (0, 0))"

definition premine_total :: "'a prims_scheme \<Rightarrow> genesis_config \<Rightarrow> nat" where
  "premine_total P gen = sum_list (map (unat \<circ> snd) (premine_list P gen))"

text \<open>Premine and emission fit into 64 bits, with one unit to spare.\<close>

definition supply_capped :: "'a prims_scheme \<Rightarrow> genesis_config \<Rightarrow> bool" where
  "supply_capped P gen \<longleftrightarrow> premine_total P gen + emission_cap gen < 2 ^ 64 - 1"

lemma spec_premine_supply:
  "finite (holders L) \<Longrightarrow> total_supply (spec_premine ps L) = total_supply L + sum_list (map (unat \<circ> snd) ps) \<and>
     finite (holders (spec_premine ps L))"
  by (induction ps L rule: spec_premine.induct) (simp_all add: credit_ledger_supply)

lemma spec_premine_nonces: "nonces_within n (spec_premine ps L) \<longleftrightarrow> nonces_within n L"
  by (induction ps L rule: spec_premine.induct) simp_all

lemma holders_zero [simp]: "holders (\<lambda>a. (0, 0)) = {}"
  by (simp add: holders_def)

lemma genesis_ledger_facts:
  "finite (holders (genesis_ledger P gen))"
  "total_supply (genesis_ledger P gen) = premine_total P gen"
  "n < 2 ^ 64 \<Longrightarrow> nonces_within n (genesis_ledger P gen)"
  using spec_premine_supply [of "\<lambda>a. (0, 0)" "premine_list P gen"]
  by (simp_all add: genesis_ledger_def premine_total_def spec_premine_nonces total_supply_def,
      simp add: nonces_within_def)

section \<open>The invariant\<close>

definition branch_work :: "genesis_config \<Rightarrow> block_chain \<Rightarrow> nat" where
  "branch_work gen bs =
     unat (initial_difficulty gen) + sum_list (map (unat \<circ> difficulty \<circ> header \<circ> snd) bs)"

definition difficulty_due :: "genesis_config \<Rightarrow> chain_state \<Rightarrow> block \<Rightarrow> chain_error + u64" where
  "difficulty_due gen s parent =
     expected_difficulty_after \<lparr>cstate = s, cgenesis = gen, dataset_cache = None\<rparr> parent"

definition checked :: "'a env_scheme \<Rightarrow> genesis_config \<Rightarrow> chain_state \<Rightarrow> hash256 \<Rightarrow> block \<Rightarrow> bool" where
  "checked E gen s x b \<longleftrightarrow>
     tx_root (header b) = compute_tx_root E b \<and>
     meets_target x (target_for_difficulty (difficulty (header b))) \<and>
     list_all (is_signature_valid E) (transactions b) \<and>
     (\<exists>ds. wf_dataset ds \<and> header_id E (header b) ds = Some x) \<and>
     (\<exists>p. get_block s (prev_hash (header b)) = Some p \<and> difficulty_due gen s p = Inr (difficulty (header b)))"

definition block_tree :: "'a env_scheme \<Rightarrow> genesis_config \<Rightarrow> chain_state \<Rightarrow> bool" where
  "block_tree E gen s \<longleftrightarrow>
     get_block s (genesis_block_hash E gen) = Some (genesis_block gen) \<and>
     (\<forall>x b. get_block s x = Some b \<longrightarrow>
        (\<exists>bs. branch s (genesis_block_hash E gen) x bs) \<and>
        (x \<noteq> genesis_block_hash E gen \<longrightarrow> checked E gen s x b))"

definition work_sums :: "'a env_scheme \<Rightarrow> genesis_config \<Rightarrow> chain_state \<Rightarrow> bool" where
  "work_sums E gen s \<longleftrightarrow>
     (\<forall>x bs. branch s (genesis_block_hash E gen) x bs \<longrightarrow>
        map_option unat (get_chainwork s x) = Some (branch_work gen bs))"

definition canonical :: "'a env_scheme \<Rightarrow> genesis_config \<Rightarrow> chain_state \<Rightarrow> block_chain \<Rightarrow> bool" where
  "canonical E gen s bs \<longleftrightarrow>
     (\<exists>h x. tip s = Some (h, x) \<and> branch s (genesis_block_hash E gen) x bs \<and> unat h = length bs) \<and>
     (\<forall>k. get_hash_by_height s k =
        (if k = 0 then Some (genesis_block_hash E gen)
         else if unat k \<le> length bs then Some (fst (bs ! (unat k - 1))) else None))"

text \<open>No branch holds \<open>2^64\<close> or more transactions.\<close>

definition tx_room :: "'a env_scheme \<Rightarrow> genesis_config \<Rightarrow> chain_state \<Rightarrow> bool" where
  "tx_room E gen s \<longleftrightarrow>
     (\<forall>x bs. branch s (genesis_block_hash E gen) x bs \<longrightarrow> tx_count (map snd bs) < 2 ^ 64)"

definition ledger_replays :: "'a env_scheme \<Rightarrow> genesis_config \<Rightarrow> chain_state \<Rightarrow> block_chain \<Rightarrow> bool" where
  "ledger_replays E gen s bs \<longleftrightarrow>
     spec_blocks E gen (map snd bs) (genesis_ledger E gen) = Some (read_ledger (get_account s))"

definition chain_inv :: "'a env_scheme \<Rightarrow> genesis_config \<Rightarrow> chain_state \<Rightarrow> bool" where
  "chain_inv E gen s \<longleftrightarrow> block_tree E gen s \<and> work_sums E gen s \<and>
     (\<exists>bs. canonical E gen s bs \<and> (tx_room E gen s \<longrightarrow> ledger_replays E gen s bs))"

definition cache_ok :: "chain \<Rightarrow> bool" where
  "cache_ok c \<longleftrightarrow> (case dataset_cache c of None \<Rightarrow> True | Some (e, ds) \<Rightarrow> wf_dataset ds)"

definition mempool_ok :: "'a env_scheme \<Rightarrow> chain_state \<Rightarrow> bool" where
  "mempool_ok E s \<longleftrightarrow> tree_ok (mempool s) \<and> (\<forall>(h, tx) \<in> set (mempool s). h = tx_hash E tx)"

text \<open>
  The runs: the store is opened on an empty database, then blocks are submitted, templates are
  built, pending transactions are added and dropped and the node is restarted, in any order.
\<close>

inductive reachable :: "'a env_scheme \<Rightarrow> genesis_config \<Rightarrow> chain \<Rightarrow> bool"
  for E :: "'a env_scheme" and gen :: genesis_config where
  opened: "chain_open E gen empty_state = Inr c \<Longrightarrow> reachable E gen c"
| reopened: "reachable E gen c \<Longrightarrow> chain_open E gen (cstate c) = Inr c' \<Longrightarrow> reachable E gen c'"
| submitted: "reachable E gen c \<Longrightarrow> submit_block E c b = Some (r, c') \<Longrightarrow> reachable E gen c'"
| templated: "reachable E gen c \<Longrightarrow> work_template E now c a txs = Some (r, c') \<Longrightarrow> reachable E gen c'"
| pending_added: "reachable E gen c \<Longrightarrow> reachable E gen (c\<lparr>cstate := mempool_insert E tx (cstate c)\<rparr>)"
| pending_dropped: "reachable E gen c \<Longrightarrow> reachable E gen (c\<lparr>cstate := mempool_remove h (cstate c)\<rparr>)"

section \<open>Transport along stores that agree\<close>

lemma block_ancestor_mono:
  "block_ancestor s b n = Some a \<Longrightarrow> (\<And>y c. get_block s y = Some c \<Longrightarrow> get_block s' y = Some c) \<Longrightarrow>
     block_ancestor s' b n = Some a"
proof (induction n arbitrary: b)
  case (Suc n)
  then show ?case by (cases "get_block s (prev_hash (header b))") auto
qed simp

lemma difficulty_due_mono:
  assumes "difficulty_due gen s p = Inr d" "\<And>y c. get_block s y = Some c \<Longrightarrow> get_block s' y = Some c"
  shows "difficulty_due gen s' p = Inr d"
proof (cases "block_ancestor s p (unat (max (retarget_window gen) 1))")
  case None
  with assms(1) show ?thesis
    by (auto simp: difficulty_due_def expected_difficulty_after_def Let_def split: if_splits)
next
  case (Some a)
  from block_ancestor_mono [OF this assms(2)] Some assms(1) show ?thesis
    by (auto simp: difficulty_due_def expected_difficulty_after_def Let_def split: if_splits)
qed

lemma difficulty_due_chain: "difficulty_due (cgenesis c) (cstate c) p = expected_difficulty_after c p"
  by (simp add: difficulty_due_def expected_difficulty_after_def Let_def split: option.splits)

lemma checked_mono:
  assumes "checked E gen s x b" "\<And>y c. get_block s y = Some c \<Longrightarrow> get_block s' y = Some c"
  shows "checked E gen s' x b"
  using assms difficulty_due_mono [OF _ assms(2)] unfolding checked_def by blast

lemma chain_inv_cong:
  assumes "get_block s' = get_block s" "get_chainwork s' = get_chainwork s" "tip s' = tip s"
    "get_hash_by_height s' = get_hash_by_height s" "get_account s' = get_account s"
  shows "chain_inv E gen s' \<longleftrightarrow> chain_inv E gen s"
proof -
  have br: "branch s' = branch s" by (intro ext) (rule branch_cong [OF assms(1)])
  have "checked E gen s' = checked E gen s"
    by (intro ext iffI; erule checked_mono) (simp_all add: assms(1))
  then show ?thesis
    by (simp add: chain_inv_def block_tree_def work_sums_def canonical_def tx_room_def
        ledger_replays_def br assms)
qed

lemma chain_inv_mempool [simp]:
  "chain_inv E gen (mempool_insert E' tx s) \<longleftrightarrow> chain_inv E gen s"
  "chain_inv E gen (mempool_remove h s) \<longleftrightarrow> chain_inv E gen s"
  by (rule chain_inv_cong; simp add: fun_eq_iff state_simps)+

section \<open>Opening a chain\<close>

lemma credit_refines:
  "unat (balance (get_account s a)) + unat am < 2 ^ 64 \<Longrightarrow>
     read_ledger (get_account (credit a am s)) = credit_ledger a (unat am) (read_ledger (get_account s))"
  by (simp add: credit_def Let_def store.view_put read_ledger_upd credit_ledger_def unat_sat_add min_def)

lemma credit_all_refines:
  "finite (holders (read_ledger (get_account s))) \<Longrightarrow>
     total_supply (read_ledger (get_account s)) + sum_list (map (unat \<circ> snd) ps) < 2 ^ 64 \<Longrightarrow>
     read_ledger (get_account (credit_all ps s)) = spec_premine ps (read_ledger (get_account s))"
proof (induction ps s rule: credit_all.induct)
  case (2 a am ps s)
  have "unat (balance (get_account s a)) + unat am < 2 ^ 64"
    using balance_le_supply [OF 2(2), of a] 2(3) by simp
  note c = credit_refines [OF this]
  with 2 credit_ledger_supply [OF 2(2), of a "unat am"] show ?case by simp
qed simp

lemma credit_all_fields:
  "get_block (credit_all ps s) = get_block s" "get_chainwork (credit_all ps s) = get_chainwork s"
  "tip (credit_all ps s) = tip s" "get_hash_by_height (credit_all ps s) = get_hash_by_height s"
  "mempool (credit_all ps s) = mempool s"
  by (induction ps s rule: credit_all.induct) (simp_all add: credit_def Let_def state_simps fun_eq_iff)

lemma empty_state_fields:
  "get_block empty_state y = None" "get_chainwork empty_state y = None" "tip empty_state = None"
  "get_hash_by_height empty_state h = None" "get_account empty_state a = default_account"
  "mempool empty_state = []"
  by (simp_all add: get_block_def get_chainwork_def tip_def get_hash_by_height_def get_account_def empty_state_def)

lemma genesis_block_fields [simp]:
  "height (header (genesis_block gen)) = 0" "transactions (genesis_block gen) = []"
  "difficulty (header (genesis_block gen)) = initial_difficulty gen"
  "timestamp (header (genesis_block gen)) = gen_timestamp gen"
  by (simp_all add: genesis_block_def)

lemma init_genesis_inv:
  assumes "init_genesis E gen empty_state = (Inr (), s)" "supply_capped E gen"
  shows "chain_inv E gen s" "mempool s = []"
proof -
  let ?g = "genesis_block_hash E gen"
  from assms(1) obtain ps where ps: "premine_parsed E gen = Inr ps"
    and s: "s = set_tip 0 ?g (set_canonical_height 0 ?g (store_block ?g (genesis_block gen)
        (set_chainwork ?g (block_work (initial_difficulty gen)) (credit_all ps empty_state))))"
    by (auto simp: init_genesis_def Let_def split: sum.splits)
  note f = s state_simps credit_all_fields empty_state_fields
  show "mempool s = []" by (simp add: f)
  have blk: "get_block s y = (if y = ?g then Some (genesis_block gen) else None)" for y by (simp add: f)
  have br: "branch s ?g ?g []"
    by (rule branch.genesis [where b = "genesis_block gen"]) (simp_all add: blk)
  have only: "bs = [] \<and> x = ?g" if "branch s ?g x bs" for x bs
    using that by (cases rule: branch.cases) (auto simp: blk split: if_splits)
  have tree: "block_tree E gen s"
    using br by (auto simp: block_tree_def blk split: if_splits)
  have "map_option unat (get_chainwork s ?g) = Some (branch_work gen [])"
    by (simp add: f branch_work_def block_work_def)
  then have work: "work_sums E gen s" using only by (auto simp: work_sums_def)
  have can: "canonical E gen s []"
    using br by (auto simp: canonical_def f unat_eq_0)
  have acc: "get_account s a = get_account (credit_all ps empty_state) a" for a by (simp add: f)
  have L0: "read_ledger (get_account empty_state) = (\<lambda>a. (0, 0))"
    by (simp add: read_ledger_def fun_eq_iff empty_state_fields default_account_def)
  have pl: "premine_list E gen = ps" by (simp add: premine_list_def ps)
  have "read_ledger (get_account s) = genesis_ledger E gen"
    using credit_all_refines [of empty_state ps] assms(2)
    by (simp add: L0 genesis_ledger_def pl supply_capped_def premine_total_def total_supply_def acc [abs_def])
  then have "ledger_replays E gen s []" by (simp add: ledger_replays_def)
  with tree work can show "chain_inv E gen s" unfolding chain_inv_def by blast
qed

lemma chain_open_fresh:
  assumes "chain_open E gen empty_state = Inr c" "supply_capped E gen"
  shows "chain_inv E gen (cstate c) \<and> cgenesis c = gen \<and> cache_ok c \<and> mempool_ok E (cstate c)"
proof -
  obtain r s where rs: "init_genesis E gen empty_state = (r, s)" by (cases "init_genesis E gen empty_state")
  with assms(1) have c: "c = \<lparr>cstate = s, cgenesis = gen, dataset_cache = None\<rparr>"
    and s: "init_genesis E gen empty_state = (Inr (), s)"
    by (simp_all add: chain_open_def empty_state_fields split: sum.splits unit.splits)
  from init_genesis_inv [OF s assms(2)] show ?thesis
    by (simp add: c cache_ok_def mempool_ok_def tree_ok_def)
qed

lemma chain_open_again:
  assumes "tip s \<noteq> None"
  shows "chain_open E gen s = Inr \<lparr>cstate = s, cgenesis = gen, dataset_cache = None\<rparr>"
  using assms by (cases "tip s") (simp_all add: chain_open_def)

lemma chain_inv_tip: "chain_inv E gen s \<Longrightarrow> tip s \<noteq> None"
  by (auto simp: chain_inv_def canonical_def)

section \<open>Storing a checked block\<close>

lemma branch_work_simps [simp]:
  "branch_work gen [] = unat (initial_difficulty gen)"
  "branch_work gen (bs @ [(x, b)]) = branch_work gen bs + unat (difficulty (header b))"
  by (simp_all add: branch_work_def)

lemma branch_work_bound: "branch_work gen bs \<le> (length bs + 1) * (2 ^ 64 - 1)"
proof (induction bs rule: rev_induct)
  case Nil
  show ?case using unat_less_pow [of "initial_difficulty gen"] by simp
next
  case (snoc p bs)
  obtain x b where p: "p = (x, b)" by (cases p)
  have "unat (difficulty (header b)) \<le> 2 ^ 64 - 1"
    using unat_less_pow [of "difficulty (header b)"] by simp
  with snoc show ?case by (simp add: p)
qed

text \<open>Chain work never wraps around in 128 bits: a branch has fewer than \<open>2^64\<close> blocks.\<close>

lemma work_no_wrap:
  assumes "branch s g x bs"
  shows "branch_work gen bs < 2 ^ 128"
proof -
  have "(length bs + 1) * (2 ^ 64 - 1) \<le> 2 ^ 64 * (2 ^ 64 - 1)"
    using branch_bound [OF assms] by (intro mult_le_mono1) simp
  then show ?thesis using branch_work_bound [of gen bs] by simp
qed

lemma store_block_branches:
  assumes tree: "block_tree E gen s" and fresh: "get_block s x = None"
    and parent: "branch s (genesis_block_hash E gen) (prev_hash (header b)) pbs"
    and h: "unat (height (header b)) = Suc (length pbs)"
    and s': "get_block s' = (get_block s)(x \<mapsto> b)"
  shows "branch s' (genesis_block_hash E gen) y bs \<longleftrightarrow>
    branch s (genesis_block_hash E gen) y bs \<or> (y = x \<and> bs = pbs @ [(x, b)])"
proof -
  let ?g = "genesis_block_hash E gen"
  have sub: "get_block s z = Some c \<Longrightarrow> get_block s' z = Some c" for z c using fresh s' by auto
  have new: "branch s' ?g x (pbs @ [(x, b)])"
    by (rule branch.grow [OF branch_mono [OF parent sub]]) (use s' h in auto)
  have closed: "prev_hash (header c) \<noteq> x \<or> height (header c) = 0"
    if "z \<noteq> x" "get_block s' z = Some c" for z c
  proof -
    from that s' have c: "get_block s z = Some c" by simp
    with tree obtain cs where "branch s ?g z cs" unfolding block_tree_def by blast
    then show ?thesis
    proof (cases rule: branch.cases)
      case (grow c' cs')
      with c branch_stored [OF grow(2)] fresh show ?thesis by auto
    qed (use c in simp)
  qed
  show ?thesis
  proof
    assume br: "branch s' ?g y bs"
    show "branch s ?g y bs \<or> (y = x \<and> bs = pbs @ [(x, b)])"
    proof (cases "y = x")
      case True
      with br new branch_unique show ?thesis by blast
    next
      case False
      with branch_back [OF br _ closed] s' show ?thesis by auto
    qed
  qed (use new branch_mono [OF _ sub] in auto)
qed

lemma store_inv:
  assumes inv: "chain_inv E gen s" and fresh: "get_block s x = None"
    and p: "get_block s (prev_hash (header b)) = Some p" "height (header p) + 1 = height (header b)"
    and pos: "0 < height (header b)"
    and work: "get_chainwork s (prev_hash (header b)) = Some w"
    and chk: "checked E gen s x b"
    and s1: "s1 = set_chainwork x (w + block_work (difficulty (header b))) (store_block x b s)"
  shows "chain_inv E gen s1 \<and> (\<exists>bs. branch s1 (genesis_block_hash E gen) x bs \<and>
    unat (w + block_work (difficulty (header b))) = branch_work gen bs)"
proof -
  let ?g = "genesis_block_hash E gen"
  have tree: "block_tree E gen s" and ws: "work_sums E gen s"
    using inv by (simp_all add: chain_inv_def)
  from tree p(1) obtain pbs where pbs: "branch s ?g (prev_hash (header b)) pbs"
    unfolding block_tree_def by blast
  have "unat (height (header p)) = length pbs" by (rule branch_height [OF pbs p(1)])
  moreover have "unat (height (header p) + 1) = unat (height (header p)) + 1"
    using pos p(2) unatSuc [of "height (header p)"] by (simp add: add.commute)
  ultimately have h: "unat (height (header b)) = Suc (length pbs)" using p(2) by simp
  have blk: "get_block s1 = (get_block s)(x \<mapsto> b)" by (auto simp: s1 state_simps)
  note br = store_block_branches [OF tree fresh pbs h blk]
  have sub: "get_block s z = Some c \<Longrightarrow> get_block s1 z = Some c" for z c using fresh blk by auto
  have xg: "x \<noteq> ?g" using tree fresh by (auto simp: block_tree_def)
  have wv: "unat w = branch_work gen pbs" using ws pbs work by (fastforce simp: work_sums_def)
  have new: "branch s1 ?g x (pbs @ [(x, b)])" using br by blast
  have wnew: "unat (w + block_work (difficulty (header b))) = branch_work gen (pbs @ [(x, b)])"
  proof -
    have u: "unat (block_work (difficulty (header b))) = unat (difficulty (header b))"
      by (simp add: block_work_def)
    have "unat w + unat (block_work (difficulty (header b))) < 2 ^ 128"
      using work_no_wrap [OF new, of gen] by (simp add: wv u)
    then show ?thesis using wv by (simp add: unat_add_bounded u)
  qed
  have tree1: "block_tree E gen s1"
    unfolding block_tree_def
  proof (intro conjI allI impI)
    show "get_block s1 ?g = Some (genesis_block gen)" using tree xg blk by (simp add: block_tree_def)
  next
    fix y c assume y: "get_block s1 y = Some c"
    show "\<exists>bs. branch s1 ?g y bs"
      using y tree br blk by (auto simp: block_tree_def split: if_splits)
  next
    fix y c assume y: "get_block s1 y = Some c" "y \<noteq> ?g"
    show "checked E gen s1 y c"
    proof (cases "y = x")
      case True
      with y blk checked_mono [OF chk sub] show ?thesis by simp
    next
      case False
      with y blk tree have "checked E gen s y c" by (simp add: block_tree_def)
      from checked_mono [OF this sub] show ?thesis .
    qed
  qed
  have work1: "work_sums E gen s1"
    unfolding work_sums_def
  proof (intro allI impI)
    fix y bs assume "branch s1 ?g y bs"
    then consider "branch s ?g y bs" | "y = x" "bs = pbs @ [(x, b)]" using br by blast
    then show "map_option unat (get_chainwork s1 y) = Some (branch_work gen bs)"
    proof cases
      case 1
      then have "y \<noteq> x" using branch_stored fresh by fastforce
      with 1 ws show ?thesis by (simp add: s1 state_simps work_sums_def)
    next
      case 2
      with wnew show ?thesis by (simp add: s1 state_simps)
    qed
  qed
  obtain tb where tb: "canonical E gen s tb" "tx_room E gen s \<longrightarrow> ledger_replays E gen s tb"
    using inv by (auto simp: chain_inv_def)
  have room: "tx_room E gen s1 \<Longrightarrow> tx_room E gen s" using br by (auto simp: tx_room_def)
  have "canonical E gen s1 tb" using tb(1) br by (auto simp: canonical_def s1 state_simps)
  moreover have "tx_room E gen s1 \<longrightarrow> ledger_replays E gen s1 tb"
    using tb(2) room by (auto simp: ledger_replays_def s1 state_simps [abs_def])
  ultimately show ?thesis using tree1 work1 new wnew unfolding chain_inv_def by blast
qed

end
