(* ===== verification/Fork_Choice.thy ===== *)
theory Fork_Choice
  imports Chain_Invariant
begin

text \<open>
  The operations of \<open>chain.rs\<close> keep the invariant: moving the tip (\<open>reconsider_tip\<close>),
  submitting a block, building a template. Each lemma also says that the operation returns.
\<close>

section \<open>Moving the height index\<close>

lemma unindex_get:
  "get_hash_by_height (unindex bs s) k =
     (if k \<in> (height \<circ> header \<circ> snd) ` set bs then None else get_hash_by_height s k)"
proof (induction bs arbitrary: s)
  case (Cons p bs)
  obtain x b where "p = (x, b)" by (cases p)
  with Cons [of "remove_canonical_height (height (header b)) s"] show ?case
    by (simp add: unindex_def state_simps)
qed (simp add: unindex_def)

lemma index_snoc: "index (bs @ [(x, b)]) s = set_canonical_height (height (header b)) x (index bs s)"
  by (simp add: index_def)

lemma index_get:
  "\<forall>i < length bs. unat (height (header (snd (bs ! i)))) = n + Suc i \<Longrightarrow>
     get_hash_by_height (index bs s) k =
       (if n < unat k \<and> unat k \<le> n + length bs then Some (fst (bs ! (unat k - n - 1))) else get_hash_by_height s k)"
proof (induction bs rule: rev_induct)
  case (snoc p bs)
  obtain x b where p: "p = (x, b)" by (cases p)
  have hb: "unat (height (header b)) = n + Suc (length bs)"
    using spec [OF snoc.prems, of "length bs"] by (simp add: p nth_append)
  have "\<forall>i < length bs. unat (height (header (snd (bs ! i)))) = n + Suc i"
  proof (intro allI impI)
    fix i assume "i < length bs"
    with spec [OF snoc.prems, of i] show "unat (height (header (snd (bs ! i)))) = n + Suc i"
      by (simp add: nth_append)
  qed
  note IH = snoc.IH [OF this]
  show ?case
  proof (cases "k = height (header b)")
    case True
    then show ?thesis by (simp add: p index_snoc state_simps hb nth_append)
  next
    case False
    then have "unat k \<noteq> n + Suc (length bs)" using hb by (metis word_unat_eq_iff)
    then show ?thesis using False
      by (auto simp: p index_snoc state_simps IH nth_append)
  qed
qed (auto simp: index_def)

lemma index_fields:
  "get_block (unindex bs s) = get_block s" "get_chainwork (unindex bs s) = get_chainwork s"
  "tip (unindex bs s) = tip s" "get_account (unindex bs s) = get_account s" "mempool (unindex bs s) = mempool s"
  "get_block (index bs s) = get_block s" "get_chainwork (index bs s) = get_chainwork s"
  "tip (index bs s) = tip s" "get_account (index bs s) = get_account s" "mempool (index bs s) = mempool s"
  by (induction bs arbitrary: s) (auto simp: unindex_def index_def state_simps fun_eq_iff)

lemma commit_fields:
  "get_block (commit_overlay ov s) = get_block s" "get_chainwork (commit_overlay ov s) = get_chainwork s"
  "tip (commit_overlay ov s) = tip s" "get_hash_by_height (commit_overlay ov s) = get_hash_by_height s"
  "mempool (commit_overlay ov s) = mempool s"
  by (simp_all add: commit_overlay_def get_block_def get_chainwork_def tip_def get_hash_by_height_def fun_eq_iff)

lemmas commit_simps = index_fields commit_fields get_account_commit state_simps

lemma branch_heights_nth:
  "branch s g x bs \<Longrightarrow> i < length bs \<Longrightarrow> unat (height (header (snd (bs ! i)))) = Suc i"
  using branch_nth [of s g x bs i "fst (bs ! i)" "snd (bs ! i)"] by simp

lemma canonical_switch:
  assumes can: "canonical E gen s (cs @ us)"
    and br: "branch s (genesis_block_hash E gen) x (cs @ ns)" and h: "unat h = length (cs @ ns)"
    and old: "branch s (genesis_block_hash E gen) y (cs @ us)"
    and s': "s' = set_tip h x (index ns (unindex (rev us) (commit_overlay ov s)))"
  shows "canonical E gen s' (cs @ ns)"
proof -
  let ?g = "genesis_block_hash E gen"
  have br': "branch s' ?g x (cs @ ns)"
    by (rule branch_mono [OF br]) (simp add: s' commit_simps)
  have hn: "\<forall>i < length ns. unat (height (header (snd (ns ! i)))) = length cs + Suc i"
  proof (intro allI impI)
    fix i assume "i < length ns"
    then show "unat (height (header (snd (ns ! i)))) = length cs + Suc i"
      using branch_heights_nth [OF br, of "length cs + i"] by simp
  qed
  have hu: "k \<in> (height \<circ> header \<circ> snd) ` set (rev us) \<longleftrightarrow> length cs < unat k \<and> unat k \<le> length (cs @ us)" for k
  proof
    assume "k \<in> (height \<circ> header \<circ> snd) ` set (rev us)"
    then obtain i where i: "i < length us" "k = height (header (snd (us ! i)))"
      by (auto simp: in_set_conv_nth)
    then have "unat k = Suc (length cs + i)" using branch_heights_nth [OF old, of "length cs + i"] by simp
    with i(1) show "length cs < unat k \<and> unat k \<le> length (cs @ us)" by simp
  next
    assume k: "length cs < unat k \<and> unat k \<le> length (cs @ us)"
    then obtain i where i: "unat k = length cs + Suc i" by (auto simp: less_iff_Suc_add)
    with k have lt: "i < length us" by simp
    then have "unat k = unat (height (header (snd (us ! i))))"
      using branch_heights_nth [OF old, of "length cs + i"] i by simp
    then have "k = (height \<circ> header \<circ> snd) (us ! i)" by (simp add: word_unat_eq_iff)
    then show "k \<in> (height \<circ> header \<circ> snd) ` set (rev us)" using lt by simp
  qed
  have "get_hash_by_height s' k = (if k = 0 then Some ?g
      else if unat k \<le> length (cs @ ns) then Some (fst ((cs @ ns) ! (unat k - 1))) else None)" for k
  proof -
    have "get_hash_by_height s' k =
        (if length cs < unat k \<and> unat k \<le> length cs + length ns then Some (fst (ns ! (unat k - length cs - 1)))
         else if length cs < unat k \<and> unat k \<le> length (cs @ us) then None
         else get_hash_by_height s k)"
      by (simp only: s' state_simps index_get [OF hn] unindex_get hu commit_fields)
    moreover have "get_hash_by_height s k = (if k = 0 then Some ?g
      else if unat k \<le> length (cs @ us) then Some (fst ((cs @ us) ! (unat k - 1))) else None)"
      using can by (simp add: canonical_def)
    moreover have "k = 0 \<longleftrightarrow> unat k = 0" by (simp add: unat_eq_0)
    ultimately show ?thesis by (auto simp: nth_append)
  qed
  with br' h show ?thesis by (simp add: canonical_def s' state_simps)
qed

section \<open>\<open>reconsider_tip\<close>\<close>

lemma replay_bounds:
  assumes "branch s (genesis_block_hash E gen) x bs" "supply_capped E gen"
  shows "total_supply (genesis_ledger E gen) + minted gen (map snd bs) < 2 ^ 64 - 1"
  using minted_le_cap [of "map snd bs" gen] branch_heights [OF assms(1)] assms(2)
  by (simp add: genesis_ledger_facts supply_capped_def)

definition replay_error :: "block_chain \<Rightarrow> chain_error \<Rightarrow> bool" where
  "replay_error bs e \<longleftrightarrow>
     (\<exists>(x, b) \<in> set bs. e = ReorgBadNonce (height (header b)) \<or> e = ReorgInsufficientBalance (height (header b)))"

lemma apply_txs_error:
  "apply_txs P s h txs ov = Inl e \<Longrightarrow> e = ReorgBadNonce h \<or> e = ReorgInsufficientBalance h"
  by (induction txs arbitrary: ov)
    (auto simp: apply_tx_def Let_def split: sum.splits if_splits)

lemma apply_blocks_error:
  "apply_blocks P gen s bs ov = Inl e \<Longrightarrow>
     \<exists>b \<in> set bs. e = ReorgBadNonce (height (header b)) \<or> e = ReorgInsufficientBalance (height (header b))"
  by (induction bs arbitrary: ov)
    (auto simp: apply_block_def Let_def dest: apply_txs_error split: sum.splits)

lemma reconsider_tip_inv:
  assumes inv: "chain_inv E gen s" and cap: "supply_capped E gen"
    and can: "canonical E gen s obs" "tx_room E gen s \<longrightarrow> ledger_replays E gen s obs"
    and tip: "tip s = Some (h0, old)"
    and br: "branch s (genesis_block_hash E gen) x bs" and h: "unat h = length bs"
  shows "(\<exists>e. reconsider_tip E gen s old x h = Some (Inl e, s) \<and> replay_error bs e \<and>
      (tx_room E gen s \<longrightarrow> spec_blocks E gen (map snd bs) (genesis_ledger E gen) = None)) \<or>
    (\<exists>cs us ns s'. reconsider_tip E gen s old x h = Some (Inr (requeued E (rev us) ns), s') \<and>
      obs = cs @ us \<and> bs = cs @ ns \<and> (us \<noteq> [] \<and> ns \<noteq> [] \<longrightarrow> hd us \<noteq> hd ns) \<and>
      chain_inv E gen s' \<and> canonical E gen s' bs \<and> get_block s' = get_block s \<and>
      get_chainwork s' = get_chainwork s \<and> tip s' = Some (h, x) \<and> mempool s' = mempool s \<and>
      (tx_room E gen s \<longrightarrow> spec_blocks E gen (map snd bs) (genesis_ledger E gen) \<noteq> None))"
proof -
  let ?g = "genesis_block_hash E gen" and ?L = "genesis_ledger E gen"
  have obr: "branch s ?g old obs" using can(1) tip by (simp add: canonical_def)
  obtain cs us ns where fp: "fork_paths s old x = Some (Inr (rev us, ns))"
    and obs: "obs = cs @ us" and bs: "bs = cs @ ns" and hd: "us \<noteq> [] \<and> ns \<noteq> [] \<longrightarrow> hd us \<noteq> hd ns"
    using fork_paths_split [OF obr br] by blast
  let ?ov = "fold (undo_block E gen s) (map snd (rev us)) Map.empty"
  have refine: "case apply_blocks E gen s (map snd ns) ?ov of
      Inl e \<Rightarrow> spec_blocks E gen (map snd bs) ?L = None
    | Inr ov \<Rightarrow> spec_blocks E gen (map snd bs) ?L = Some (read_ledger (get_acc s ov))"
    if room: "tx_room E gen s"
  proof -
    note facts = genesis_ledger_facts [where P = E and gen = gen]
    have "tx_count (map snd bs) < 2 ^ 64" using room br by (auto simp: tx_room_def)
    then have "nonces_within (tx_count (map snd cs @ map snd ns)) ?L" using facts(3) by (simp add: bs)
    moreover have "spec_blocks E gen (map snd cs @ map snd us) ?L = Some (read_ledger (get_account s))"
      using can(2) room by (simp add: obs ledger_replays_def)
    ultimately show ?thesis
      unfolding bs map_append rev_map [symmetric]
      using facts(1) replay_bounds [OF obr cap] replay_bounds [OF br cap]
      by (intro reorg_refines) (simp_all only: obs bs map_append)
  qed
  show ?thesis
  proof (cases "apply_blocks E gen s (map snd ns) ?ov")
    case (Inl e)
    have "reconsider_tip E gen s old x h = Some (Inl e, s)"
      by (simp add: reconsider_tip_def fp Let_def Inl)
    moreover have "replay_error bs e"
      using apply_blocks_error [OF Inl] by (auto simp: replay_error_def bs)
    ultimately show ?thesis using refine Inl by simp
  next
    case (Inr ov)
    let ?s' = "set_tip h x (index ns (unindex (rev us) (commit_overlay ov s)))"
    have rec: "reconsider_tip E gen s old x h = Some (Inr (requeued E (rev us) ns), ?s')"
      by (simp add: reconsider_tip_def fp Let_def Inr)
    have same: "get_block ?s' = get_block s" "get_chainwork ?s' = get_chainwork s"
      "tip ?s' = Some (h, x)" "mempool ?s' = mempool s" "get_account ?s' = get_acc s ov"
      by (simp_all add: commit_simps fun_eq_iff)
    have brs: "branch ?s' = branch s" by (intro ext) (rule branch_cong [OF same(1)])
    have chk: "checked E gen s y b \<Longrightarrow> checked E gen ?s' y b" for y b
      by (erule checked_mono) (simp add: same(1))
    have "block_tree E gen ?s'" "work_sums E gen ?s'"
      using inv chk by (simp_all add: chain_inv_def block_tree_def work_sums_def brs same(1,2))
    moreover have can': "canonical E gen ?s' bs"
      unfolding bs
      by (rule canonical_switch [OF can(1) [unfolded obs] br [unfolded bs] _ obr [unfolded obs] refl])
        (simp add: h bs)
    moreover have "tx_room E gen ?s' \<longrightarrow> ledger_replays E gen ?s' bs"
      using refine Inr by (simp add: tx_room_def ledger_replays_def brs same(5))
    ultimately have "chain_inv E gen ?s'" unfolding chain_inv_def by blast
    moreover have "tx_room E gen s \<longrightarrow> spec_blocks E gen (map snd bs) ?L \<noteq> None"
      using refine Inr by simp
    ultimately show ?thesis using rec obs bs hd can' same by blast
  qed
qed

section \<open>Datasets\<close>

lemma dataset_for_height_total:
  assumes "hash_sizes E" "cache_ok c"
  shows "\<exists>r c'. dataset_for_height E c h = Some (r, c') \<and> cstate c' = cstate c \<and> cgenesis c' = cgenesis c \<and>
    cache_ok c' \<and> (\<forall>ds. r = Inr ds \<longrightarrow> wf_dataset ds)"
proof -
  have build: "\<exists>ds. generate E (epoch_of h) seed = Some ds \<and> wf_dataset ds" for seed
    using generate_total [OF assms(1)] by blast
  obtain d1 where d1: "generate E (epoch_of h) (epoch_seed E None) = Some d1" "wf_dataset d1"
    using build by blast
  show ?thesis
  proof (cases "\<exists>ds. dataset_cache c = Some (epoch_of h, ds)")
    case True
    then show ?thesis using assms(2) by (auto simp: dataset_for_height_def cache_ok_def)
  next
    case miss: False
    show ?thesis
    proof (cases "epoch_of h = 0")
      case True
      then have "dataset_for_height E c h = Some (Inr d1, c\<lparr>dataset_cache := Some (epoch_of h, d1)\<rparr>)"
        using miss d1 by (cases "dataset_cache c") (auto simp: dataset_for_height_def Let_def)
      then show ?thesis using d1 by (simp add: cache_ok_def)
    next
      case nz: False
      show ?thesis
      proof (cases "get_hash_by_height (cstate c) (epoch_of h * EPOCH_LENGTH)")
        case None
        then have "dataset_for_height E c h = Some (Inl (EpochBoundaryMissing (epoch_of h * EPOCH_LENGTH)), c)"
          using nz miss by (cases "dataset_cache c") (auto simp: dataset_for_height_def Let_def)
        then show ?thesis using assms(2) by simp
      next
        case (Some x)
        obtain d2 where d2: "generate E (epoch_of h) (epoch_seed E (Some x)) = Some d2" "wf_dataset d2"
          using build by blast
        with Some nz miss have
          "dataset_for_height E c h = Some (Inr d2, c\<lparr>dataset_cache := Some (epoch_of h, d2)\<rparr>)"
          by (cases "dataset_cache c") (auto simp: dataset_for_height_def Let_def)
        then show ?thesis using d2 by (simp add: cache_ok_def)
      qed
    qed
  qed
qed

lemma dataset_for_height_error:
  assumes "dataset_for_height E c h = Some (Inl e, c')"
  shows "e = EpochBoundaryMissing (epoch_of h * EPOCH_LENGTH) \<and>
    get_hash_by_height (cstate c) (epoch_of h * EPOCH_LENGTH) = None"
  using assms by (auto simp: dataset_for_height_def Let_def split: option.splits if_splits)

section \<open>Ancestors\<close>

lemma ancestor_branch:
  "branch s g x bs \<Longrightarrow> get_block s x = Some b \<Longrightarrow> n \<le> length bs \<Longrightarrow>
     \<exists>y a. branch s g y (take (length bs - n) bs) \<and> get_block s y = Some a \<and> block_ancestor s b n = Some a"
proof (induction n arbitrary: x b bs)
  case 0
  then show ?case by auto
next
  case (Suc n)
  from Suc.prems(1,3) obtain b' bs' where bs: "bs = bs' @ [(x, b')]"
    and par: "branch s g (prev_hash (header b')) bs'" and b': "get_block s x = Some b'"
    by (cases rule: branch.cases) auto
  obtain p where p: "get_block s (prev_hash (header b')) = Some p" using branch_stored [OF par] by blast
  from Suc.IH [OF par p] Suc.prems b' p show ?case by (simp add: bs)
qed

lemma difficulty_due_defined:
  assumes "branch s g x bs" "get_block s x = Some p"
  shows "\<exists>d. difficulty_due gen s p = Inr d"
proof -
  let ?w = "max (retarget_window gen) 1"
  show ?thesis
  proof (cases "height (header p) + 1 \<le> ?w")
    case True
    then show ?thesis by (simp add: difficulty_due_def expected_difficulty_after_def Let_def)
  next
    case False
    then have "height (header p) + 1 \<noteq> 0" by auto
    then have "unat (height (header p) + 1) = Suc (length bs)"
      using unatSuc [of "height (header p)"] branch_height [OF assms] by (simp add: add.commute)
    then have "unat ?w \<le> length bs" using False by (simp add: word_le_nat_alt)
    from ancestor_branch [OF assms this] False show ?thesis
      by (auto simp: difficulty_due_def expected_difficulty_after_def Let_def)
  qed
qed

section \<open>What a submission does\<close>

text \<open>
  The specification of \<open>submit_block\<close>: a refused block changes nothing, a stored block extends the
  tree, and the canonical branch moves to it exactly when it has more work and replays.
\<close>

definition stores :: "'a env_scheme \<Rightarrow> genesis_config \<Rightarrow> chain_state \<Rightarrow> hash256 \<Rightarrow> block \<Rightarrow> block_chain \<Rightarrow> chain_state \<Rightarrow> bool" where
  "stores E gen s x b bs s' \<longleftrightarrow>
     get_block s x = None \<and> get_block s' = (get_block s)(x \<mapsto> b) \<and> checked E gen s x b \<and>
     branch s' (genesis_block_hash E gen) x bs \<and> unat (height (header b)) = length bs \<and>
     map_option unat (get_chainwork s' x) = Some (branch_work gen bs) \<and> mempool s' = mempool s"

definition same_tip :: "chain_state \<Rightarrow> chain_state \<Rightarrow> bool" where
  "same_tip s s' \<longleftrightarrow> tip s' = tip s \<and> get_account s' = get_account s \<and> get_hash_by_height s' = get_hash_by_height s"

text \<open>Every error with the reason it is given for, and no other error.\<close>

inductive refusal :: "'a env_scheme \<Rightarrow> genesis_config \<Rightarrow> chain_state \<Rightarrow> block \<Rightarrow> chain_error \<Rightarrow> bool"
  for E :: "'a env_scheme" and gen :: genesis_config and s :: chain_state and b :: block where
  "height (header b) = 0 \<Longrightarrow> refusal E gen s b SecondGenesis"
| "k = epoch_of (height (header b)) * EPOCH_LENGTH \<Longrightarrow> get_hash_by_height s k = None \<Longrightarrow>
    refusal E gen s b (EpochBoundaryMissing k)"
| "tx_root (header b) \<noteq> compute_tx_root E b \<Longrightarrow> refusal E gen s b InvalidTxRoot"
| "header_id E (header b) ds = Some x \<Longrightarrow> \<not> meets_target x (target_for_difficulty (difficulty (header b))) \<Longrightarrow>
    refusal E gen s b PowBelowTarget"
| "tx \<in> set (transactions b) \<Longrightarrow> \<not> is_signature_valid E tx \<Longrightarrow> refusal E gen s b InvalidTxSignature"
| "get_block s (prev_hash (header b)) = Some p \<Longrightarrow> height (header p) + 1 \<noteq> height (header b) \<Longrightarrow>
    refusal E gen s b (HeightMismatch (height (header b)) (height (header p)))"
| "get_block s (prev_hash (header b)) = Some p \<Longrightarrow> difficulty_due gen s p = Inr d \<Longrightarrow>
    d \<noteq> difficulty (header b) \<Longrightarrow> refusal E gen s b (WrongDifficulty (difficulty (header b)) d)"

inductive submit_effect ::
    "'a env_scheme \<Rightarrow> genesis_config \<Rightarrow> chain_state \<Rightarrow> block \<Rightarrow> chain_error + submit_outcome \<Rightarrow> chain_state \<Rightarrow> bool"
  for E :: "'a env_scheme" and gen :: genesis_config where
  refused: "refusal E gen s b e \<Longrightarrow> submit_effect E gen s b (Inl e) s"
| known: "get_block s x = Some b' \<Longrightarrow> header_id E (header b) ds = Some x \<Longrightarrow>
    submit_effect E gen s b (Inr AlreadyKnown) s"
| orphan: "get_block s (prev_hash (header b)) = None \<Longrightarrow>
    submit_effect E gen s b (Inr (Orphan (prev_hash (header b)))) s"
| side: "stores E gen s x b bs s' \<Longrightarrow> canonical E gen s obs \<Longrightarrow> branch_work gen bs \<le> branch_work gen obs \<Longrightarrow>
    same_tip s s' \<Longrightarrow> submit_effect E gen s b (Inr (SideBranch x (height (header b)))) s'"
| unreplayable: "stores E gen s x b bs s' \<Longrightarrow> canonical E gen s obs \<Longrightarrow> branch_work gen obs < branch_work gen bs \<Longrightarrow>
    tx_room E gen s' \<longrightarrow> spec_blocks E gen (map snd bs) (genesis_ledger E gen) = None \<Longrightarrow>
    same_tip s s' \<Longrightarrow> replay_error bs e \<Longrightarrow> submit_effect E gen s b (Inl e) s'"
| accepted: "stores E gen s x b (cs @ ns) s' \<Longrightarrow> canonical E gen s (cs @ us) \<Longrightarrow>
    us \<noteq> [] \<and> ns \<noteq> [] \<longrightarrow> hd us \<noteq> hd ns \<Longrightarrow>
    branch_work gen (cs @ us) < branch_work gen (cs @ ns) \<Longrightarrow>
    tx_room E gen s' \<longrightarrow> spec_blocks E gen (map snd (cs @ ns)) (genesis_ledger E gen) \<noteq> None \<Longrightarrow>
    tip s' = Some (height (header b), x) \<Longrightarrow> canonical E gen s' (cs @ ns) \<Longrightarrow>
    reorged \<longleftrightarrow> tip s \<noteq> Some (height (header b) - 1, prev_hash (header b)) \<Longrightarrow>
    submit_effect E gen s b
      (Inr (Accepted x (height (header b)) reorged (requeued E (rev us) ns))) s'"

inductive_cases submit_effect_Accepted: "submit_effect E gen s b (Inr (Accepted x h re rq)) s'"
inductive_cases submit_effect_SideBranch: "submit_effect E gen s b (Inr (SideBranch x h)) s'"
inductive_cases submit_effect_Inl: "submit_effect E gen s b (Inl e) s'"

lemma canonical_unique: "canonical E gen s bs \<Longrightarrow> canonical E gen s cs \<Longrightarrow> bs = cs"
  by (auto simp: canonical_def dest: branch_unique)

lemma tip_height_of_hash:
  assumes "canonical E gen s obs" "tip s = Some (h0, x)" "get_block s x = Some p"
  shows "h0 = height (header p)"
  using assms branch_height by (fastforce simp: canonical_def word_unat_eq_iff)

lemma submit_on_parent_effect:
  assumes inv: "chain_inv E (cgenesis c) (cstate c)" and cap: "supply_capped E (cgenesis c)"
    and fresh: "get_block (cstate c) x = None"
    and p: "get_block (cstate c) (prev_hash (header b)) = Some p"
    and pos: "0 < height (header b)"
    and chk: "tx_root (header b) = compute_tx_root E b" "meets_target x (target_for_difficulty (difficulty (header b)))"
      "list_all (is_signature_valid E) (transactions b)" "wf_dataset ds" "header_id E (header b) ds = Some x"
  shows "\<exists>r c'. submit_on_parent E c b x p = Some (r, c') \<and> chain_inv E (cgenesis c) (cstate c') \<and>
    cgenesis c' = cgenesis c \<and> dataset_cache c' = dataset_cache c \<and>
    submit_effect E (cgenesis c) (cstate c) b r (cstate c') \<and>
    (height (header p) + 1 = height (header b) \<and> expected_difficulty_after c p = Inr (difficulty (header b))
      \<longrightarrow> get_block (cstate c') x = Some b)"
proof -
  let ?gen = "cgenesis c" and ?s = "cstate c" and ?hd = "header b"
  let ?g = "genesis_block_hash E ?gen"
  show ?thesis
  proof (cases "height (header p) + 1 = height ?hd \<and> expected_difficulty_after c p = Inr (difficulty ?hd)")
    case False
    obtain pbs where "branch ?s ?g (prev_hash ?hd) pbs"
      using inv p unfolding chain_inv_def block_tree_def by blast
    from difficulty_due_defined [OF this p] obtain d where d: "difficulty_due ?gen ?s p = Inr d" by blast
    then have d': "expected_difficulty_after c p = Inr d" by (simp add: difficulty_due_chain)
    show ?thesis
    proof (cases "height (header p) + 1 = height ?hd")
      case True
      with False d' have "d \<noteq> difficulty ?hd" by simp
      with True d' show ?thesis using inv submit_effect.refused [OF refusal.intros(7) [OF p d]]
        by (auto simp: submit_on_parent_def Let_def)
    next
      case False
      then show ?thesis using inv submit_effect.refused [OF refusal.intros(6) [OF p False]]
        by (auto simp: submit_on_parent_def Let_def)
    qed
  next
    case True
    obtain pbs where "branch ?s ?g (prev_hash ?hd) pbs"
      using inv p unfolding chain_inv_def block_tree_def by blast
    then obtain w where w: "get_chainwork ?s (prev_hash ?hd) = Some w"
      using inv by (auto simp: chain_inv_def work_sums_def)
    let ?tw = "w + block_work (difficulty ?hd)"
    define s1 where "s1 = set_chainwork x ?tw (store_block x b ?s)"
    have chkd: "checked E ?gen ?s x b"
      using chk p True by (auto simp: checked_def difficulty_due_chain)
    from store_inv [OF inv fresh p _ pos w chkd s1_def] True obtain bs where
      inv1: "chain_inv E ?gen s1" and bs: "branch s1 ?g x bs" "unat ?tw = branch_work ?gen bs" by auto
    have bx: "get_block s1 x = Some b" by (simp add: s1_def state_simps)
    have len: "unat (height ?hd) = length bs" by (rule branch_height [OF bs(1) bx])
    have st: "stores E ?gen ?s x b bs s'"
      if "get_block s' = get_block s1" "get_chainwork s' = get_chainwork s1" "mempool s' = mempool s1" for s'
    proof -
      have "branch s' ?g x bs" using bs(1) branch_cong [OF that(1)] by simp
      moreover have "get_block s1 = (get_block ?s)(x \<mapsto> b)" by (auto simp: s1_def state_simps)
      ultimately show ?thesis
        using that fresh chkd bs(2) len by (simp add: stores_def) (simp add: s1_def state_simps)
    qed
    have same: "same_tip ?s s1" by (auto simp: same_tip_def s1_def state_simps)
    obtain obs where can1: "canonical E ?gen s1 obs" and led: "tx_room E ?gen s1 \<longrightarrow> ledger_replays E ?gen s1 obs"
      using inv1 by (auto simp: chain_inv_def)
    obtain h0 old where tip1: "tip s1 = Some (h0, old)" and obr: "branch s1 ?g old obs"
      using can1 by (auto simp: canonical_def)
    have sub: "get_block ?s y = Some k \<Longrightarrow> get_block s1 y = Some k" for y k
      using fresh by (auto simp: s1_def state_simps)
    obtain obs' where can: "canonical E ?gen ?s obs'" using inv by (auto simp: chain_inv_def)
    have "branch s1 ?g old obs'"
      using can tip1 branch_mono [OF _ sub] by (auto simp: canonical_def s1_def state_simps)
    then have can: "canonical E ?gen ?s obs" using can branch_unique [OF obr] by simp
    have tip: "tip ?s = Some (h0, old)" using tip1 by (simp add: s1_def state_simps)
    obtain otw where otw: "get_chainwork s1 old = Some otw" "unat otw = branch_work ?gen obs"
      using inv1 obr by (fastforce simp: chain_inv_def work_sums_def)
    show ?thesis
    proof (cases "otw < ?tw")
      case False
      have "submit_on_parent E c b x p = Some (Inr (SideBranch x (height ?hd)), c\<lparr>cstate := s1\<rparr>)"
        using True w tip1 otw(1) False by (simp add: submit_on_parent_def Let_def s1_def)
      moreover have "submit_effect E ?gen ?s b (Inr (SideBranch x (height ?hd))) s1"
        using False bs(2) otw(2)
        by (intro submit_effect.side [OF st can _ same]) (simp_all add: word_less_nat_alt)
      ultimately show ?thesis using inv1 bx by simp
    next
      case heavier: True
      then have gt: "branch_work ?gen obs < branch_work ?gen bs"
        using bs(2) otw(2) by (simp add: word_less_nat_alt)
      from reconsider_tip_inv [OF inv1 cap can1 led tip1 bs(1) len] show ?thesis
      proof (elim disjE exE conjE)
        fix e assume rec: "reconsider_tip E ?gen s1 old x (height ?hd) = Some (Inl e, s1)"
          and err: "replay_error bs e"
          and bad: "tx_room E ?gen s1 \<longrightarrow> spec_blocks E ?gen (map snd bs) (genesis_ledger E ?gen) = None"
        have "submit_on_parent E c b x p = Some (Inl e, c\<lparr>cstate := s1\<rparr>)"
          using True w tip1 otw(1) heavier rec by (simp add: submit_on_parent_def Let_def s1_def)
        moreover have "submit_effect E ?gen ?s b (Inl e) s1"
          by (rule submit_effect.unreplayable [OF st can gt bad same err]) simp_all
        ultimately show ?thesis using inv1 bx by simp
      next
        fix cs us ns s2
        assume rec: "reconsider_tip E ?gen s1 old x (height ?hd) = Some (Inr (requeued E (rev us) ns), s2)"
          and eq: "obs = cs @ us" "bs = cs @ ns" and hd: "us \<noteq> [] \<and> ns \<noteq> [] \<longrightarrow> hd us \<noteq> hd ns"
          and inv2: "chain_inv E ?gen s2" and can2: "canonical E ?gen s2 bs"
          and f: "get_block s2 = get_block s1" "get_chainwork s2 = get_chainwork s1"
            "tip s2 = Some (height ?hd, x)" "mempool s2 = mempool s1"
          and good: "tx_room E ?gen s1 \<longrightarrow> spec_blocks E ?gen (map snd bs) (genesis_ledger E ?gen) \<noteq> None"
        have sub: "submit_on_parent E c b x p =
            Some (Inr (Accepted x (height ?hd) (old \<noteq> prev_hash ?hd) (requeued E (rev us) ns)), c\<lparr>cstate := s2\<rparr>)"
          using True w tip1 otw(1) heavier rec by (simp add: submit_on_parent_def Let_def s1_def)
        have re: "old \<noteq> prev_hash ?hd \<longleftrightarrow> tip ?s \<noteq> Some (height ?hd - 1, prev_hash ?hd)"
          using tip_height_of_hash [OF can tip] p True tip by (auto simp: eq_diff_eq)
        have good2: "tx_room E ?gen s2 \<longrightarrow> spec_blocks E ?gen (map snd bs) (genesis_ledger E ?gen) \<noteq> None"
          using good branch_cong [OF f(1)] by (simp add: tx_room_def)
        have "submit_effect E ?gen ?s b
            (Inr (Accepted x (height ?hd) (old \<noteq> prev_hash ?hd) (requeued E (rev us) ns))) s2"
          using st [OF f(1,2,4)] can hd gt good2 f(3) can2 re unfolding eq
          by (intro submit_effect.accepted)
        then show ?thesis using sub inv2 bx f(1) by simp
      qed
    qed
  qed
qed

lemma submit_block_effect:
  assumes inv: "chain_inv E (cgenesis c) (cstate c)" and cap: "supply_capped E (cgenesis c)"
    and hs: "hash_sizes E" and cache: "cache_ok c"
  shows "\<exists>r c'. submit_block E c b = Some (r, c') \<and> chain_inv E (cgenesis c) (cstate c') \<and>
    cgenesis c' = cgenesis c \<and> cache_ok c' \<and>
    submit_effect E (cgenesis c) (cstate c) b r (cstate c')"
proof (cases "0 < height (header b)")
  case False
  then show ?thesis using inv cache
    by (auto simp: submit_block_def Let_def word_gt_0
        intro!: submit_effect.refused refusal.intros(1))
next
  case pos: True
  obtain r1 c1 where ds: "dataset_for_height E c (height (header b)) = Some (r1, c1)"
    and c1: "cstate c1 = cstate c" "cgenesis c1 = cgenesis c" "cache_ok c1" "\<forall>ds. r1 = Inr ds \<longrightarrow> wf_dataset ds"
    using dataset_for_height_total [OF hs cache] by blast
  show ?thesis
  proof (cases r1)
    case (Inl e)
    then have "refusal E (cgenesis c) (cstate c) b e"
      using dataset_for_height_error [OF ds [unfolded Inl]] by (auto intro: refusal.intros(2))
    with Inl show ?thesis using pos ds c1 inv
      by (auto simp: submit_block_def Let_def intro: submit_effect.refused)
  next
    case (Inr d)
    then obtain x where x: "header_id E (header b) d = Some x"
      using ondris_hash_total [OF hs] c1(4) unfolding header_id_def ondris_hash_def by blast
    note sb = submit_block_def Let_def pos ds Inr x
    consider (known) "has_block (cstate c) x"
      | (bad) "\<not> has_block (cstate c) x" "\<not> (tx_root (header b) = compute_tx_root E b \<and>
          meets_target x (target_for_difficulty (difficulty (header b))) \<and>
          list_all (is_signature_valid E) (transactions b))"
      | (good) "\<not> has_block (cstate c) x" "tx_root (header b) = compute_tx_root E b"
          "meets_target x (target_for_difficulty (difficulty (header b)))"
          "list_all (is_signature_valid E) (transactions b)" by blast
    then show ?thesis
    proof cases
      case known
      then obtain b' where "get_block (cstate c) x = Some b'" by (auto simp: has_block_iff)
      from submit_effect.known [OF this x] known show ?thesis
        using inv c1 by (simp add: sb)
    next
      case bad
      then show ?thesis using inv c1
        by (auto simp: sb list_all_iff intro!: submit_effect.refused intro: refusal.intros(3-5) x)
    next
      case good
      show ?thesis
      proof (cases "get_block (cstate c) (prev_hash (header b))")
        case None
        with good show ?thesis using inv c1 by (simp add: sb submit_effect.orphan)
      next
        case (Some p)
        have fr: "get_block (cstate c1) x = None" using good(1) c1(1) by (simp add: has_block_iff)
        from submit_on_parent_effect [of E c1 x b p d] inv cap fr Some pos good c1 Inr x
        obtain r c' where "submit_on_parent E c1 b x p = Some (r, c')" "chain_inv E (cgenesis c) (cstate c')"
          "cgenesis c' = cgenesis c" "dataset_cache c' = dataset_cache c1"
          "submit_effect E (cgenesis c) (cstate c) b r (cstate c')" by auto
        then show ?thesis using good Some c1 by (simp add: sb cache_ok_def)
      qed
    qed
  qed
qed

section \<open>When a submission succeeds\<close>

lemma submit_block_stored:
  assumes inv: "chain_inv E (cgenesis c) (cstate c)" and cap: "supply_capped E (cgenesis c)"
    and pos: "0 < height (header b)"
    and ds: "dataset_for_height E c (height (header b)) = Some (Inr ds, c1)" "cstate c1 = cstate c"
      "cgenesis c1 = cgenesis c" "wf_dataset ds" "header_id E (header b) ds = Some x"
    and fresh: "get_block (cstate c) x = None"
    and p: "get_block (cstate c) (prev_hash (header b)) = Some p" "height (header p) + 1 = height (header b)"
      "expected_difficulty_after c p = Inr (difficulty (header b))"
    and chk: "tx_root (header b) = compute_tx_root E b" "meets_target x (target_for_difficulty (difficulty (header b)))"
      "list_all (is_signature_valid E) (transactions b)"
  shows "\<exists>r c'. submit_block E c b = Some (r, c') \<and> submit_effect E (cgenesis c) (cstate c) b r (cstate c') \<and>
    get_block (cstate c') x = Some b"
proof -
  have "expected_difficulty_after c1 p = Inr (difficulty (header b))"
    using p(3) ds(2,3) by (metis difficulty_due_chain)
  with submit_on_parent_effect [of E c1 x b p ds] assms obtain r c' where
    "submit_on_parent E c1 b x p = Some (r, c')" "submit_effect E (cgenesis c) (cstate c) b r (cstate c')"
    "get_block (cstate c') x = Some b" by auto
  moreover have "submit_block E c b = submit_on_parent E c1 b x p"
    using pos ds fresh p(1) chk by (simp add: submit_block_def Let_def has_block_iff)
  ultimately show ?thesis by simp
qed

text \<open>What becomes of a block that is stored, by its branch \<open>bs\<close> and the canonical one \<open>obs\<close>.\<close>

definition stored_outcome ::
    "'a env_scheme \<Rightarrow> genesis_config \<Rightarrow> chain_state \<Rightarrow> block_chain \<Rightarrow> hash256 \<Rightarrow> block \<Rightarrow> block_chain \<Rightarrow>
       chain_error + submit_outcome \<Rightarrow> chain_state \<Rightarrow> bool" where
  "stored_outcome E gen s obs x b bs r s' \<longleftrightarrow>
     (if branch_work gen bs \<le> branch_work gen obs then r = Inr (SideBranch x (height (header b))) \<and> same_tip s s'
      else (\<exists>e. r = Inl e \<and> same_tip s s' \<and> replay_error bs e \<and>
             (tx_room E gen s' \<longrightarrow> spec_blocks E gen (map snd bs) (genesis_ledger E gen) = None)) \<or>
           (\<exists>cs us ns re. r = Inr (Accepted x (height (header b)) re (requeued E (rev us) ns)) \<and>
             obs = cs @ us \<and> bs = cs @ ns \<and> (us \<noteq> [] \<and> ns \<noteq> [] \<longrightarrow> hd us \<noteq> hd ns) \<and>
             (re \<longleftrightarrow> tip s \<noteq> Some (height (header b) - 1, prev_hash (header b))) \<and>
             tip s' = Some (height (header b), x) \<and> canonical E gen s' bs \<and>
             (tx_room E gen s' \<longrightarrow> spec_blocks E gen (map snd bs) (genesis_ledger E gen) \<noteq> None)))"

lemma submit_effect_stored:
  assumes eff: "submit_effect E gen s b r s'" and new: "get_block s x = None" "get_block s' x = Some b"
    and can: "canonical E gen s obs"
  shows "\<exists>bs. stores E gen s x b bs s' \<and> stored_outcome E gen s obs x b bs r s'"
proof -
  have same: "y = x" if "stores E gen s y b' bs s'" for y b' bs
    using that new by (auto simp: stores_def split: if_splits)
  from eff show ?thesis
  proof (cases rule: submit_effect.cases)
    case (side y bs obs')
    with same canonical_unique [OF can] show ?thesis by (auto simp: stored_outcome_def)
  next
    case (unreplayable y bs obs' e)
    with same [OF unreplayable(2)] canonical_unique [OF can] show ?thesis
      by (intro exI [of _ bs]) (auto simp: stored_outcome_def)
  next
    case (accepted y cs ns us re)
    have yx: "y = x" by (rule same [OF accepted(2)])
    have "obs = cs @ us" by (rule canonical_unique [OF can accepted(3)])
    then show ?thesis using accepted yx by (intro exI [of _ "cs @ ns"]) (auto simp: stored_outcome_def)
  qed (use new in auto)
qed

end
