(* ===== verification/Chain_Runs.thy ===== *)
theory Chain_Runs
  imports Fork_Choice
begin

text \<open>
  What holds on every run of the chain: the invariant, by rule induction over \<open>reachable\<close>, and
  from it the properties of \<open>submit_block\<close>, \<open>work_template\<close> and \<open>chain_open\<close> on
  reachable states, the supply, the fork choice, the difficulty of a template, and the height at
  which every run stops.
\<close>

section \<open>The pending transactions\<close>

lemma submit_effect_mempool: "submit_effect E gen s b r s' \<Longrightarrow> mempool s' = mempool s"
  by (cases rule: submit_effect.cases) (auto simp: stores_def)

lemma mempool_ok_insert: "mempool_ok E s \<Longrightarrow> mempool_ok E (mempool_insert E tx s)"
  using pending.entries_insert [of "mempool s" "tx_hash E tx" tx]
  by (auto simp: mempool_ok_def state_simps pending.invar_insert)

lemma mempool_ok_remove: "mempool_ok E s \<Longrightarrow> mempool_ok E (mempool_remove h s)"
  using pending.entries_remove [of "mempool s" h]
  by (auto simp: mempool_ok_def state_simps pending.invar_remove)

section \<open>Templates\<close>

lemma work_template_effect:
  assumes "hash_sizes E" "cache_ok c"
  shows "\<exists>r c'. work_template E now c a txs = Some (r, c') \<and> cstate c' = cstate c \<and>
    cgenesis c' = cgenesis c \<and> cache_ok c'"
proof (cases "tip (cstate c)")
  case None
  then show ?thesis using assms(2) by (simp add: work_template_def)
next
  case (Some hx)
  obtain h x where hx: "hx = (h, x)" by (cases hx)
  obtain r1 c1 where "dataset_for_height E c (h + 1) = Some (r1, c1)" "cstate c1 = cstate c"
    "cgenesis c1 = cgenesis c" "cache_ok c1"
    using dataset_for_height_total [OF assms] by blast
  then show ?thesis by (cases r1; cases "compute_next_difficulty c1 (h + 1)")
      (simp_all add: work_template_def Some hx)
qed

section \<open>The invariant on every run\<close>

lemma reachable_all:
  assumes "reachable E gen c" "hash_sizes E" "supply_capped E gen"
  shows "chain_inv E gen (cstate c) \<and> cgenesis c = gen \<and> cache_ok c \<and> mempool_ok E (cstate c)"
  using assms(1)
proof (induction rule: reachable.induct)
  case (opened c)
  from chain_open_fresh [OF opened assms(3)] show ?case .
next
  case (reopened c c')
  then have "c' = \<lparr>cstate = cstate c, cgenesis = gen, dataset_cache = None\<rparr>"
    using chain_open_again [of "cstate c" E gen] chain_inv_tip [of E gen "cstate c"] by simp
  with reopened show ?case by (simp add: cache_ok_def)
next
  case (submitted c b r c')
  from submit_block_effect [of E c b] submitted assms(2,3) have
    "chain_inv E gen (cstate c')" "cgenesis c' = gen" "cache_ok c'"
    and eff: "submit_effect E gen (cstate c) b r (cstate c')" by auto
  then show ?case using submitted.IH submit_effect_mempool [OF eff] by (simp add: mempool_ok_def)
next
  case (templated c now a txs r c')
  with work_template_effect [OF assms(2), of c now a txs] show ?case by auto
next
  case (pending_added c tx)
  then show ?case by (simp add: mempool_ok_insert cache_ok_def)
next
  case (pending_dropped c h)
  then show ?case by (simp add: mempool_ok_remove cache_ok_def)
qed

lemmas reachable_inv = reachable_all [THEN conjunct1]
lemmas reachable_gen = reachable_all [THEN conjunct2, THEN conjunct1]
lemmas reachable_cache = reachable_all [THEN conjunct2, THEN conjunct2, THEN conjunct1]

lemma reachable_submit:
  assumes "reachable E gen c" "hash_sizes E" "supply_capped E gen"
  shows "\<exists>r c'. submit_block E c b = Some (r, c') \<and> reachable E gen c' \<and>
    submit_effect E gen (cstate c) b r (cstate c')"
  using submit_block_effect [of E c b] reachable_all [OF assms] assms
  by (metis reachable.submitted)

section \<open>The end of every run\<close>

definition first_epoch :: "'a env_scheme \<Rightarrow> chain \<Rightarrow> bool" where
  "first_epoch E c \<longleftrightarrow>
     (\<forall>x b. get_block (cstate c) x = Some b \<longrightarrow> height (header b) < EPOCH_LENGTH) \<and>
     (\<forall>e ds. dataset_cache c = Some (e, ds) \<longrightarrow> e = 0 \<and> generate E 0 (epoch_seed E None) = Some ds)"

lemma unat_numeral_2048: "unat (2048 :: u64) = 2048"
  by simp

lemma epoch_of_zero: "epoch_of h = 0 \<longleftrightarrow> h < EPOCH_LENGTH"
proof -
  have "epoch_of h = 0 \<longleftrightarrow> unat h div 2048 = 0"
    by (simp add: epoch_of_def EPOCH_LENGTH_def unat_eq_0 [symmetric] unat_div)
  then show ?thesis by (simp add: EPOCH_LENGTH_def word_less_nat_alt div_eq_0_iff)
qed

lemma boundary_height:
  assumes "\<not> h < EPOCH_LENGTH"
  shows "2048 \<le> unat (epoch_of h * EPOCH_LENGTH)"
proof -
  have e: "unat (epoch_of h) = unat h div 2048" by (simp add: epoch_of_def EPOCH_LENGTH_def unat_div)
  have "unat (epoch_of h) * unat EPOCH_LENGTH \<le> unat h"
    by (simp add: e EPOCH_LENGTH_def)
  then have "unat (epoch_of h * EPOCH_LENGTH) = unat h div 2048 * 2048"
    using unat_less_pow [of h] by (simp add: unat_mult_bounded e) (simp add: EPOCH_LENGTH_def)
  moreover have "1 \<le> unat h div 2048"
    using assms div_le_mono [of 2048 "unat h" 2048] by (simp add: EPOCH_LENGTH_def word_less_nat_alt)
  ultimately show ?thesis by linarith
qed

lemma first_epoch_dataset:
  assumes inv: "chain_inv E gen (cstate c)" and fe: "first_epoch E c"
  shows "dataset_for_height E c h =
    (if h < EPOCH_LENGTH
     then case generate E 0 (epoch_seed E None) of
            None \<Rightarrow> None
          | Some ds \<Rightarrow> Some (Inr ds, c\<lparr>dataset_cache := Some (0, ds)\<rparr>)
     else Some (Inl (EpochBoundaryMissing (epoch_of h * EPOCH_LENGTH)), c))"
proof -
  have same: "dataset_cache c = Some (0, ds) \<Longrightarrow> c\<lparr>dataset_cache := Some (0, ds)\<rparr> = c" for ds
    by (cases c) simp
  show ?thesis
  proof (cases "h < EPOCH_LENGTH")
    case True
    then show ?thesis using fe same
      by (cases "dataset_cache c")
        (auto simp: dataset_for_height_def Let_def first_epoch_def epoch_of_zero [symmetric])
  next
    case False
    then have e: "epoch_of h \<noteq> 0" by (simp add: epoch_of_zero)
    obtain bs h0 x where can: "canonical E gen (cstate c) bs" "tip (cstate c) = Some (h0, x)"
      "branch (cstate c) (genesis_block_hash E gen) x bs"
      using inv by (auto simp: chain_inv_def canonical_def)
    obtain b where "get_block (cstate c) x = Some b" "unat (height (header b)) = length bs"
      using branch_stored [OF can(3)] by blast
    then have "length bs < 2048" using fe unfolding first_epoch_def EPOCH_LENGTH_def word_less_nat_alt
      by (metis unat_numeral_2048)
    moreover note boundary_height [OF False]
    moreover have "unat (epoch_of h * EPOCH_LENGTH) \<noteq> 0" using calculation by linarith
    ultimately have "get_hash_by_height (cstate c) (epoch_of h * EPOCH_LENGTH) = None"
      using can(1) by (auto simp: canonical_def unat_eq_0)
    then show ?thesis using False e fe
      by (cases "dataset_cache c") (auto simp: dataset_for_height_def Let_def first_epoch_def)
  qed
qed

lemma submit_above_first_epoch:
  assumes "chain_inv E gen (cstate c)" "first_epoch E c" "\<not> height (header b) < EPOCH_LENGTH"
  shows "submit_block E c b = Some (Inl (EpochBoundaryMissing (epoch_of (height (header b)) * EPOCH_LENGTH)), c)"
proof -
  have "0 < height (header b)" using assms(3) by (auto simp: EPOCH_LENGTH_def word_gt_0)
  then show ?thesis
    by (simp add: submit_block_def Let_def first_epoch_dataset [OF assms(1,2)] assms(3))
qed

lemma submit_on_parent_cache:
  "submit_on_parent E c b x p = Some (r, c') \<Longrightarrow> dataset_cache c' = dataset_cache c"
  by (auto simp: submit_on_parent_def Let_def split: if_splits sum.splits option.splits prod.splits)

lemma submit_block_cache:
  assumes "submit_block E c b = Some (r, c')"
  shows "c' = c \<or> (\<exists>r1 c1. dataset_for_height E c (height (header b)) = Some (r1, c1) \<and>
    dataset_cache c' = dataset_cache c1)"
  using assms
  by (auto simp: submit_block_def Let_def dest!: submit_on_parent_cache
      split: if_splits sum.splits option.splits prod.splits)

lemma submit_effect_blocks:
  "submit_effect E gen s b r s' \<Longrightarrow> get_block s' y = Some b' \<Longrightarrow> get_block s y = Some b' \<or> b' = b"
  by (cases rule: submit_effect.cases) (auto simp: stores_def split: if_splits)

lemma first_epoch_submit:
  assumes inv: "chain_inv E gen (cstate c)" and gen: "cgenesis c = gen" and cap: "supply_capped E gen"
    and hs: "hash_sizes E" and cache: "cache_ok c" and fe: "first_epoch E c"
    and sub: "submit_block E c b = Some (r, c')"
  shows "first_epoch E c'"
proof (cases "height (header b) < EPOCH_LENGTH")
  case False
  with submit_above_first_epoch [OF inv fe] sub fe show ?thesis by simp
next
  case True
  have eff: "submit_effect E gen (cstate c) b r (cstate c')"
    using submit_block_effect [of E c b] inv gen cap hs cache sub by auto
  have "height (header b') < EPOCH_LENGTH" if "get_block (cstate c') y = Some b'" for y b'
    using submit_effect_blocks [OF eff that] True fe by (auto simp: first_epoch_def)
  moreover have "e = 0 \<and> generate E 0 (epoch_seed E None) = Some ds"
    if "dataset_cache c' = Some (e, ds)" for e ds
    using submit_block_cache [OF sub] that fe True
    by (auto simp: first_epoch_dataset [OF inv fe] first_epoch_def split: option.splits)
  ultimately show ?thesis by (simp add: first_epoch_def)
qed

lemma work_template_cache:
  assumes "work_template E now c a txs = Some (r, c')"
  shows "c' = c \<or> (\<exists>h r1 c1. dataset_for_height E c h = Some (r1, c1) \<and> c' = c1)"
  using assms by (auto simp: work_template_def split: sum.splits option.splits prod.splits)

lemma init_genesis_blocks:
  assumes "init_genesis E gen empty_state = (Inr (), s)" "get_block s x = Some b"
  shows "b = genesis_block gen"
  using assms
  by (auto simp: init_genesis_def Let_def state_simps credit_all_fields empty_state_fields
      split: sum.splits if_splits)

lemma reachable_first_epoch:
  assumes "reachable E gen c" "hash_sizes E" "supply_capped E gen"
  shows "first_epoch E c"
  using assms(1)
proof (induction rule: reachable.induct)
  case (opened c)
  obtain r s where rs: "init_genesis E gen empty_state = (r, s)" by (cases "init_genesis E gen empty_state")
  with opened have "c = \<lparr>cstate = s, cgenesis = gen, dataset_cache = None\<rparr>"
    and "init_genesis E gen empty_state = (Inr (), s)"
    by (simp_all add: chain_open_def empty_state_fields split: sum.splits unit.splits)
  then show ?case using init_genesis_blocks by (fastforce simp: first_epoch_def EPOCH_LENGTH_def)
next
  case (reopened c c')
  then have "c' = \<lparr>cstate = cstate c, cgenesis = gen, dataset_cache = None\<rparr>"
    using chain_open_again [of "cstate c" E gen] chain_inv_tip [OF reachable_inv [OF _ assms(2,3)]]
    by simp
  with reopened.IH show ?case by (simp add: first_epoch_def)
next
  case (submitted c b r c')
  note all = reachable_all [OF submitted.hyps(1) assms(2,3)]
  show ?case
    by (rule first_epoch_submit [OF _ _ assms(3,2) _ submitted.IH submitted.hyps(2)]) (use all in simp_all)
next
  case (templated c now a txs r c')
  have eff: "cstate c' = cstate c"
    using work_template_effect [OF assms(2), of c now a txs] reachable_cache [OF templated.hyps(1) assms(2,3)]
      templated.hyps(2) by auto
  note inv = reachable_inv [OF templated.hyps(1) assms(2,3)]
  have "dataset_cache c' = dataset_cache c \<or>
      (\<exists>ds. dataset_cache c' = Some (0, ds) \<and> generate E 0 (epoch_seed E None) = Some ds)"
    using work_template_cache [OF templated.hyps(2)]
    by (auto simp: first_epoch_dataset [OF inv templated.IH] split: if_splits option.splits)
  with templated.IH eff show ?case by (auto simp: first_epoch_def)
qed (simp_all add: first_epoch_def state_simps)

section \<open>Extending the tip\<close>

text \<open>Storing a block adds one branch, its own.\<close>

lemma stores_branches:
  assumes st: "stores E gen s x b bs s'" and inv: "chain_inv E gen s"
  shows "branch s' (genesis_block_hash E gen) y cs \<longleftrightarrow> branch s (genesis_block_hash E gen) y cs \<or> y = x \<and> cs = bs"
proof -
  let ?g = "genesis_block_hash E gen"
  from inv have tree: "block_tree E gen s" by (simp add: chain_inv_def)
  from st have blk: "get_block s' = (get_block s)(x \<mapsto> b)" and new: "branch s' ?g x bs" and fresh: "get_block s x = None"
    by (auto simp: stores_def)
  obtain p where "get_block s (prev_hash (header b)) = Some p" using st by (auto simp: stores_def checked_def)
  with tree obtain pbs where pbs: "branch s ?g (prev_hash (header b)) pbs" by (auto simp: block_tree_def)
  then have up: "branch s' ?g (prev_hash (header b)) pbs" by (rule branch_mono) (use blk fresh in auto)
  from new have bs: "bs = pbs @ [(x, b)] \<and> unat (height (header b)) = Suc (length pbs)"
  proof (cases rule: branch.cases)
    case (grow b' bs')
    then have "b' = b" using blk by simp
    with grow branch_unique [OF up] show ?thesis by auto
  qed (use tree fresh in \<open>auto simp: block_tree_def\<close>)
  show ?thesis using store_block_branches [OF tree fresh pbs conjunct2 [OF bs] blk] bs by simp
qed

lemma tx_room_store:
  assumes "tx_room E gen s" "stores E gen s x b bs s'" "chain_inv E gen s" "tx_count (map snd bs) < 2 ^ 64"
  shows "tx_room E gen s'"
  using assms stores_branches [OF assms(2,3)] by (auto simp: tx_room_def)

lemma submit_checked:
  assumes reach: "reachable E gen c" "hash_sizes E" "supply_capped E gen"
    and can: "canonical E gen (cstate c) obs"
    and ds: "generate E 0 (epoch_seed E None) = Some ds" "header_id E (header b) ds = Some x"
    and fresh: "get_block (cstate c) x = None"
    and hd: "0 < height (header b)" "height (header b) < EPOCH_LENGTH"
    and p: "get_block (cstate c) (prev_hash (header b)) = Some p" "height (header p) + 1 = height (header b)"
      "expected_difficulty_after c p = Inr (difficulty (header b))"
    and chk: "tx_root (header b) = compute_tx_root E b" "meets_target x (target_for_difficulty (difficulty (header b)))"
      "list_all (is_signature_valid E) (transactions b)"
  shows "\<exists>r c' bs. submit_block E c b = Some (r, c') \<and> reachable E gen c' \<and>
    stores E gen (cstate c) x b bs (cstate c') \<and>
    stored_outcome E gen (cstate c) obs x b bs r (cstate c')"
proof -
  note all = reachable_all [OF reach]
  note inv = all [THEN conjunct1] and gen = all [THEN conjunct2, THEN conjunct1]
  have wf: "wf_dataset ds" using generate_total [OF reach(2), of 0 "epoch_seed E None"] ds(1) by auto
  have dh: "dataset_for_height E c (height (header b)) = Some (Inr ds, c\<lparr>dataset_cache := Some (0, ds)\<rparr>)"
    using first_epoch_dataset [OF inv reachable_first_epoch [OF reach]] hd ds(1) by simp
  obtain r c' where sub: "submit_block E c b = Some (r, c')" "submit_effect E gen (cstate c) b r (cstate c')"
    "get_block (cstate c') x = Some b"
    using submit_block_stored [OF _ _ hd(1) dh _ _ wf ds(2) fresh p _ _ _] inv reach(3) chk
    by (auto simp: gen)
  from submit_effect_stored [OF sub(2) fresh sub(3) can] sub(1) reachable.submitted [OF reach(1) sub(1)]
  show ?thesis by blast
qed

lemma stores_keeps:
  "stores E gen s x b bs s' \<Longrightarrow> get_block s y = Some k \<Longrightarrow> get_block s' y = Some k"
  by (auto simp: stores_def)

lemma same_tip_canonical:
  assumes "stores E gen s x b bs s'" "same_tip s s'" "canonical E gen s obs"
  shows "canonical E gen s' obs"
  using assms(2,3) branch_mono [OF _ stores_keeps [OF assms(1)]]
  by (auto simp: canonical_def same_tip_def)

lemma stored_branch:
  assumes st: "stores E gen s x b bs s'" and par: "branch s (genesis_block_hash E gen) (prev_hash (header b)) pbs"
    and h: "unat (height (header b)) = Suc (length pbs)"
  shows "bs = pbs @ [(x, b)]"
proof -
  have "branch s' (genesis_block_hash E gen) x (pbs @ [(x, b)])"
    by (rule branch.grow [OF branch_mono [OF par stores_keeps [OF st]]]) (use st h in \<open>auto simp: stores_def\<close>)
  then show ?thesis using st branch_unique by (auto simp: stores_def)
qed

text \<open>What becomes of a checked block on the tip: whether it replays decides.\<close>

lemma extend_tip_outcome:
  assumes reach: "reachable E gen c" "hash_sizes E" "supply_capped E gen"
    and can: "canonical E gen (cstate c) obs" and tip: "tip (cstate c) = Some (h, x0)"
    and ds: "generate E 0 (epoch_seed E None) = Some ds" "header_id E (header b) ds = Some x"
    and fresh: "get_block (cstate c) x = None"
    and hd: "prev_hash (header b) = x0" "height (header b) = h + 1" "h + 1 < EPOCH_LENGTH"
    and p: "get_block (cstate c) x0 = Some p" "expected_difficulty_after c p = Inr (difficulty (header b))"
    and pos: "0 < difficulty (header b)"
    and chk: "tx_root (header b) = compute_tx_root E b" "meets_target x (target_for_difficulty (difficulty (header b)))"
      "list_all (is_signature_valid E) (transactions b)"
    and room: "tx_room E gen (cstate c)" "tx_count (map snd obs @ [b]) < 2 ^ 64"
  shows "\<exists>r c'. submit_block E c b = Some (r, c') \<and> reachable E gen c' \<and>
    stores E gen (cstate c) x b (obs @ [(x, b)]) (cstate c') \<and> tx_room E gen (cstate c') \<and>
    (if spec_blocks E gen (map snd obs @ [b]) (genesis_ledger E gen) = None
     then same_tip (cstate c) (cstate c') \<and> (\<exists>e. r = Inl e \<and> replay_error (obs @ [(x, b)]) e)
     else canonical E gen (cstate c') (obs @ [(x, b)]) \<and> r = Inr (Accepted x (h + 1) False []))"
proof -
  let ?g = "genesis_block_hash E gen" and ?s = "cstate c"
  note inv = reachable_inv [OF reach]
  have obr: "branch ?s ?g x0 obs" and h: "unat h = length obs" using can tip by (auto simp: canonical_def)
  have ph: "height (header p) = h" using branch_height [OF obr p(1)] h by (simp add: word_unat_eq_iff)
  have lt: "unat h + 1 < 2048"
  proof -
    have "height (header p) < EPOCH_LENGTH"
      using reachable_first_epoch [OF reach] p(1) by (auto simp: first_epoch_def)
    then have "unat (h + 1) = unat h + 1"
      by (intro unat_Suc64) (simp add: ph EPOCH_LENGTH_def word_less_nat_alt)
    then show ?thesis using hd(3) by (simp add: EPOCH_LENGTH_def word_less_nat_alt)
  qed
  have pos_h: "0 < height (header b)"
    using lt unat_Suc64 [of h] by (simp add: hd(2) word_less_nat_alt)
  obtain r c' bs where sub: "submit_block E c b = Some (r, c')"
    and bs: "stores E gen ?s x b bs (cstate c')"
    and res: "stored_outcome E gen ?s obs x b bs r (cstate c')"
    using submit_checked [OF reach can ds fresh pos_h _ _ _ _ chk] hd p ph by auto
  have eq: "bs = obs @ [(x, b)]"
    by (rule stored_branch [OF bs]) (use hd(1,2) obr h lt unat_Suc64 [of h] in simp_all)
  have gt: "\<not> branch_work gen bs \<le> branch_work gen obs"
    using pos by (simp add: eq word_less_nat_alt)
  have room': "tx_room E gen (cstate c')"
    by (rule tx_room_store [OF room(1) bs inv]) (use room(2) in \<open>simp add: eq\<close>)
  note out = res [unfolded stored_outcome_def if_not_P [OF gt]]
  have "if spec_blocks E gen (map snd obs @ [b]) (genesis_ledger E gen) = None
     then same_tip (cstate c) (cstate c') \<and> (\<exists>e. r = Inl e \<and> replay_error (obs @ [(x, b)]) e)
     else canonical E gen (cstate c') (obs @ [(x, b)]) \<and> r = Inr (Accepted x (h + 1) False [])"
  proof (cases "spec_blocks E gen (map snd obs @ [b]) (genesis_ledger E gen) = None")
    case True
    with out room' show ?thesis by (auto simp: eq)
  next
    case False
    with room' have "\<not> (tx_room E gen (cstate c') \<longrightarrow> spec_blocks E gen (map snd bs) (genesis_ledger E gen) = None)"
      by (simp add: eq)
    with out obtain cs us ns re where
      r: "r = Inr (Accepted x (height (header b)) re (requeued E (rev us) ns))"
      and sp: "obs = cs @ us" "bs = cs @ ns" "us \<noteq> [] \<and> ns \<noteq> [] \<longrightarrow> hd us \<noteq> hd ns"
      and re: "re \<longleftrightarrow> tip ?s \<noteq> Some (height (header b) - 1, prev_hash (header b))"
      and can': "canonical E gen (cstate c') bs"
      by blast
    have "us = []" using sp by (cases us) (auto simp: eq)
    with r re tip hd(1,2) can' False show ?thesis by (simp add: requeued_def eq)
  qed
  with sub bs eq room' reachable.submitted [OF reach(1) sub] show ?thesis by blast
qed

lemma extend_tip:
  assumes hyps: "reachable E gen c" "hash_sizes E" "supply_capped E gen" "canonical E gen (cstate c) obs"
    "tip (cstate c) = Some (h, x0)" "generate E 0 (epoch_seed E None) = Some ds" "header_id E (header b) ds = Some x"
    "get_block (cstate c) x = None" "prev_hash (header b) = x0" "height (header b) = h + 1" "h + 1 < EPOCH_LENGTH"
    "get_block (cstate c) x0 = Some p" "expected_difficulty_after c p = Inr (difficulty (header b))"
    "0 < difficulty (header b)" "tx_root (header b) = compute_tx_root E b"
    "meets_target x (target_for_difficulty (difficulty (header b)))" "list_all (is_signature_valid E) (transactions b)"
    "tx_room E gen (cstate c)" "tx_count (map snd obs @ [b]) < 2 ^ 64"
    and replay: "spec_blocks E gen (map snd obs @ [b]) (genesis_ledger E gen) \<noteq> None"
  shows "\<exists>c'. submit_block E c b = Some (Inr (Accepted x (h + 1) False []), c') \<and> reachable E gen c' \<and>
    canonical E gen (cstate c') (obs @ [(x, b)]) \<and> stores E gen (cstate c) x b (obs @ [(x, b)]) (cstate c')"
  using extend_tip_outcome [OF hyps, unfolded if_not_P [OF replay]] by blast

lemma extend_tip_refused:
  assumes hyps: "reachable E gen c" "hash_sizes E" "supply_capped E gen" "canonical E gen (cstate c) obs"
    "tip (cstate c) = Some (h, x0)" "generate E 0 (epoch_seed E None) = Some ds" "header_id E (header b) ds = Some x"
    "get_block (cstate c) x = None" "prev_hash (header b) = x0" "height (header b) = h + 1" "h + 1 < EPOCH_LENGTH"
    "get_block (cstate c) x0 = Some p" "expected_difficulty_after c p = Inr (difficulty (header b))"
    "0 < difficulty (header b)" "tx_root (header b) = compute_tx_root E b"
    "meets_target x (target_for_difficulty (difficulty (header b)))" "list_all (is_signature_valid E) (transactions b)"
    "tx_room E gen (cstate c)" "tx_count (map snd obs @ [b]) < 2 ^ 64"
    and replay: "spec_blocks E gen (map snd obs @ [b]) (genesis_ledger E gen) = None"
  shows "\<exists>e c'. submit_block E c b = Some (Inl e, c') \<and> replay_error (obs @ [(x, b)]) e \<and> reachable E gen c' \<and>
    same_tip (cstate c) (cstate c') \<and> stores E gen (cstate c) x b (obs @ [(x, b)]) (cstate c') \<and> tx_room E gen (cstate c')"
  using extend_tip_outcome [OF hyps, unfolded if_P [OF replay]] by blast

end
