(* ===== verification/Sample_Chain.thy ===== *)
theory Sample_Chain
  imports Chain_Runs
begin

text \<open>
  A worked example on the sample environment: a chain opened on a genesis with one premined
  account, a block that pays from it, a competing block with as much work, and a block on that one
  that makes the chain reorganise. The theorems of the later theories are applied to it.
\<close>

definition sample_gen :: genesis_config where
  "sample_gen =
     \<lparr>network_name = ''s'', gen_timestamp = 0, initial_difficulty = 1, initial_reward = 50, halving_interval = 10,
      target_block_time_secs = 30, retarget_window = 60, premine = [(peer_id_hex (replicate 20 7), 1000)]\<rparr>"

definition sample_addr :: "u8 \<Rightarrow> address" where
  "sample_addr n = Address (replicate 20 n)"

definition sample_key :: key_pair where
  "sample_key = KeyPair (replicate 32 7)"

definition sample_tx :: "u64 \<Rightarrow> transaction" where
  "sample_tx n =
     (let tx = new_unsigned (public sample_env sample_key) (sample_addr 1) 10 1 n
      in tx\<lparr>tx_signature := Some (kp_sign sample_env sample_key (signing_bytes tx))\<rparr>)"

definition sample_id :: "u8 \<Rightarrow> u64 \<Rightarrow> hash256" where
  "sample_id m n = Hash256 (replicate 4 0 @ replicate 20 m @ le_bytes 8 n)"

definition sample_block :: "u64 \<Rightarrow> hash256 \<Rightarrow> u8 \<Rightarrow> u64 \<Rightarrow> transaction list \<Rightarrow> block" where
  "sample_block h prev m n txs =
     \<lparr>header = \<lparr>height = h, prev_hash = prev, tx_root = merkle_root sample_env (map (tx_hash sample_env) txs),
        timestamp = 30 * h, difficulty = 1, miner = sample_addr m, nonce = n\<rparr>,
      transactions = txs\<rparr>"

definition sample_root :: hash256 where
  "sample_root = genesis_block_hash sample_env sample_gen"

definition sample_chain :: chain where
  "sample_chain =
     \<lparr>cstate = snd (init_genesis sample_env sample_gen empty_state), cgenesis = sample_gen, dataset_cache = None\<rparr>"

section \<open>Evaluation\<close>

lemma sample_addr_inject [simp]: "sample_addr m = sample_addr n \<longleftrightarrow> m = n"
  by (simp add: sample_addr_def)

lemma sample_id_inject [simp]: "sample_id m n = sample_id m' n' \<longleftrightarrow> m = m' \<and> n = n'"
  by (auto simp: sample_id_def)

lemma wf_sample_id [simp]: "wf_hash (sample_id m n)"
  by (simp add: wf_hash_def sample_id_def)

lemma wf_sample_root [simp]: "wf_hash sample_root"
  by (simp add: sample_root_def genesis_block_hash_def wf_hash_of sample_env_laws)

lemma wf_sample_tx_root: "wf_hash (merkle_root sample_env (map (tx_hash sample_env) txs))"
  by (rule wf_merkle_root) (simp add: sample_env_laws)

lemma sample_block_id:
  assumes "wf_hash prev" "wf_dataset ds"
  shows "header_id sample_env (header (sample_block h prev m n txs)) ds = Some (sample_id m n)"
proof -
  let ?root = "merkle_root sample_env (map (tx_hash sample_env) txs)"
  let ?front = "le_bytes 8 h @ as_bytes prev @ as_bytes ?root @ le_bytes 8 (30 * h)"
  have len: "length ?front = 80" using assms(1) wf_sample_tx_root by (simp add: length_as_bytes)
  have "sample_hash (?front @ le_bytes 8 (1 :: u64) @ replicate 20 m @ le_bytes 8 n) =
      replicate 4 0 @ replicate 20 m @ le_bytes 8 n"
    using len by (simp add: sample_hash_def numeral_eq_Suc)
  then show ?thesis
    by (simp add: sample_header_id [OF assms(2)] sample_block_def bytes_for_pow_def sample_addr_def sample_id_def)
qed

lemma meets_target_one: "wf_hash x \<Longrightarrow> meets_target x (target_for_difficulty 1)"
  using be_val_bound [of "hash_bytes x"]
  by (simp add: meets_target_def to_u256_be_def be_val_lex wf_hash_def target_length target_val)

lemma sample_root_fresh: "sample_root \<noteq> sample_id m n"
proof -
  have "as_bytes sample_root ! 0 = 79"
    by (simp add: sample_root_def genesis_block_hash_def hash_of_def as_bytes_def sample_env_def sample_hash_def
        string_bytes_def sample_gen_def dec_digits.simps)
  moreover have "as_bytes (sample_id m n) ! 0 = 0" by (simp add: sample_id_def as_bytes_def nth_append)
  ultimately show ?thesis by auto
qed

lemma sample_premine: "premine_parsed sample_env sample_gen = Inr [(sample_addr 7, 1000)]"
  using addr_from_str_printed(2) [OF sample_env_laws(2), of "Address (replicate 20 7)"]
  by (simp add: premine_parsed_def sample_gen_def addr_to_hex_def sample_addr_def)
    (simp add: sample_env_def)

lemma sample_tx_valid: "is_signature_valid sample_env (sample_tx n)"
  by (simp add: is_signature_valid_def sample_tx_def Let_def verify_def kp_sign_def public_def sample_env_def
      new_unsigned_def signing_bytes_def)

lemma sample_sender: "to_address sample_env (tx_from (sample_tx n)) = sample_addr 7"
  by (simp add: sample_tx_def Let_def to_address_def public_def new_unsigned_def sample_env_def sample_key_def
      sample_hash_def sample_addr_def)

section \<open>The run\<close>

lemma sample_capped: "supply_capped sample_env sample_gen"
  by (simp add: supply_capped_def premine_total_def premine_list_def sample_premine emission_cap_def)
    (simp add: sample_gen_def)

lemma sample_open: "chain_open sample_env sample_gen empty_state = Inr sample_chain"
  by (simp add: chain_open_def empty_state_fields sample_chain_def init_genesis_def Let_def sample_premine
      split: unit.splits)

lemma sample_reachable: "reachable sample_env sample_gen sample_chain"
  by (rule reachable.opened [OF sample_open])

lemmas sample_hyps = sample_reachable sample_env_laws(1) sample_capped

lemma sample_dataset: "\<exists>ds. generate sample_env 0 (epoch_seed sample_env None) = Some ds \<and> wf_dataset ds"
  using generate_total [OF sample_env_laws(1)] by blast

lemma sample_state: "cstate sample_chain = set_tip 0 sample_root (set_canonical_height 0 sample_root
    (store_block sample_root (genesis_block sample_gen) (set_chainwork sample_root 1
      (credit (sample_addr 7) 1000 empty_state))))"
  by (simp add: sample_chain_def init_genesis_def Let_def sample_premine sample_root_def [symmetric] block_work_def)
    (simp add: sample_gen_def)

lemma sample_fields:
  "get_block (cstate sample_chain) y = (if y = sample_root then Some (genesis_block sample_gen) else None)"
  "tip (cstate sample_chain) = Some (0, sample_root)" "cgenesis sample_chain = sample_gen"
  by (simp_all add: sample_state state_simps credit_def Let_def empty_state_fields)
    (simp add: sample_chain_def)

lemma sample_branches: "branch (cstate sample_chain) sample_root x bs \<longleftrightarrow> x = sample_root \<and> bs = []"
proof
  assume "branch (cstate sample_chain) sample_root x bs"
  then show "x = sample_root \<and> bs = []"
    by (cases rule: branch.cases) (auto simp: sample_fields split: if_splits)
qed (auto intro!: branch.genesis [where b = "genesis_block sample_gen"] simp: sample_fields)

lemma sample_canonical: "canonical sample_env sample_gen (cstate sample_chain) []"
proof -
  obtain bs where bs: "canonical sample_env sample_gen (cstate sample_chain) bs"
    using reachable_inv [OF sample_hyps] by (auto simp: chain_inv_def)
  then have "bs = []" by (auto simp: canonical_def sample_root_def [symmetric] sample_branches)
  with bs show ?thesis by simp
qed

lemma sample_room: "tx_room sample_env sample_gen (cstate sample_chain)"
  by (simp add: tx_room_def sample_root_def [symmetric] sample_branches)

lemma early_difficulty:
  "cgenesis c = sample_gen \<Longrightarrow> height (header p) + 1 \<le> 60 \<Longrightarrow> expected_difficulty_after c p = Inr 1"
proof -
  have "max (retarget_window sample_gen) 1 = 60" by (simp add: sample_gen_def max_def word_le_nat_alt)
  moreover have "initial_difficulty sample_gen = 1" by (simp add: sample_gen_def)
  moreover assume "cgenesis c = sample_gen" "height (header p) + 1 \<le> 60"
  ultimately show ?thesis by (simp add: expected_difficulty_after_def)
qed

lemma sample_block_fields [simp]:
  "height (header (sample_block h prev m n txs)) = h" "prev_hash (header (sample_block h prev m n txs)) = prev"
  "difficulty (header (sample_block h prev m n txs)) = 1" "transactions (sample_block h prev m n txs) = txs"
  "tx_root (header (sample_block h prev m n txs)) = compute_tx_root sample_env (sample_block h prev m n txs)"
  "miner (header (sample_block h prev m n txs)) = sample_addr m"
  by (simp_all add: sample_block_def compute_tx_root_def)

lemma sample_genesis_ledger: "genesis_ledger sample_env sample_gen = (\<lambda>a. (0, 0))(sample_addr 7 := (1000, 0))"
  by (simp add: genesis_ledger_def premine_list_def sample_premine credit_ledger_def)

text \<open>The first block pays 10 from the premined account, with a fee of 1.\<close>

definition block_a :: block where
  "block_a = sample_block 1 sample_root 1 0 [sample_tx 0]"

lemma reward_early: "unat h < 10 \<Longrightarrow> block_reward sample_gen h = 50"
proof -
  assume "unat h < 10"
  then have "unat (block_reward sample_gen h) = 50"
    by (simp add: block_reward_val) (simp add: sample_gen_def)
  then show ?thesis by (simp add: word_unat_eq_iff)
qed

lemma sample_tx_fields: "amount (sample_tx n) = 10" "fee (sample_tx n) = 1" "account_nonce (sample_tx n) = n"
    "tx_to (sample_tx n) = sample_addr 1"
  by (simp_all add: sample_tx_def Let_def new_unsigned_def)

lemma replay_a: "spec_blocks sample_env sample_gen [block_a] (genesis_ledger sample_env sample_gen) =
    Some ((\<lambda>a. (0, 0))(sample_addr 7 := (989, 1), sample_addr 1 := (60, 0)))"
  by (simp add: block_a_def spec_block_def spec_tx_def Let_def sample_sender sample_tx_fields sample_genesis_ledger
      credit_ledger_def reward_early fun_eq_iff)

text \<open>
  A first block by any miner with any transactions that replay, on any reachable chain that holds
  genesis alone: runs of the node reach such chains by other ways than opening the store.
\<close>

lemma step_first:
  assumes reach: "reachable sample_env sample_gen c" and can: "canonical sample_env sample_gen (cstate c) []"
    and room: "tx_room sample_env sample_gen (cstate c)" and blk: "get_block (cstate c) = get_block (cstate sample_chain)"
    and txs: "list_all (is_signature_valid sample_env) txs" "length txs < 2 ^ 64"
    and replay: "spec_blocks sample_env sample_gen [sample_block 1 sample_root m 0 txs] (genesis_ledger sample_env sample_gen) \<noteq> None"
  shows "\<exists>c'. submit_block sample_env c (sample_block 1 sample_root m 0 txs) = Some (Inr (Accepted (sample_id m 0) 1 False []), c') \<and>
     reachable sample_env sample_gen c' \<and>
     canonical sample_env sample_gen (cstate c') [(sample_id m 0, sample_block 1 sample_root m 0 txs)] \<and>
     stores sample_env sample_gen (cstate c) (sample_id m 0) (sample_block 1 sample_root m 0 txs)
       [(sample_id m 0, sample_block 1 sample_root m 0 txs)] (cstate c')"
proof -
  let ?b = "sample_block 1 sample_root m 0 txs"
  note hyps = reach sample_env_laws(1) sample_capped
  obtain ds where ds: "generate sample_env 0 (epoch_seed sample_env None) = Some ds" "wf_dataset ds"
    using sample_dataset by blast
  have id: "header_id sample_env (header ?b) ds = Some (sample_id m 0)" by (rule sample_block_id [OF wf_sample_root ds(2)])
  have tip: "tip (cstate c) = Some (0, sample_root)"
    using can by (auto simp: canonical_def branch_Nil sample_root_def unat_eq_0)
  have replay1: "spec_blocks sample_env sample_gen (map snd [] @ [?b]) (genesis_ledger sample_env sample_gen) \<noteq> None"
    using replay by (simp only: list.map append_Nil not_False_eq_True)
  from extend_tip [OF hyps can tip ds(1) id, of "genesis_block sample_gen", OF _ _ _ _ _ _ _ _ _ _ room _ replay1]
  show ?thesis
    using sample_root_fresh [symmetric] txs reachable_gen [OF hyps]
    by (simp add: blk sample_fields early_difficulty meets_target_one EPOCH_LENGTH_def)
qed

lemma run_a:
  "\<exists>c. submit_block sample_env sample_chain block_a = Some (Inr (Accepted (sample_id 1 0) 1 False []), c) \<and>
     reachable sample_env sample_gen c \<and> canonical sample_env sample_gen (cstate c) [(sample_id 1 0, block_a)] \<and>
     stores sample_env sample_gen (cstate sample_chain) (sample_id 1 0) block_a [(sample_id 1 0, block_a)] (cstate c)"
proof -
  have "spec_blocks sample_env sample_gen [block_a] (genesis_ledger sample_env sample_gen) \<noteq> None"
    by (simp only: replay_a) simp
  from step_first [OF sample_reachable sample_canonical sample_room refl _ _ this [unfolded block_a_def]]
  show ?thesis by (simp add: block_a_def sample_tx_valid)
qed

text \<open>A second block on genesis, and a third on that one.\<close>

definition block_b :: block where
  "block_b = sample_block 1 sample_root 2 0 []"

definition block_c :: block where
  "block_c = sample_block 2 (sample_id 2 0) 2 1 []"

definition entry_a :: "hash256 \<times> block" where "entry_a = (sample_id 1 0, block_a)"
definition entry_b :: "hash256 \<times> block" where "entry_b = (sample_id 2 0, block_b)"
definition entry_c :: "hash256 \<times> block" where "entry_c = (sample_id 2 1, block_c)"

lemma sample_blocks_differ [simp]: "block_a \<noteq> block_b"
  by (auto simp: block_a_def block_b_def sample_block_def)

lemma replay_bc: "spec_blocks sample_env sample_gen [block_b, block_c] (genesis_ledger sample_env sample_gen) =
    Some ((\<lambda>a. (0, 0))(sample_addr 7 := (1000, 0), sample_addr 2 := (100, 0)))"
  by (simp add: block_b_def block_c_def spec_block_def sample_genesis_ledger credit_ledger_def reward_early fun_eq_iff)

lemma sample_work: "branch_work sample_gen [(x, sample_block h p m n t)] = 2"
    "branch_work sample_gen [(x, sample_block h p m n t), (x', sample_block h' p' m' n' t')] = 3"
  by (simp_all add: branch_work_def) (simp_all add: sample_gen_def)

text \<open>
  The same three blocks with any transactions in the first two, submitted to any reachable chain that
  has the first block as its branch: runs of the node reach such chains by other ways than \<open>run_b\<close>.
\<close>

abbreviation block_at_a :: "transaction list \<Rightarrow> block" where
  "block_at_a ta \<equiv> sample_block 1 sample_root 1 0 ta"

abbreviation block_at_b :: "transaction list \<Rightarrow> block" where
  "block_at_b tb \<equiv> sample_block 1 sample_root 2 0 tb"

lemma blocks_a_b_differ [simp]: "block_at_a ta \<noteq> block_at_b tb"
  by (auto simp: sample_block_def)

lemma step_b:
  assumes reach: "reachable sample_env sample_gen c1"
    and can: "canonical sample_env sample_gen (cstate c1) [(sample_id 1 0, block_at_a ta)]"
    and rooms: "tx_room sample_env sample_gen (cstate c1)"
    and blk: "get_block (cstate c1) = (get_block (cstate sample_chain))(sample_id 1 0 \<mapsto> block_at_a ta)"
    and tb: "list_all (is_signature_valid sample_env) tb" "length tb < 2 ^ 64"
  shows "\<exists>c2. submit_block sample_env c1 (block_at_b tb) = Some (Inr (SideBranch (sample_id 2 0) 1), c2) \<and>
     reachable sample_env sample_gen c2 \<and>
     canonical sample_env sample_gen (cstate c2) [(sample_id 1 0, block_at_a ta)] \<and>
     tx_room sample_env sample_gen (cstate c2) \<and>
     stores sample_env sample_gen (cstate c1) (sample_id 2 0) (block_at_b tb) [(sample_id 2 0, block_at_b tb)] (cstate c2)"
proof -
  note hyps = reach sample_env_laws(1) sample_capped
  obtain ds where ds: "generate sample_env 0 (epoch_seed sample_env None) = Some ds" "wf_dataset ds"
    using sample_dataset by blast
  have id: "header_id sample_env (header (block_at_b tb)) ds = Some (sample_id 2 0)"
    by (rule sample_block_id [OF wf_sample_root ds(2)])
  have root: "get_block (cstate c1) sample_root = Some (genesis_block sample_gen)"
    using sample_root_fresh by (simp add: blk sample_fields)
  have fresh: "get_block (cstate c1) (sample_id 2 0) = None"
    using sample_root_fresh [symmetric] by (simp add: blk sample_fields)
  have gen: "cgenesis c1 = sample_gen" by (rule reachable_gen [OF hyps])
  obtain r c2 bs where c2: "submit_block sample_env c1 (block_at_b tb) = Some (r, c2)" "reachable sample_env sample_gen c2"
    and st: "stores sample_env sample_gen (cstate c1) (sample_id 2 0) (block_at_b tb) bs (cstate c2)"
    and out: "stored_outcome sample_env sample_gen (cstate c1) [(sample_id 1 0, block_at_a ta)] (sample_id 2 0)
      (block_at_b tb) bs r (cstate c2)"
    using submit_checked [OF hyps can ds(1) id fresh, of "genesis_block sample_gen"] root gen tb(1)
    by (auto simp: early_difficulty meets_target_one EPOCH_LENGTH_def)
  have "bs = [] @ [(sample_id 2 0, block_at_b tb)]"
    by (rule stored_branch [OF st])
      (auto intro!: branch.genesis [where b = "genesis_block sample_gen"] simp: root sample_root_def [symmetric])
  then have bs: "bs = [(sample_id 2 0, block_at_b tb)]" by simp
  have "r = Inr (SideBranch (sample_id 2 0) 1) \<and> same_tip (cstate c1) (cstate c2)"
    using out by (simp add: stored_outcome_def bs sample_work)
  moreover have "tx_room sample_env sample_gen (cstate c2)"
    by (rule tx_room_store [OF rooms st reachable_inv [OF hyps]]) (use tb(2) in \<open>simp add: bs\<close>)
  ultimately show ?thesis using c2 st bs same_tip_canonical [OF st _ can] by blast
qed

lemma step_c:
  assumes reach: "reachable sample_env sample_gen c2"
    and can: "canonical sample_env sample_gen (cstate c2) [(sample_id 1 0, block_at_a ta)]"
    and rooms: "tx_room sample_env sample_gen (cstate c2)"
    and blk: "get_block (cstate c2) =
      (get_block (cstate sample_chain))(sample_id 1 0 \<mapsto> block_at_a ta, sample_id 2 0 \<mapsto> block_at_b tb)"
    and tb: "length tb < 2 ^ 64"
    and replay: "spec_blocks sample_env sample_gen [block_at_b tb, block_c] (genesis_ledger sample_env sample_gen) \<noteq> None"
  shows "\<exists>c3. submit_block sample_env c2 block_c =
       Some (Inr (Accepted (sample_id 2 1) 2 True (requeued sample_env [(sample_id 1 0, block_at_a ta)]
         [(sample_id 2 0, block_at_b tb), entry_c])), c3) \<and>
     reachable sample_env sample_gen c3 \<and>
     canonical sample_env sample_gen (cstate c3) [(sample_id 2 0, block_at_b tb), entry_c] \<and>
     tx_room sample_env sample_gen (cstate c3) \<and>
     stores sample_env sample_gen (cstate c2) (sample_id 2 1) block_c [(sample_id 2 0, block_at_b tb), entry_c] (cstate c3)"
proof -
  let ?a = "(sample_id 1 0, block_at_a ta)" and ?b = "(sample_id 2 0, block_at_b tb)"
  note hyps = reach sample_env_laws(1) sample_capped
  obtain ds where ds: "generate sample_env 0 (epoch_seed sample_env None) = Some ds" "wf_dataset ds"
    using sample_dataset by blast
  have id: "header_id sample_env (header block_c) ds = Some (sample_id 2 1)"
    unfolding block_c_def by (rule sample_block_id [OF wf_sample_id ds(2)])
  have pb: "get_block (cstate c2) (sample_id 2 0) = Some (block_at_b tb)" by (simp add: blk)
  have root: "get_block (cstate c2) sample_root = Some (genesis_block sample_gen)"
    using sample_root_fresh by (simp add: blk sample_fields)
  have fresh: "get_block (cstate c2) (sample_id 2 1) = None"
    using sample_root_fresh [symmetric] by (simp add: blk sample_fields)
  have gen: "cgenesis c2 = sample_gen" by (rule reachable_gen [OF hyps])
  have tip: "tip (cstate c2) \<noteq> Some (height (header block_c) - 1, prev_hash (header block_c))"
    using can branch_last by (fastforce simp: canonical_def block_c_def)
  have bbr: "branch (cstate c2) (genesis_block_hash sample_env sample_gen) (sample_id 2 0) ([] @ [?b])"
    by (rule branch.grow)
      (auto intro!: branch.genesis [where b = "genesis_block sample_gen"] simp: pb root sample_root_def [symmetric])
  obtain r c3 bs where c3: "submit_block sample_env c2 block_c = Some (r, c3)" "reachable sample_env sample_gen c3"
    and st: "stores sample_env sample_gen (cstate c2) (sample_id 2 1) block_c bs (cstate c3)"
    and out: "stored_outcome sample_env sample_gen (cstate c2) [?a] (sample_id 2 1) block_c bs r (cstate c3)"
    using submit_checked [OF hyps can ds(1) id fresh, of "block_at_b tb"] pb gen
    by (auto simp: block_c_def early_difficulty meets_target_one EPOCH_LENGTH_def)
  have "bs = [?b] @ [(sample_id 2 1, block_c)]"
    by (rule stored_branch [OF st]) (use bbr in \<open>simp_all add: block_c_def\<close>)
  then have bs: "bs = [?b, entry_c]" by (simp add: entry_c_def)
  have room: "tx_room sample_env sample_gen (cstate c3)"
    by (rule tx_room_store [OF rooms st reachable_inv [OF hyps]])
      (use tb in \<open>simp add: bs entry_c_def block_c_def\<close>)
  have gt: "\<not> branch_work sample_gen bs \<le> branch_work sample_gen [?a]"
    by (simp add: bs entry_c_def sample_work block_c_def)
  have "spec_blocks sample_env sample_gen (map snd bs) (genesis_ledger sample_env sample_gen) \<noteq> None"
    using replay by (simp only: bs entry_c_def list.map snd_conv not_False_eq_True)
  with out [unfolded stored_outcome_def if_not_P [OF gt]] room obtain cs us ns re where
    r: "r = Inr (Accepted (sample_id 2 1) (height (header block_c)) re (requeued sample_env (rev us) ns))"
    and sp: "[?a] = cs @ us" "bs = cs @ ns"
    and re: "re \<longleftrightarrow> tip (cstate c2) \<noteq> Some (height (header block_c) - 1, prev_hash (header block_c))"
    and can: "canonical sample_env sample_gen (cstate c3) bs" by blast
  have "cs = []" using sp by (cases cs) (auto simp: bs)
  with sp have "us = [?a]" "ns = [?b, entry_c]" by (simp_all add: bs)
  with r re tip have "r = Inr (Accepted (sample_id 2 1) 2 True (requeued sample_env [?a] [?b, entry_c]))"
    by (simp add: block_c_def)
  with c3 can room st bs show ?thesis by blast
qed

lemma run_b:
  "\<exists>c1 c2. submit_block sample_env sample_chain block_a = Some (Inr (Accepted (sample_id 1 0) 1 False []), c1) \<and>
     submit_block sample_env c1 block_b = Some (Inr (SideBranch (sample_id 2 0) 1), c2) \<and>
     reachable sample_env sample_gen c1 \<and> reachable sample_env sample_gen c2 \<and>
     canonical sample_env sample_gen (cstate c1) [entry_a] \<and>
     canonical sample_env sample_gen (cstate c2) [entry_a] \<and> tx_room sample_env sample_gen (cstate c1) \<and>
     tx_room sample_env sample_gen (cstate c2) \<and>
     stores sample_env sample_gen (cstate sample_chain) (sample_id 1 0) block_a [entry_a] (cstate c1) \<and>
     stores sample_env sample_gen (cstate c1) (sample_id 2 0) block_b [entry_b] (cstate c2)"
proof -
  obtain c1 where c1: "submit_block sample_env sample_chain block_a = Some (Inr (Accepted (sample_id 1 0) 1 False []), c1)"
    "reachable sample_env sample_gen c1" "canonical sample_env sample_gen (cstate c1) [entry_a]"
    "stores sample_env sample_gen (cstate sample_chain) (sample_id 1 0) block_a [entry_a] (cstate c1)"
    using run_a unfolding entry_a_def by blast
  have rooms: "tx_room sample_env sample_gen (cstate c1)"
    by (rule tx_room_store [OF sample_room c1(4) reachable_inv [OF sample_hyps]]) (simp add: entry_a_def block_a_def)
  have "get_block (cstate c1) = (get_block (cstate sample_chain))(sample_id 1 0 \<mapsto> block_a)"
    using c1(4) by (simp add: stores_def)
  from step_b [OF c1(2) c1(3) [unfolded entry_a_def block_a_def] rooms this [unfolded block_a_def], of "[]"] c1 rooms
  show ?thesis by (auto simp: entry_a_def entry_b_def block_a_def block_b_def)
qed

lemma run_c:
  "\<exists>c2 c3. reachable sample_env sample_gen c2 \<and> canonical sample_env sample_gen (cstate c2) [entry_a] \<and>
     submit_block sample_env c2 block_c =
       Some (Inr (Accepted (sample_id 2 1) 2 True [sample_tx 0]), c3) \<and>
     reachable sample_env sample_gen c3 \<and> canonical sample_env sample_gen (cstate c3) [entry_b, entry_c] \<and>
     tx_room sample_env sample_gen (cstate c3) \<and>
     stores sample_env sample_gen (cstate c2) (sample_id 2 1) block_c [entry_b, entry_c] (cstate c3)"
proof -
  obtain c1 c2 :: chain where c2: "reachable sample_env sample_gen c2" "canonical sample_env sample_gen (cstate c2) [entry_a]"
    "tx_room sample_env sample_gen (cstate c2)"
    and st1: "stores sample_env sample_gen (cstate sample_chain) (sample_id 1 0) block_a [entry_a] (cstate c1)"
    and st2: "stores sample_env sample_gen (cstate c1) (sample_id 2 0) block_b [entry_b] (cstate c2)"
    using run_b by blast
  have "get_block (cstate c2) =
      (get_block (cstate sample_chain))(sample_id 1 0 \<mapsto> block_a, sample_id 2 0 \<mapsto> block_b)"
    using st1 st2 by (simp add: stores_def)
  from step_c [OF c2(1) c2(2) [unfolded entry_a_def block_a_def] c2(3) this [unfolded block_a_def block_b_def]] c2 replay_bc
  show ?thesis
    by (auto simp: requeued_def entry_a_def entry_b_def entry_c_def block_a_def block_b_def block_c_def)
qed

end
