(* ===== verification/Chain_Properties.thy ===== *)
theory Chain_Properties
  imports Sample_Chain
begin

text \<open>
  The properties of the chain, each with an application to the worked example. The hypotheses that
  recur are \<open>hash_sizes\<close> (the hash functions return as many bytes as documented),
  \<open>supply_capped\<close> (premine and emission fit into 64 bits, shown for the shipped configurations
  below) and \<open>tx_room\<close> (no branch holds \<open>2^64\<close> transactions).
\<close>

section \<open>Submitting blocks\<close>

text \<open>
  C1. \<open>submit_block\<close> meets its specification on every run: it always returns, without a panic and
  without looping, whatever block it is given, and what it does is one of the six effects of
  \<open>submit_effect\<close>: a refusal for a true reason that changes nothing, a known block, an orphan, a
  side branch, a heavier branch that does not replay, or a move of the canonical branch.
\<close>

theorem submit_block_spec:
  assumes "reachable E gen c" "hash_sizes E" "supply_capped E gen"
  shows "\<exists>r c'. submit_block E c b = Some (r, c') \<and> submit_effect E gen (cstate c) b r (cstate c')"
  using reachable_submit [OF assms] by blast

theorem submit_block_spec_witness:
  "\<exists>r c'. submit_block sample_env sample_chain block_a = Some (r, c') \<and>
     submit_effect sample_env sample_gen (cstate sample_chain) block_a r (cstate c')"
  by (rule submit_block_spec [OF sample_hyps])

text \<open>
  C3. The chain invariant holds on every run: the stored blocks form a tree under genesis, the chain
  work of each is the sum of the difficulties on its branch (it never wraps around), every stored
  block passed every check, the tip and the height index describe one branch of the tree.
\<close>

theorem chain_invariant:
  assumes "reachable E gen c" "hash_sizes E" "supply_capped E gen"
  shows "chain_inv E gen (cstate c) \<and> cgenesis c = gen \<and> mempool_ok E (cstate c)"
  using reachable_all [OF assms] by blast

theorem chain_invariant_witness:
  "\<exists>c. reachable sample_env sample_gen c \<and> canonical sample_env sample_gen (cstate c) [entry_b, entry_c] \<and>
     chain_inv sample_env sample_gen (cstate c) \<and> cgenesis c = sample_gen \<and> mempool_ok sample_env (cstate c)"
proof -
  obtain c where c: "reachable sample_env sample_gen c" "canonical sample_env sample_gen (cstate c) [entry_b, entry_c]"
    using run_c by blast
  from chain_invariant [OF c(1) sample_env_laws(1) sample_capped] c show ?thesis by blast
qed

text \<open>
  C2. After every run, reorganisations included, the balances and nonces are exactly what replaying
  the canonical branch on the premine gives, in unbounded arithmetic.
\<close>

theorem accounts_replay_canonical:
  assumes "reachable E gen c" "hash_sizes E" "supply_capped E gen" "tx_room E gen (cstate c)"
    and "canonical E gen (cstate c) bs"
  shows "spec_blocks E gen (map snd bs) (genesis_ledger E gen) = Some (read_ledger (get_account (cstate c)))"
proof -
  obtain cs where "canonical E gen (cstate c) cs" "ledger_replays E gen (cstate c) cs"
    using reachable_inv [OF assms(1-3)] assms(4) by (auto simp: chain_inv_def)
  with canonical_unique [OF assms(5)] show ?thesis by (simp add: ledger_replays_def)
qed

theorem accounts_replay_canonical_witness:
  "\<exists>c. reachable sample_env sample_gen c \<and>
     spec_blocks sample_env sample_gen (map snd [entry_b, entry_c]) (genesis_ledger sample_env sample_gen) =
       Some (read_ledger (get_account (cstate c)))"
proof -
  obtain c where c: "reachable sample_env sample_gen c" "canonical sample_env sample_gen (cstate c) [entry_b, entry_c]"
    "tx_room sample_env sample_gen (cstate c)"
    using run_c by blast
  from accounts_replay_canonical [OF c(1) sample_env_laws(1) sample_capped c(3,2)] c(1) show ?thesis by blast
qed

text \<open>
  C4. Money is conserved: on every run the sum of all balances is the premine plus the rewards of the
  canonical branch minus its fees, which nobody receives, and it stays within premine and emission.
\<close>

theorem supply_conserved:
  assumes "reachable E gen c" "hash_sizes E" "supply_capped E gen" "tx_room E gen (cstate c)"
    and "canonical E gen (cstate c) bs"
  shows "total_supply (read_ledger (get_account (cstate c))) + sum_list (map fees (map snd bs)) =
      premine_total E gen + minted gen (map snd bs) \<and>
    total_supply (read_ledger (get_account (cstate c))) \<le> premine_total E gen + emission_cap gen"
proof -
  obtain cs where cs: "canonical E gen (cstate c) cs" "ledger_replays E gen (cstate c) cs"
    using reachable_inv [OF assms(1-3)] assms(4) by (auto simp: chain_inv_def)
  have eq: "cs = bs" by (rule canonical_unique [OF cs(1) assms(5)])
  obtain x where "branch (cstate c) (genesis_block_hash E gen) x bs" using assms(5) by (auto simp: canonical_def)
  then have "minted gen (map snd bs) \<le> emission_cap gen"
    using branch_heights by (intro minted_le_cap) (simp only: length_map)
  moreover have "total_supply (read_ledger (get_account (cstate c))) + sum_list (map fees (map snd bs)) =
      premine_total E gen + minted gen (map snd bs)"
    using spec_blocks_supply [OF cs(2) [unfolded ledger_replays_def eq]]
    by (simp add: genesis_ledger_facts)
  ultimately show ?thesis by linarith
qed

theorem supply_conserved_witness:
  "\<exists>c. reachable sample_env sample_gen c \<and>
     total_supply (read_ledger (get_account (cstate c))) + sum_list (map fees (map snd [entry_a])) =
       premine_total sample_env sample_gen + minted sample_gen (map snd [entry_a]) \<and>
     total_supply (read_ledger (get_account (cstate c))) \<le> premine_total sample_env sample_gen + emission_cap sample_gen"
proof -
  obtain c where c: "reachable sample_env sample_gen c" "canonical sample_env sample_gen (cstate c) [entry_a]"
    "tx_room sample_env sample_gen (cstate c)"
    using run_b by blast
  from supply_conserved [OF c(1) sample_env_laws(1) sample_capped c(3,2)] c(1) show ?thesis by blast
qed

text \<open>
  C15. Every run stops before the second epoch. The seed of epoch 1 is the hash of block 2048, and the
  dataset of epoch 1 is needed to hash block 2048 itself: no stored block ever reaches height 2048,
  every block from there on is refused, and at height 2047 no template can be built.
\<close>

theorem chain_stops_before_epoch_one:
  assumes "reachable E gen c" "hash_sizes E" "supply_capped E gen"
  shows "(\<forall>x b. get_block (cstate c) x = Some b \<longrightarrow> height (header b) < 2048) \<and>
    (\<forall>b. 2048 \<le> height (header b) \<longrightarrow>
       submit_block E c b = Some (Inl (EpochBoundaryMissing (epoch_of (height (header b)) * EPOCH_LENGTH)), c)) \<and>
    (\<forall>x now a txs. tip (cstate c) = Some (2047, x) \<longrightarrow>
       work_template E now c a txs = Some (Inl (EpochBoundaryMissing 2048), c))"
proof -
  note fe = reachable_first_epoch [OF assms] and inv = reachable_inv [OF assms]
  have "work_template E now c a txs = Some (Inl (EpochBoundaryMissing 2048), c)"
    if "tip (cstate c) = Some (2047, x)" for x now a txs
    using that by (simp add: work_template_def first_epoch_dataset [OF inv fe] EPOCH_LENGTH_def epoch_of_def)
  moreover have "height (header b) < 2048" if "get_block (cstate c) x = Some b" for x b
    using fe that by (auto simp: first_epoch_def EPOCH_LENGTH_def)
  ultimately show ?thesis
    using submit_above_first_epoch [OF inv fe] by (simp add: EPOCH_LENGTH_def not_less)
qed

theorem chain_stops_before_epoch_one_witness:
  "submit_block sample_env sample_chain (sample_block 4000 sample_root 1 0 []) =
     Some (Inl (EpochBoundaryMissing 2048), sample_chain)"
  using chain_stops_before_epoch_one [OF sample_hyps]
  by (auto simp: epoch_of_def EPOCH_LENGTH_def dest: spec [of _ "sample_block 4000 sample_root 1 0 []"])

text \<open>
  The fork choice follows the work: a submission moves the canonical branch only by accepting the
  block, and then to a branch of strictly more work; in every other case the branch stays.
\<close>

theorem tip_work_increases:
  assumes "reachable E gen c" "hash_sizes E" "supply_capped E gen"
    and "submit_block E c b = Some (r, c')" "canonical E gen (cstate c) obs"
  shows "\<exists>nbs. canonical E gen (cstate c') nbs \<and>
    (if \<exists>x h re rq. r = Inr (Accepted x h re rq) then branch_work gen obs < branch_work gen nbs else nbs = obs)"
proof -
  have "submit_effect E gen (cstate c) b r (cstate c')"
    using reachable_submit [OF assms(1-3), of b] assms(4) by auto
  then show ?thesis
  proof (cases rule: submit_effect.cases)
    case (side x bs cs)
    with same_tip_canonical [OF side(2) side(5)] assms(5) show ?thesis by auto
  next
    case (unreplayable x bs cs e)
    with same_tip_canonical [OF unreplayable(2) unreplayable(6)] assms(5) show ?thesis by auto
  next
    case (accepted x cs ns us re)
    with canonical_unique [OF accepted(3) assms(5)] show ?thesis by auto
  qed (use assms(5) in auto)
qed

theorem tip_work_increases_witness:
  "\<exists>c c' r. submit_block sample_env c block_c = Some (r, c') \<and> (\<exists>nbs. canonical sample_env sample_gen (cstate c') nbs \<and>
    (if \<exists>x h re rq. r = Inr (Accepted x h re rq) then branch_work sample_gen [entry_a] < branch_work sample_gen nbs
     else nbs = [entry_a]))"
proof -
  obtain c c' where c: "reachable sample_env sample_gen c" "canonical sample_env sample_gen (cstate c) [entry_a]"
    "submit_block sample_env c block_c = Some (Inr (Accepted (sample_id 2 1) 2 True [sample_tx 0]), c')"
    using run_c by blast
  from tip_work_increases [OF c(1) sample_env_laws(1) sample_capped c(3,2)] c(3) show ?thesis by blast
qed

section \<open>Reorganisation\<close>

text \<open>
  \<open>fork_paths\<close> terminates and splits two branches at their last common block: it returns what
  lies above it on the old branch, tip first, and on the new branch, oldest first.
\<close>

theorem fork_paths_correct:
  assumes "branch s g x xs" "branch s g y ys"
  shows "\<exists>cs us ns. fork_paths s x y = Some (Inr (rev us, ns)) \<and> xs = cs @ us \<and> ys = cs @ ns \<and>
    (\<forall>ds vs ms. xs = ds @ vs \<and> ys = ds @ ms \<longrightarrow> length ds \<le> length cs)"
  using fork_paths_split [OF assms] split_at_fork by metis

theorem fork_paths_correct_witness:
  "\<exists>c cs us ns. reachable sample_env sample_gen c \<and>
    fork_paths (cstate c) (sample_id 1 0) (sample_id 2 0) = Some (Inr (rev us, ns)) \<and>
    [entry_a] = cs @ us \<and> [entry_b] = cs @ ns \<and>
    (\<forall>ds vs ms. [entry_a] = ds @ vs \<and> [entry_b] = ds @ ms \<longrightarrow> length ds \<le> length cs)"
proof -
  obtain c1 c2 :: chain where c: "reachable sample_env sample_gen c2"
    and can: "canonical sample_env sample_gen (cstate c2) [entry_a]"
    and st: "stores sample_env sample_gen (cstate c1) (sample_id 2 0) block_b [entry_b] (cstate c2)"
    using run_b by blast
  obtain x where "branch (cstate c2) (genesis_block_hash sample_env sample_gen) x [entry_a]"
    using can by (auto simp: canonical_def)
  moreover from this have "x = sample_id 1 0" using branch_last by (fastforce simp: entry_a_def)
  moreover have "branch (cstate c2) (genesis_block_hash sample_env sample_gen) (sample_id 2 0) [entry_b]"
    using st by (simp add: stores_def)
  ultimately show ?thesis using c fork_paths_correct by blast
qed

lemma read_ledger_inject: "read_ledger f = read_ledger g \<Longrightarrow> f = (g :: address \<Rightarrow> account)"
  by (auto simp: read_ledger_def fun_eq_iff word_unat_eq_iff intro: account.equality)

text \<open>
  Undoing is exact: blocks that were applied in order on an overlay, then undone in reverse,
  leave every account as it was, despite the saturating arithmetic of both directions.
\<close>

theorem undo_apply_exact:
  assumes "apply_blocks P gen s bs ov = Inr ov'" "finite (holders (read_ledger (get_acc s ov)))"
    and "total_supply (read_ledger (get_acc s ov)) + minted gen bs < 2 ^ 64 - 1"
    and "nonces_within (tx_count bs) (read_ledger (get_acc s ov))"
  shows "get_acc s (fold (undo_block P gen s) (rev bs) ov') = get_acc s ov"
proof (rule read_ledger_inject)
  have "spec_blocks P gen bs (read_ledger (get_acc s ov)) = Some (read_ledger (get_acc s ov'))"
    using apply_blocks_refines [OF assms(2-4), of P] assms(1) by simp
  from undo_blocks_inverse [OF this assms(2,3)]
  show "read_ledger (get_acc s (fold (undo_block P gen s) (rev bs) ov')) = read_ledger (get_acc s ov)" .
qed

definition sample_ledger_state :: chain_state where
  "sample_ledger_state = set_account (sample_addr 7) \<lparr>balance = 1000, acct_nonce = 0\<rparr> empty_state"

lemma sample_ledger_read: "read_ledger (get_acc sample_ledger_state Map.empty) = genesis_ledger sample_env sample_gen"
  by (auto simp: sample_ledger_state_def read_ledger_def state_simps empty_state_fields default_account_def
      sample_genesis_ledger fun_eq_iff)

lemma sample_minted: "minted sample_gen [block_a] = 50"
  by (simp add: minted_def block_a_def reward_early)

theorem undo_apply_exact_witness:
  "\<exists>ov'. apply_blocks sample_env sample_gen sample_ledger_state [block_a] Map.empty = Inr ov' \<and>
    get_acc sample_ledger_state (fold (undo_block sample_env sample_gen sample_ledger_state) (rev [block_a]) ov') =
      get_acc sample_ledger_state Map.empty"
proof -
  note facts = genesis_ledger_facts [where P = sample_env and gen = sample_gen]
  have "premine_total sample_env sample_gen = 1000"
    by (simp add: premine_total_def premine_list_def sample_premine)
  then have cap: "total_supply (read_ledger (get_acc sample_ledger_state Map.empty)) + minted sample_gen [block_a] < 2 ^ 64 - 1"
    unfolding sample_ledger_read facts(2) sample_minted by simp
  have fin: "finite (holders (read_ledger (get_acc sample_ledger_state Map.empty)))"
    unfolding sample_ledger_read by (rule facts(1))
  have room: "nonces_within (tx_count [block_a]) (read_ledger (get_acc sample_ledger_state Map.empty))"
    unfolding sample_ledger_read by (rule facts(3)) (simp add: block_a_def)
  from apply_blocks_refines [OF fin cap room, of sample_env] replay_a obtain ov' where
    "apply_blocks sample_env sample_gen sample_ledger_state [block_a] Map.empty = Inr ov'"
    unfolding sample_ledger_read
    by (cases "apply_blocks sample_env sample_gen sample_ledger_state [block_a] Map.empty") simp_all
  with undo_apply_exact [OF this fin cap room] show ?thesis by blast
qed

text \<open>
  C34. The 64-bit simulation of a branch implements the ledger of natural numbers: it fails exactly
  when the specification refuses, and otherwise computes its result, as long as the supply and the
  nonces stay below the limits of their types.
\<close>

theorem blocks_implement_ledger:
  assumes "finite (holders (read_ledger (get_acc s ov)))"
    and "total_supply (read_ledger (get_acc s ov)) + minted gen bs < 2 ^ 64 - 1"
    and "nonces_within (tx_count bs) (read_ledger (get_acc s ov))"
  shows "spec_blocks P gen bs (read_ledger (get_acc s ov)) =
    (case apply_blocks P gen s bs ov of Inl e \<Rightarrow> None | Inr ov' \<Rightarrow> Some (read_ledger (get_acc s ov')))"
  using apply_blocks_refines [OF assms, of P] by (simp split: sum.splits)

theorem blocks_implement_ledger_witness:
  "spec_blocks sample_env sample_gen [block_a] (read_ledger (get_acc sample_ledger_state Map.empty)) =
    (case apply_blocks sample_env sample_gen sample_ledger_state [block_a] Map.empty of
       Inl e \<Rightarrow> None
     | Inr ov' \<Rightarrow> Some (read_ledger (get_acc sample_ledger_state ov')))"
proof (rule blocks_implement_ledger)
  note facts = genesis_ledger_facts [where P = sample_env and gen = sample_gen]
  have "premine_total sample_env sample_gen = 1000"
    by (simp add: premine_total_def premine_list_def sample_premine)
  then show "total_supply (read_ledger (get_acc sample_ledger_state Map.empty)) + minted sample_gen [block_a] < 2 ^ 64 - 1"
    unfolding sample_ledger_read facts(2) sample_minted by simp
  show "finite (holders (read_ledger (get_acc sample_ledger_state Map.empty)))"
    unfolding sample_ledger_read by (rule facts(1))
  show "nonces_within (tx_count [block_a]) (read_ledger (get_acc sample_ledger_state Map.empty))"
    unfolding sample_ledger_read by (rule facts(3)) (simp add: block_a_def)
qed

lemma reconsider_error_state: "reconsider_tip E gen s old x h = Some (Inl e, s') \<Longrightarrow> s' = s"
  by (auto simp: reconsider_tip_def Let_def split: option.splits sum.splits prod.splits)

lemma submit_on_parent_error:
  assumes "submit_on_parent E c b x p = Some (Inl e, c')"
  shows "cstate c' = cstate c \<or> (\<exists>w. cstate c' = set_chainwork x w (store_block x b (cstate c)))"
  using assms
  by (auto simp: submit_on_parent_def Let_def dest!: reconsider_error_state
      split: if_splits sum.splits option.splits prod.splits)

lemma dataset_state: "dataset_for_height E c h = Some (r, c') \<Longrightarrow> cstate c' = cstate c"
  by (auto simp: dataset_for_height_def Let_def split: option.splits if_splits)

text \<open>
  C38. A submission that returns an error leaves the accounts, the tip, the height index and the
  pending transactions untouched, in every state whatsoever; of the store it can only have added the
  block and its chain work.
\<close>

theorem failed_submission_keeps_ledger:
  assumes "submit_block E c b = Some (Inl e, c')"
  shows "cstate c' = cstate c \<or>
    (\<exists>x w. cstate c' = set_chainwork x w (store_block x b (cstate c)) \<and>
      accounts (cstate c') = accounts (cstate c) \<and> heights (cstate c') = heights (cstate c) \<and>
      meta_tip (cstate c') = meta_tip (cstate c) \<and> mempool (cstate c') = mempool (cstate c))"
proof -
  from assms consider "cstate c' = cstate c" | c1 x p where "submit_on_parent E c1 b x p = Some (Inl e, c')" "cstate c1 = cstate c"
    by (auto simp: submit_block_def Let_def dest: dataset_state split: if_splits sum.splits option.splits prod.splits)
  then show ?thesis
  proof cases
    case 2
    from submit_on_parent_error [OF 2(1)] 2(2) show ?thesis
      by (auto simp: set_chainwork_def store_block_def)
  qed simp
qed

theorem failed_submission_keeps_ledger_witness:
  "\<exists>e c' x w. submit_block sample_env sample_chain (sample_block 1 sample_root 1 0 [sample_tx 5]) = Some (Inl e, c') \<and>
     cstate c' = set_chainwork x w (store_block x (sample_block 1 sample_root 1 0 [sample_tx 5]) (cstate sample_chain)) \<and>
     cstate c' \<noteq> cstate sample_chain \<and> accounts (cstate c') = accounts (cstate sample_chain)"
proof -
  let ?b = "sample_block 1 sample_root 1 0 [sample_tx 5]"
  obtain ds where ds: "generate sample_env 0 (epoch_seed sample_env None) = Some ds" "wf_dataset ds"
    using sample_dataset by blast
  have id: "header_id sample_env (header ?b) ds = Some (sample_id 1 0)" by (rule sample_block_id [OF wf_sample_root ds(2)])
  have tip: "tip (cstate sample_chain) = Some (0, sample_root)"
    using sample_canonical by (auto simp: canonical_def branch_Nil sample_root_def unat_eq_0)
  have replay: "spec_blocks sample_env sample_gen (map snd [] @ [?b]) (genesis_ledger sample_env sample_gen) = None"
    by (simp add: spec_block_def spec_tx_def Let_def sample_sender sample_tx_fields sample_genesis_ledger)
  have fresh: "get_block (cstate sample_chain) (sample_id 1 0) = None" using sample_root_fresh [of 1 0] by (simp add: sample_fields)
  have "\<exists>e c'. submit_block sample_env sample_chain ?b = Some (Inl e, c') \<and> replay_error ([] @ [(sample_id 1 0, ?b)]) e \<and>
    reachable sample_env sample_gen c' \<and> same_tip (cstate sample_chain) (cstate c') \<and>
    stores sample_env sample_gen (cstate sample_chain) (sample_id 1 0) ?b ([] @ [(sample_id 1 0, ?b)]) (cstate c') \<and>
    tx_room sample_env sample_gen (cstate c')"
    by (rule extend_tip_refused [where p = "genesis_block sample_gen", OF sample_hyps sample_canonical tip ds(1) id fresh
          _ _ _ _ _ _ _ _ _ sample_room _ replay])
      (simp_all add: sample_fields early_difficulty meets_target_one EPOCH_LENGTH_def sample_tx_valid)
  then obtain e c' where c: "submit_block sample_env sample_chain ?b = Some (Inl e, c')"
    "stores sample_env sample_gen (cstate sample_chain) (sample_id 1 0) ?b ([] @ [(sample_id 1 0, ?b)]) (cstate c')"
    by blast
  have "get_block (cstate c') (sample_id 1 0) = Some ?b" using c(2) by (simp add: stores_def)
  then have "cstate c' \<noteq> cstate sample_chain" using fresh by auto
  with failed_submission_keeps_ledger [OF c(1)] c(1) show ?thesis by blast
qed

text \<open>
  The shipped configurations satisfy the hypothesis on the supply, whatever the third-party
  functions are: they mint at most 21 million coins of \<open>10^8\<close> units.
\<close>

theorem shipped_configs_capped:
  "supply_capped P testnet_default \<and> supply_capped P testnet_genesis_json \<and>
   emission_cap testnet_genesis_json = 21000000 * 10 ^ 8"
proof -
  have "premine_total P testnet_default = 0" "premine_total P testnet_genesis_json = 0"
    by (simp_all add: premine_total_def premine_list_def premine_parsed_def testnet_default_def testnet_genesis_json_def)
  then show ?thesis
    unfolding supply_capped_def by (simp add: emission_cap_def testnet_default_def testnet_genesis_json_def)
qed

text \<open>
  Restarting a node changes nothing but the in-memory dataset cache: on every run, opening the
  stored database again gives the same store, and does not run the genesis a second time.
\<close>

theorem reopen_keeps_store:
  assumes "reachable E gen c" "hash_sizes E" "supply_capped E gen"
  shows "chain_open E gen (cstate c) = Inr (c\<lparr>dataset_cache := None\<rparr>)"
proof -
  have "tip (cstate c) \<noteq> None" by (rule chain_inv_tip [OF reachable_inv [OF assms]])
  from chain_open_again [OF this, of E gen] reachable_gen [OF assms] show ?thesis
    by (cases c) simp
qed

theorem reopen_keeps_store_witness:
  "\<exists>c. reachable sample_env sample_gen c \<and> canonical sample_env sample_gen (cstate c) [entry_b, entry_c] \<and>
     chain_open sample_env sample_gen (cstate c) = Inr (c\<lparr>dataset_cache := None\<rparr>)"
proof -
  obtain c where c: "reachable sample_env sample_gen c" "canonical sample_env sample_gen (cstate c) [entry_b, entry_c]"
    using run_c by blast
  from reopen_keeps_store [OF c(1) sample_env_laws(1) sample_capped] c show ?thesis by blast
qed

text \<open>
  The pending transactions are a set keyed by hash, on every store whose tree is in order:
  inserting replaces the transaction of that hash, removing drops it, listing returns each once, and
  both keep the order.
\<close>

theorem pending_transactions_by_hash:
  assumes "mempool_ok E s"
  shows "set (mempool_all (mempool_insert E tx s)) = insert tx {t \<in> set (mempool_all s). tx_hash E t \<noteq> tx_hash E tx} \<and>
    set (mempool_all (mempool_remove h s)) = {t \<in> set (mempool_all s). tx_hash E t \<noteq> h} \<and>
    distinct (map (tx_hash E) (mempool_all s)) \<and>
    mempool_ok E (mempool_insert E tx s) \<and> mempool_ok E (mempool_remove h s)"
proof -
  have ok: "tree_ok (mempool s)" and keys: "\<And>k t. (k, t) \<in> set (mempool s) \<Longrightarrow> k = tx_hash E t"
    using assms by (auto simp: mempool_ok_def)
  have "map (tx_hash E) (mempool_all s) = map fst (mempool s)"
    unfolding mempool_all_def by (auto dest: keys)
  then have "distinct (map (tx_hash E) (mempool_all s))" using pending.entries_distinct [OF ok] by simp
  moreover have "set (mempool_all (mempool_insert E tx s)) =
      insert tx {t \<in> set (mempool_all s). tx_hash E t \<noteq> tx_hash E tx}"
    using pending.entries_insert [OF ok, of "tx_hash E tx" tx] keys
    by (force simp: mempool_all_def state_simps)
  moreover have "set (mempool_all (mempool_remove h s)) = {t \<in> set (mempool_all s). tx_hash E t \<noteq> h}"
    using pending.entries_remove [OF ok, of h] keys by (force simp: mempool_all_def state_simps)
  ultimately show ?thesis using mempool_ok_insert [OF assms] mempool_ok_remove [OF assms] by blast
qed

theorem pending_transactions_by_hash_witness:
  "let s = mempool_insert sample_env (sample_tx 0) empty_state in
    set (mempool_all (mempool_insert sample_env (sample_tx 1) s)) =
      insert (sample_tx 1) {t \<in> set (mempool_all s). tx_hash sample_env t \<noteq> tx_hash sample_env (sample_tx 1)} \<and>
    set (mempool_all (mempool_remove ZERO s)) = {t \<in> set (mempool_all s). tx_hash sample_env t \<noteq> ZERO} \<and>
    distinct (map (tx_hash sample_env) (mempool_all s)) \<and>
    mempool_ok sample_env (mempool_insert sample_env (sample_tx 1) s) \<and> mempool_ok sample_env (mempool_remove ZERO s)"
  unfolding Let_def
  by (rule pending_transactions_by_hash)
    (simp add: mempool_ok_def state_simps empty_state_fields tree_ok_def)

text \<open>
  A reorganisation hands back exactly the transactions of the undone blocks whose hash is not
  among those of the applied blocks, in the order the blocks are undone.
\<close>

theorem requeued_exactly:
  "requeued E us ns = concat (map (\<lambda>(x, b). filter (\<lambda>tx. \<forall>(y, d) \<in> set ns. \<forall>t \<in> set (transactions d).
     tx_hash E t \<noteq> tx_hash E tx) (transactions b)) us)"
proof -
  define Q where "Q = (\<lambda>tx. \<forall>(y, d) \<in> set ns. \<forall>t \<in> set (transactions d). tx_hash E t \<noteq> tx_hash E tx)"
  have "(\<lambda>tx. tx_hash E tx \<notin> set (concat (map (\<lambda>(x, b). map (tx_hash E) (transactions b)) ns))) = Q"
  proof
    fix tx
    show "tx_hash E tx \<notin> set (concat (map (\<lambda>(x, b). map (tx_hash E) (transactions b)) ns)) \<longleftrightarrow> Q tx"
      unfolding Q_def by (induction ns) (auto simp: image_iff eq_commute [of "tx_hash E tx"])
  qed
  then have "requeued E us ns = filter Q (concat (map (\<lambda>(x, b). transactions b) us))"
    by (simp only: requeued_def Let_def)
  also have "\<dots> = concat (map (\<lambda>(x, b). filter Q (transactions b)) us)"
    by (induction us) auto
  finally show ?thesis by (simp only: Q_def)
qed

theorem requeued_exactly_witness:
  "requeued sample_env [entry_a] [entry_b, entry_c] = concat (map (\<lambda>(x, b). filter (\<lambda>tx. \<forall>(y, d) \<in> set [entry_b, entry_c].
     \<forall>t \<in> set (transactions d). tx_hash sample_env t \<noteq> tx_hash sample_env tx) (transactions b)) [entry_a])"
  by (rule requeued_exactly)

text \<open>
  Nothing unchecked is ever stored: on every run, every stored block but genesis carries its
  Merkle root, meets its own target under a well-formed dataset, holds only validly signed
  transactions, sits on a stored parent one height below, and states the difficulty its own branch
  prescribes.
\<close>

theorem stored_blocks_checked:
  assumes "reachable E gen c" "hash_sizes E" "supply_capped E gen"
    and "get_block (cstate c) x = Some b" "x \<noteq> genesis_block_hash E gen"
  shows "tx_root (header b) = compute_tx_root E b \<and>
    meets_target x (target_for_difficulty (difficulty (header b))) \<and>
    list_all (is_signature_valid E) (transactions b) \<and>
    (\<exists>ds. wf_dataset ds \<and> header_id E (header b) ds = Some x) \<and>
    (\<exists>p. get_block (cstate c) (prev_hash (header b)) = Some p \<and>
      unat (height (header b)) = unat (height (header p)) + 1 \<and>
      expected_difficulty_after c p = Inr (difficulty (header b)))"
proof -
  have tree: "block_tree E gen (cstate c)" using reachable_inv [OF assms(1-3)] by (simp add: chain_inv_def)
  then have chk: "checked E gen (cstate c) x b" using assms(4,5) by (simp add: block_tree_def)
  then obtain p where p: "get_block (cstate c) (prev_hash (header b)) = Some p"
    "difficulty_due gen (cstate c) p = Inr (difficulty (header b))" by (auto simp: checked_def)
  obtain bs where bs: "branch (cstate c) (genesis_block_hash E gen) x bs"
    using tree assms(4) by (auto simp: block_tree_def)
  from bs have "unat (height (header b)) = unat (height (header p)) + 1"
  proof (cases rule: branch.cases)
    case (grow b' bs')
    then have "b' = b" using assms(4) by simp
    with grow branch_height [of "cstate c" _ "prev_hash (header b)" bs' p] p(1) show ?thesis by simp
  qed (use assms(5) in simp)
  moreover have "expected_difficulty_after c p = Inr (difficulty (header b))"
    using p(2) reachable_gen [OF assms(1-3)] difficulty_due_chain [of c p] by simp
  ultimately show ?thesis using chk p(1) by (auto simp: checked_def)
qed

theorem stored_blocks_checked_witness:
  "\<exists>c. reachable sample_env sample_gen c \<and> get_block (cstate c) (sample_id 1 0) = Some block_a \<and>
    tx_root (header block_a) = compute_tx_root sample_env block_a \<and>
    meets_target (sample_id 1 0) (target_for_difficulty (difficulty (header block_a))) \<and>
    list_all (is_signature_valid sample_env) (transactions block_a) \<and>
    (\<exists>ds. wf_dataset ds \<and> header_id sample_env (header block_a) ds = Some (sample_id 1 0)) \<and>
    (\<exists>p. get_block (cstate c) (prev_hash (header block_a)) = Some p \<and>
      unat (height (header block_a)) = unat (height (header p)) + 1 \<and>
      expected_difficulty_after c p = Inr (difficulty (header block_a)))"
proof -
  obtain c where c: "reachable sample_env sample_gen c"
    "stores sample_env sample_gen (cstate sample_chain) (sample_id 1 0) block_a [(sample_id 1 0, block_a)] (cstate c)"
    using run_a by blast
  then have blk: "get_block (cstate c) (sample_id 1 0) = Some block_a" by (simp add: stores_def)
  have "sample_id 1 0 \<noteq> genesis_block_hash sample_env sample_gen"
    using sample_root_fresh by (metis sample_root_def)
  from stored_blocks_checked [OF c(1) sample_env_laws(1) sample_capped blk this] c(1) blk show ?thesis by blast
qed

end
