(* ===== verification/Mining_Properties.thy ===== *)
theory Mining_Properties
  imports Miner Chain_Properties
begin

text \<open>
  The properties that a miner relies on: the difficulty of a template is the one the block will be
  checked against, and a mined template is accepted. And the one an attacker relies on: a block body
  can be altered without changing its header, and the first body a node sees shuts out the other.
\<close>

section \<open>Difficulty along the canonical branch\<close>

lemma canonical_block_at:
  assumes can: "canonical E gen s obs" and k: "unat k \<le> length obs"
    and br: "branch s (genesis_block_hash E gen) y (take (unat k) obs)"
  shows "get_hash_by_height s k = Some y"
proof (cases "k = 0")
  case True
  with can branch_last [OF br] show ?thesis by (simp add: canonical_def)
next
  case False
  then have nz: "unat k \<noteq> 0" by (simp add: unat_eq_0)
  then have ne: "take (unat k) obs \<noteq> []" using k by auto
  have "last (take (unat k) obs) = obs ! (unat k - 1)"
    using nz k ne by (simp add: last_conv_nth)
  then have "y = fst (obs ! (unat k - 1))" using branch_last [OF br] ne by simp
  with can k False show ?thesis by (simp add: canonical_def)
qed

lemma template_difficulty:
  assumes can: "canonical E gen (cstate c) obs" and tip: "tip (cstate c) = Some (h, x)"
    and p: "get_block (cstate c) x = Some p"
  shows "height (header p) = h \<and> compute_next_difficulty c (h + 1) = expected_difficulty_after c p"
proof -
  let ?s = "cstate c" and ?w = "max (retarget_window (cgenesis c)) 1"
  have br: "branch ?s (genesis_block_hash E gen) x obs" and h: "unat h = length obs"
    using can tip by (auto simp: canonical_def)
  have ph: "height (header p) = h" using branch_height [OF br p] h by (simp add: word_unat_eq_iff)
  have "compute_next_difficulty c (h + 1) = expected_difficulty_after c p"
  proof (cases "h + 1 \<le> ?w")
    case True
    then show ?thesis by (simp add: compute_next_difficulty_def expected_difficulty_after_def ph)
  next
    case False
    then have "h + 1 \<noteq> 0" by auto
    then have "unat (h + 1) = Suc (unat h)" using unatSuc [of h] by (simp add: add.commute)
    then have w: "unat ?w \<le> unat h" using False by (simp add: word_le_nat_alt)
    then have k: "unat (h - ?w) = length obs - unat ?w" by (simp add: unat_sub word_le_nat_alt h)
    from w have "unat ?w \<le> length obs" using h by simp
    from ancestor_branch [OF br p this] obtain y a where
      y: "branch ?s (genesis_block_hash E gen) y (take (length obs - unat ?w) obs)" "get_block ?s y = Some a"
      "block_ancestor ?s p (unat ?w) = Some a" by blast
    have "get_hash_by_height ?s (h - ?w) = Some y"
      by (rule canonical_block_at [OF can _ y(1) [folded k]]) (simp add: k)
    moreover have "get_hash_by_height ?s h = Some x"
      by (rule canonical_block_at [OF can]) (simp_all add: h br)
    ultimately have "get_block_by_height ?s (h - ?w) = Some a" "get_block_by_height ?s h = Some p"
      using y(2) p by (simp_all add: get_block_by_height_def)
    then show ?thesis using False y(3)
      by (simp add: compute_next_difficulty_def expected_difficulty_after_def ph Let_def)
  qed
  with ph show ?thesis by blast
qed

lemma difficulty_rules:
  assumes "reachable E gen c" "hash_sizes E" "supply_capped E gen"
    and "tip (cstate c) = Some (h, x)" "get_block (cstate c) x = Some p"
  shows "\<exists>d. compute_next_difficulty c (h + 1) = Inr d \<and> expected_difficulty_after c p = Inr d \<and>
    (0 < initial_difficulty gen \<longrightarrow> 0 < d)"
proof -
  obtain obs where can: "canonical E gen (cstate c) obs" using reachable_inv [OF assms(1-3)] by (auto simp: chain_inv_def)
  have gen: "cgenesis c = gen" by (rule reachable_gen [OF assms(1-3)])
  obtain br: "branch (cstate c) (genesis_block_hash E gen) x obs" using can assms(4) by (auto simp: canonical_def)
  obtain d where d: "expected_difficulty_after c p = Inr d"
    using difficulty_due_defined [OF br assms(5)] gen difficulty_due_chain [of c p] by metis
  have "0 < d" if "0 < initial_difficulty gen"
    using d that gen
    by (auto simp: expected_difficulty_after_def Let_def next_difficulty_def word_gt_0 max_def
        split: if_splits option.splits)
  with d template_difficulty [OF can assms(4,5)] show ?thesis by auto
qed

lemma next_difficulty_defined:
  assumes "reachable E gen c" "hash_sizes E" "supply_capped E gen"
    and "tip (cstate c) = Some (h, x)" "get_block (cstate c) x = Some p" "0 < initial_difficulty gen"
  shows "\<exists>d. compute_next_difficulty c (h + 1) = Inr d \<and> expected_difficulty_after c p = Inr d \<and> 0 < d"
  using difficulty_rules [OF assms(1-5)] assms(6) by blast

text \<open>
  C16. The two difficulty rules agree. On every run the difficulty that a template gets from \<open>compute_next_difficulty\<close>,
  which reads the window through the height index, is the one that a submission demands by
  \<open>expected_difficulty_after\<close>, which walks back from the tip block over the parents; neither fails there, and the
  difficulty is positive when the initial difficulty is.
\<close>

theorem difficulty_rules_agree:
  assumes "reachable E gen c" "hash_sizes E" "supply_capped E gen"
    and "tip (cstate c) = Some (h, x)" "get_block (cstate c) x = Some p"
  shows "\<exists>d. compute_next_difficulty c (h + 1) = Inr d \<and> expected_difficulty_after c p = Inr d \<and>
    (0 < initial_difficulty gen \<longrightarrow> 0 < d)"
  by (rule difficulty_rules [OF assms])

theorem difficulty_rules_agree_witness:
  "\<exists>d. compute_next_difficulty sample_chain (0 + 1) = Inr d \<and>
    expected_difficulty_after sample_chain (genesis_block sample_gen) = Inr d \<and> 0 < d"
  using difficulty_rules_agree [OF sample_hyps sample_fields(2), of "genesis_block sample_gen"]
  by (simp add: sample_fields) (simp add: sample_gen_def)

section \<open>Mining\<close>

lemma template_fields:
  assumes "work_template E now c a txs = Some (Inr (b, ds), c1)"
  shows "\<exists>h x d. tip (cstate c) = Some (h, x) \<and> height (header b) = h + 1 \<and> prev_hash (header b) = x \<and>
    compute_next_difficulty c1 (h + 1) = Inr d \<and> difficulty (header b) = d \<and> transactions b = txs \<and>
    tx_root (header b) = compute_tx_root E b \<and> dataset_for_height E c (h + 1) = Some (Inr ds, c1)"
  using assms
  by (auto simp: work_template_def compute_tx_root_def split: option.splits sum.splits prod.splits)

lemma template_accepted:
  assumes "reachable E gen c" "hash_sizes E" "supply_capped E gen" "0 < initial_difficulty gen"
    and "work_template E now c a txs = Some (Inr (b, ds), c1)"
    and "header_id E (header (with_nonce b n)) ds = Some x" "get_block (cstate c) x = None"
    and "meets_target x (target_for_difficulty (difficulty (header b)))"
    and "list_all (is_signature_valid E) txs"
    and "canonical E gen (cstate c) bs" "tx_room E gen (cstate c)" "tx_count (map snd bs @ [b]) < 2 ^ 64"
    and "spec_blocks E gen (map snd bs @ [with_nonce b n]) (genesis_ledger E gen) \<noteq> None"
  shows "\<exists>c2. submit_block E c1 (with_nonce b n) = Some (Inr (Accepted x (height (header b)) False []), c2) \<and>
    canonical E gen (cstate c2) (bs @ [(x, with_nonce b n)]) \<and> get_block (cstate c2) x = Some (with_nonce b n)"
proof -
  obtain h x0 d where t: "tip (cstate c) = Some (h, x0)" "height (header b) = h + 1" "prev_hash (header b) = x0"
    "compute_next_difficulty c1 (h + 1) = Inr d" "difficulty (header b) = d" "transactions b = txs"
    "tx_root (header b) = compute_tx_root E b" "dataset_for_height E c (h + 1) = Some (Inr ds, c1)"
    using template_fields [OF assms(5)] by blast
  have r1: "reachable E gen c1" by (rule reachable.templated [OF assms(1,5)])
  note hyps = r1 assms(2,3)
  have st: "cstate c1 = cstate c" by (rule dataset_state [OF t(8)])
  have ds: "h + 1 < EPOCH_LENGTH" "generate E 0 (epoch_seed E None) = Some ds"
    using t(8) first_epoch_dataset [OF reachable_inv [OF assms(1-3)] reachable_first_epoch [OF assms(1-3)], of "h + 1"]
    by (auto split: if_splits option.splits)
  obtain p where p: "get_block (cstate c) x0 = Some p"
    using assms(10) t(1) branch_stored by (fastforce simp: canonical_def)
  have "tip (cstate c1) = Some (h, x0)" "get_block (cstate c1) x0 = Some p" using t(1) p st by simp_all
  from next_difficulty_defined [OF hyps this assms(4)] obtain d' where
    d': "compute_next_difficulty c1 (h + 1) = Inr d'" "expected_difficulty_after c1 p = Inr d'" "0 < d'" by blast
  have "\<exists>c2. submit_block E c1 (with_nonce b n) = Some (Inr (Accepted x (h + 1) False []), c2) \<and> reachable E gen c2 \<and>
      canonical E gen (cstate c2) (bs @ [(x, with_nonce b n)]) \<and>
      stores E gen (cstate c1) x (with_nonce b n) (bs @ [(x, with_nonce b n)]) (cstate c2)"
    by (rule extend_tip [OF hyps _ _ ds(2) assms(6)]) (use assms t p d' ds st in simp_all)
  then show ?thesis using t(2) by (auto simp: stores_def)
qed

text \<open>
  Mining works: take any template the node hands out on any run, let a miner find a nonce whose
  hash under the template's dataset meets the target, and let the transactions be signed and replay on
  the canonical branch; then the node accepts the block, as the new tip, without a reorganisation.
\<close>

theorem mined_template_accepted:
  assumes "reachable E gen c" "hash_sizes E" "supply_capped E gen" "0 < initial_difficulty gen"
    and "work_template E now c a txs = Some (Inr (b, ds), c1)"
    and "header_id E (header (with_nonce b n)) ds = Some x" "get_block (cstate c) x = None"
    and "meets_target x (target_for_difficulty (difficulty (header b)))"
    and "list_all (is_signature_valid E) txs"
    and "canonical E gen (cstate c) bs" "tx_room E gen (cstate c)" "tx_count (map snd bs @ [b]) < 2 ^ 64"
    and "spec_blocks E gen (map snd bs @ [with_nonce b n]) (genesis_ledger E gen) \<noteq> None"
  shows "\<exists>c2. submit_block E c1 (with_nonce b n) = Some (Inr (Accepted x (height (header b)) False []), c2) \<and>
    canonical E gen (cstate c2) (bs @ [(x, with_nonce b n)])"
  using template_accepted [OF assms] by blast

theorem mined_template_accepted_witness:
  "\<exists>b ds c1 c2 x. work_template sample_env 30 sample_chain (sample_addr 1) [sample_tx 0] = Some (Inr (b, ds), c1) \<and>
     submit_block sample_env c1 (with_nonce b 5) = Some (Inr (Accepted x (height (header b)) False []), c2) \<and>
     canonical sample_env sample_gen (cstate c2) ([] @ [(x, with_nonce b 5)])"
proof -
  obtain ds where ds: "generate sample_env 0 (epoch_seed sample_env None) = Some ds" "wf_dataset ds"
    using sample_dataset by blast
  note inv = reachable_inv [OF sample_hyps] and fe = reachable_first_epoch [OF sample_hyps]
  define b where "b = sample_block 1 sample_root 1 0 [sample_tx 0]"
  define c1 where "c1 = sample_chain\<lparr>dataset_cache := Some (0, ds)\<rparr>"
  have "compute_next_difficulty c1 1 = Inr 1"
    by (simp add: compute_next_difficulty_def c1_def Let_def sample_fields le_max_iff_disj) (simp add: sample_gen_def)
  then have w: "work_template sample_env 30 sample_chain (sample_addr 1) [sample_tx 0] = Some (Inr (b, ds), c1)"
    by (simp add: work_template_def sample_fields first_epoch_dataset [OF inv fe] EPOCH_LENGTH_def ds(1) c1_def
        b_def sample_block_def)
  have wn: "with_nonce b 5 = sample_block 1 sample_root 1 5 [sample_tx 0]"
    by (simp add: with_nonce_def b_def sample_block_def)
  have id: "header_id sample_env (header (with_nonce b 5)) ds = Some (sample_id 1 5)"
    unfolding wn by (rule sample_block_id [OF wf_sample_root ds(2)])
  have "spec_blocks sample_env sample_gen (map snd [] @ [with_nonce b 5]) (genesis_ledger sample_env sample_gen) \<noteq> None"
    by (simp add: wn spec_block_def spec_tx_def Let_def sample_sender sample_tx_fields sample_genesis_ledger
      credit_ledger_def reward_early)
  from mined_template_accepted [OF sample_hyps _ w id _ _ _ sample_canonical sample_room _ this]
  have "\<exists>c2. submit_block sample_env c1 (with_nonce b 5) =
      Some (Inr (Accepted (sample_id 1 5) (height (header b)) False []), c2) \<and>
      canonical sample_env sample_gen (cstate c2) ([] @ [(sample_id 1 5, with_nonce b 5)])"
    using sample_root_fresh [symmetric]
    by (simp add: sample_fields b_def meets_target_one sample_tx_valid) (simp add: sample_gen_def)
  with w show ?thesis by blast
qed

section \<open>Altered block bodies\<close>

lemma spec_txs_append:
  "spec_txs P (xs @ ys) L = (case spec_txs P xs L of None \<Rightarrow> None | Some L' \<Rightarrow> spec_txs P ys L')"
  by (induction xs arbitrary: L) (auto split: option.splits)

lemma spec_tx_twice: "spec_tx P tx L = Some L' \<Longrightarrow> spec_tx P tx L' = None"
  by (auto simp: spec_tx_def Let_def credit_ledger_def split: if_splits)

lemma spec_txs_repeat_last: "txs \<noteq> [] \<Longrightarrow> spec_txs P (txs @ [last txs]) L = None"
proof -
  assume "txs \<noteq> []"
  then obtain xs tx where txs: "txs = xs @ [tx]" by (metis append_butlast_last_id)
  show ?thesis
  proof (cases "spec_txs P xs L")
    case (Some L1)
    then show ?thesis
      using spec_tx_twice [of P tx L1] by (cases "spec_tx P tx L1") (simp_all add: txs spec_txs_append)
  qed (simp add: txs spec_txs_append)
qed

definition repeat_last :: "block \<Rightarrow> block" where
  "repeat_last b = b\<lparr>transactions := transactions b @ [last (transactions b)]\<rparr>"

lemma repeat_last_root:
  assumes "odd (length (transactions b))" "1 < length (transactions b)"
  shows "compute_tx_root E (repeat_last b) = compute_tx_root E b"
proof -
  have "transactions b \<noteq> []" using assms(2) by auto
  then show ?thesis
    using merkle_root_dup [of "map (tx_hash E) (transactions b)" E] assms
    by (simp add: compute_tx_root_def repeat_last_def last_map)
qed

lemma first_epoch_known:
  assumes reach: "reachable E gen c" "hash_sizes E" "supply_capped E gen"
    and ds: "generate E 0 (epoch_seed E None) = Some ds" "header_id E (header b) ds = Some x"
    and stored: "get_block (cstate c) x = Some b'" and h: "0 < height (header b)" "height (header b) < EPOCH_LENGTH"
  shows "submit_block E c b = Some (Inr AlreadyKnown, c\<lparr>dataset_cache := Some (0, ds)\<rparr>)"
  using h stored
  by (simp add: submit_block_def Let_def ds has_block_iff
      first_epoch_dataset [OF reachable_inv [OF reach] reachable_first_epoch [OF reach]])

text \<open>
  C20. An altered body shuts out the honest block. Take a block that extends the tip and would be
  accepted, with an odd number of transactions, three or more, and repeat its last transaction: header
  and proof of work are unchanged, the altered block passes every check before the replay and is
  stored, the replay fails, and from then on the node answers \<open>AlreadyKnown\<close> to the honest block and
  stays on its old tip.
\<close>

theorem altered_body_shuts_out_block:
  assumes "reachable E gen c" "hash_sizes E" "supply_capped E gen" "canonical E gen (cstate c) bs"
    and "tip (cstate c) = Some (h, x0)" "get_block (cstate c) x0 = Some p"
    and "generate E 0 (epoch_seed E None) = Some ds" "header_id E (header b) ds = Some x"
    and "get_block (cstate c) x = None" "prev_hash (header b) = x0" "height (header b) = h + 1" "0 < h + 1"
    and "h + 1 < EPOCH_LENGTH" "expected_difficulty_after c p = Inr (difficulty (header b))" "0 < difficulty (header b)"
    and "tx_root (header b) = compute_tx_root E b" "meets_target x (target_for_difficulty (difficulty (header b)))"
    and "list_all (is_signature_valid E) (transactions b)"
    and "tx_room E gen (cstate c)" "tx_count (map snd bs @ [repeat_last b]) < 2 ^ 64"
    and "odd (length (transactions b))" "1 < length (transactions b)"
    and "spec_blocks E gen (map snd bs @ [b]) (genesis_ledger E gen) \<noteq> None"
  shows "(\<exists>c'. submit_block E c b = Some (Inr (Accepted x (h + 1) False []), c')) \<and>
    (\<exists>e c1 c2. submit_block E c (repeat_last b) = Some (Inl e, c1) \<and>
       submit_block E c1 b = Some (Inr AlreadyKnown, c2) \<and> tip (cstate c2) = tip (cstate c))"
proof
  have count: "tx_count (map snd bs @ [b]) < 2 ^ 64" using assms(20) by (simp add: repeat_last_def)
  have "\<exists>c'. submit_block E c b = Some (Inr (Accepted x (h + 1) False []), c') \<and> reachable E gen c' \<and>
      canonical E gen (cstate c') (bs @ [(x, b)]) \<and> stores E gen (cstate c) x b (bs @ [(x, b)]) (cstate c')"
    by (rule extend_tip [OF assms(1-5,7-11,13,6,14-19) count assms(23)])
  then show "\<exists>c'. submit_block E c b = Some (Inr (Accepted x (h + 1) False []), c')" by blast
  let ?b = "repeat_last b"
  have hd: "header ?b = header b" by (simp add: repeat_last_def)
  have ne: "transactions b \<noteq> []" using assms(22) by auto
  have "list_all (is_signature_valid E) (transactions ?b)"
    using assms(18) last_in_set [OF ne] by (simp add: repeat_last_def list_all_iff)
  moreover have "tx_root (header ?b) = compute_tx_root E ?b"
    using assms(16) repeat_last_root [OF assms(21,22), of E] by (simp add: hd)
  moreover have "spec_block E gen ?b L = None" for L
    by (simp add: spec_block_def repeat_last_def spec_txs_repeat_last [OF ne])
  then have "spec_blocks E gen (map snd bs @ [?b]) (genesis_ledger E gen) = None"
    by (simp add: spec_blocks_append split: option.splits)
  ultimately obtain e c1 where sub: "submit_block E c ?b = Some (Inl e, c1)" and r1: "reachable E gen c1"
    and st: "stores E gen (cstate c) x ?b (bs @ [(x, ?b)]) (cstate c1)" and e: "same_tip (cstate c) (cstate c1)"
    using extend_tip_refused [OF assms(1-5,7), of ?b x p] assms by (auto simp: hd)
  have "get_block (cstate c1) x = Some ?b" using st by (simp add: stores_def)
  from first_epoch_known [OF r1 assms(2,3,7,8) this] assms(11-13)
  have "submit_block E c1 b = Some (Inr AlreadyKnown, c1\<lparr>dataset_cache := Some (0, ds)\<rparr>)" by simp
  with sub e show "\<exists>e c1 c2. submit_block E c ?b = Some (Inl e, c1) \<and>
       submit_block E c1 b = Some (Inr AlreadyKnown, c2) \<and> tip (cstate c2) = tip (cstate c)"
    by (auto simp: same_tip_def)
qed

theorem altered_body_shuts_out_block_witness:
  "let b = sample_block 1 sample_root 1 0 [sample_tx 0, sample_tx 1, sample_tx 2] in
   (\<exists>c'. submit_block sample_env sample_chain b = Some (Inr (Accepted (sample_id 1 0) (0 + 1) False []), c')) \<and>
   (\<exists>e c1 c2. submit_block sample_env sample_chain (repeat_last b) = Some (Inl e, c1) \<and>
      submit_block sample_env c1 b = Some (Inr AlreadyKnown, c2) \<and> tip (cstate c2) = tip (cstate sample_chain))"
proof -
  define b where "b = sample_block 1 sample_root 1 0 [sample_tx 0, sample_tx 1, sample_tx 2]"
  obtain ds where ds: "generate sample_env 0 (epoch_seed sample_env None) = Some ds" "wf_dataset ds"
    using sample_dataset by blast
  have id: "header_id sample_env (header b) ds = Some (sample_id 1 0)"
    unfolding b_def by (rule sample_block_id [OF wf_sample_root ds(2)])
  have replay: "spec_blocks sample_env sample_gen (map snd [] @ [b]) (genesis_ledger sample_env sample_gen) \<noteq> None"
    by (simp add: b_def spec_block_def spec_tx_def Let_def sample_sender sample_tx_fields sample_genesis_ledger
      credit_ledger_def reward_early)
  have diff: "expected_difficulty_after sample_chain (genesis_block sample_gen) = Inr 1"
    by (rule early_difficulty) (simp_all add: sample_fields)
  have "(\<exists>c'. submit_block sample_env sample_chain b = Some (Inr (Accepted (sample_id 1 0) (0 + 1) False []), c')) \<and>
   (\<exists>e c1 c2. submit_block sample_env sample_chain (repeat_last b) = Some (Inl e, c1) \<and>
      submit_block sample_env c1 b = Some (Inr AlreadyKnown, c2) \<and> tip (cstate c2) = tip (cstate sample_chain))"
    by (rule altered_body_shuts_out_block [where p = "genesis_block sample_gen", OF sample_hyps sample_canonical sample_fields(2) _ ds(1) id _ _ _ _ _ _ _ _ _ _
        sample_room _ _ _ replay])
      (use sample_root_fresh [symmetric] in \<open>simp_all add: sample_fields b_def diff meets_target_one
         sample_tx_valid EPOCH_LENGTH_def repeat_last_def\<close>)
  then show ?thesis by (simp add: b_def)
qed

end
