(* ===== verification/Network_Properties.thy ===== *)
theory Network_Properties
  imports Network
begin

text \<open>
  The properties of the network: what is written on one side of an encrypted connection is read on
  the other, the peer table and the connections stay consistent on every interleaving, what reaches a
  wire is a queue, and two ways in which the peer table goes wrong.
\<close>

section \<open>Consistency of the peer table\<close>

definition conn_ok :: "string \<Rightarrow> conn \<Rightarrow> bool" where
  "conn_ok name c \<longleftrightarrow>
     (case conn_phase c of
        Greeting \<Rightarrow> wire c = [] \<and> rx_open c
      | Running \<Rightarrow> (\<exists>h ms. wire c = Handshake PROTOCOL_VERSION name h # ms)
      | Closed \<Rightarrow> \<not> rx_open c)"

definition net_ok :: "string \<Rightarrow> network \<Rightarrow> bool" where
  "net_ok name n \<longleftrightarrow> net_name n = name \<and> distinct (map fst (peers n)) \<and> distinct (map snd (peers n)) \<and>
     (\<forall>(a, i) \<in> set (peers n). i < length (conns n) \<and> conn_addr (conns n ! i) = a) \<and>
     (\<forall>c \<in> set (conns n). conn_ok name c)"

lemma set_alist_update:
  "distinct (map fst al) \<Longrightarrow> set (AList.update k v al) = {p \<in> set al. fst p \<noteq> k} \<union> {(k, v)}"
  by (induction al) (auto simp: image_iff)

lemma update_conn_fields [simp]:
  "peers (update_conn i f n) = peers n" "events (update_conn i f n) = events n"
  "net_name (update_conn i f n) = net_name n" "my_height (update_conn i f n) = my_height n"
  "length (conns (update_conn i f n)) = length (conns n)"
  by (simp_all add: update_conn_def)

lemma update_conn_nth:
  "i < length (conns n) \<Longrightarrow> conns (update_conn j f n) ! i = (if i = j then f (conns n ! i) else conns n ! i)"
  by (auto simp: update_conn_def nth_list_update)

lemma chan_send_fields [simp]:
  "peers (chan_send m i n) = peers n" "events (chan_send m i n) = events n"
  "net_name (chan_send m i n) = net_name n" "length (conns (chan_send m i n)) = length (conns n)"
  by (simp_all add: chan_send_def)

lemma fold_chan_send_fields [simp]:
  "peers (fold (chan_send m) is n) = peers n" "events (fold (chan_send m) is n) = events n"
  "net_name (fold (chan_send m) is n) = net_name n" "length (conns (fold (chan_send m) is n)) = length (conns n)"
  by (induction "is" arbitrary: n) simp_all

text \<open>What a send does to one connection: it appends to the queue of a connection that is listening.\<close>

definition enqueue :: "message \<Rightarrow> conn \<Rightarrow> conn" where
  "enqueue m c = (if rx_open c then c\<lparr>out_queue := out_queue c @ [m]\<rparr> else c)"

lemma enqueue_fields [simp]:
  "conn_addr (enqueue m c) = conn_addr c" "conn_phase (enqueue m c) = conn_phase c"
  "rx_open (enqueue m c) = rx_open c" "wire (enqueue m c) = wire c"
  by (simp_all add: enqueue_def)

lemma conn_ok_enqueue [simp]: "conn_ok name (enqueue m c) = conn_ok name c"
  by (simp add: conn_ok_def split: phase.split)

lemma chan_send_nth:
  "i < length (conns n) \<Longrightarrow> conns (chan_send m j n) ! i = (if i = j then enqueue m (conns n ! i) else conns n ! i)"
  by (simp add: chan_send_def update_conn_nth enqueue_def)

lemma fold_chan_send_nth:
  "distinct is \<Longrightarrow> i < length (conns n) \<Longrightarrow>
     conns (fold (chan_send m) is n) ! i = (if i \<in> set is then enqueue m (conns n ! i) else conns n ! i)"
  by (induction "is" arbitrary: n) (auto simp: chan_send_nth)

lemma broadcast_nth:
  assumes "net_ok name n" "i < length (conns n)"
  shows "conns (broadcast m n) ! i = (if i \<in> snd ` set (peers n) then enqueue m (conns n ! i) else conns n ! i)"
  using assms by (simp add: broadcast_def fold_chan_send_nth net_ok_def)

lemma send_to_nth:
  "i < length (conns n) \<Longrightarrow>
     conns (send_to a m n) ! i = (if map_of (peers n) a = Some i then enqueue m (conns n ! i) else conns n ! i)"
  by (auto simp: send_to_def chan_send_nth split: option.split)

lemma send_fields [simp]:
  "peers (broadcast m n) = peers n" "peers (send_to a m n) = peers n"
  "length (conns (broadcast m n)) = length (conns n)" "length (conns (send_to a m n)) = length (conns n)"
  "net_name (broadcast m n) = net_name n" "net_name (send_to a m n) = net_name n"
  "events (broadcast m n) = events n" "events (send_to a m n) = events n"
  by (simp_all add: broadcast_def send_to_def split: option.split)

lemma emit_fields [simp]:
  "peers (emit_event e n) = peers n" "conns (emit_event e n) = conns n" "net_name (emit_event e n) = net_name n"
  by (simp_all add: emit_event_def)

text \<open>A step that keeps the peers and changes each connection to a good one keeps the invariant.\<close>

lemma net_ok_conns:
  assumes "net_ok name n" "net_name n' = net_name n" "set (peers n') \<subseteq> set (peers n)"
    and "distinct (map fst (peers n'))" "distinct (map snd (peers n'))" "length (conns n') = length (conns n)"
    and "\<And>i. i < length (conns n) \<Longrightarrow> conn_addr (conns n' ! i) = conn_addr (conns n ! i) \<and> conn_ok name (conns n' ! i)"
  shows "net_ok name n'"
proof -
  have "\<forall>c \<in> set (conns n'). conn_ok name c"
    using assms(6,7) by (auto simp: in_set_conv_nth)
  moreover have "i < length (conns n') \<and> conn_addr (conns n' ! i) = a" if "(a, i) \<in> set (peers n')" for a i
  proof -
    have "(a, i) \<in> set (peers n)" using that assms(3) by blast
    then have "i < length (conns n)" "conn_addr (conns n ! i) = a" using assms(1) by (auto simp: net_ok_def)
    then show ?thesis using assms(6) assms(7) [of i] by simp
  qed
  moreover have "net_name n' = name" using assms(1,2) by (simp add: net_ok_def)
  ultimately show ?thesis using assms(4,5) unfolding net_ok_def by blast
qed

lemma net_ok_nth: "net_ok name n \<Longrightarrow> i < length (conns n) \<Longrightarrow> conn_ok name (conns n ! i)"
  by (simp add: net_ok_def)

lemma net_ok_distinct: "net_ok name n \<Longrightarrow> distinct (map fst (peers n)) \<and> distinct (map snd (peers n))"
  by (simp add: net_ok_def)

lemma net_ok_broadcast: "net_ok name n \<Longrightarrow> net_ok name (broadcast m n)"
  by (rule net_ok_conns [of name n]) (simp_all add: broadcast_nth net_ok_nth net_ok_distinct)

lemma net_ok_send_to: "net_ok name n \<Longrightarrow> net_ok name (send_to a m n)"
  by (rule net_ok_conns [of name n]) (simp_all add: send_to_nth net_ok_nth net_ok_distinct)

lemma net_ok_register:
  assumes "net_ok name n"
  shows "net_ok name (register_peer a n)"
proof -
  have fresh: "length (conns n) \<notin> snd ` set (peers n)" using assms by (auto simp: net_ok_def)
  have "distinct (map snd (AList.update a v al))" if "distinct (map snd al)" "v \<notin> snd ` set al" for v al
    using that
  proof (induction al)
    case (Cons p al)
    have "snd ` set (AList.update a v al) \<subseteq> insert v (snd ` set al)"
      by (induction al) auto
    with Cons show ?case by (cases p) auto
  qed simp
  with fresh assms show ?thesis
    by (auto simp: register_peer_def net_ok_def distinct_update set_alist_update nth_append conn_ok_def)
qed

lemma close_fields [simp]:
  "net_name (close_connection i n) = net_name n" "length (conns (close_connection i n)) = length (conns n)"
  "peers (close_connection i n) = AList.delete (conn_addr (conns n ! i)) (peers n)"
  by (simp_all add: close_connection_def Let_def)

lemma close_nth:
  "j < length (conns n) \<Longrightarrow> conns (close_connection i n) ! j =
     (if j = i then (conns n ! j)\<lparr>conn_phase := Closed, rx_open := False\<rparr> else conns n ! j)"
  by (simp add: close_connection_def Let_def update_conn_def nth_list_update)

lemma net_ok_close:
  assumes "net_ok name n"
  shows "net_ok name (close_connection i n)"
proof (rule net_ok_conns [OF assms])
  show "set (peers (close_connection i n)) \<subseteq> set (peers n)"
    by (auto simp: AList.delete_eq)
  show "distinct (map fst (peers (close_connection i n)))" "distinct (map snd (peers (close_connection i n)))"
    using net_ok_distinct [OF assms] by (simp_all add: distinct_delete) (simp add: AList.delete_eq distinct_map_filter)
  show "conn_addr (conns (close_connection i n) ! j) = conn_addr (conns n ! j) \<and>
      conn_ok name (conns (close_connection i n) ! j)" if "j < length (conns n)" for j
    using that net_ok_nth [OF assms that] by (auto simp: close_nth conn_ok_def)
qed simp_all

lemma net_ok_greet:
  assumes "net_ok name n" "i < length (conns n)" "conn_phase (conns n ! i) = Greeting"
  shows "net_ok name (greet_peer i ok n)"
proof (rule net_ok_conns [OF assms(1)])
  have name: "net_name n = name" and empty: "wire (conns n ! i) = []"
    using assms(1,3) net_ok_nth [OF assms(1,2)] by (auto simp: net_ok_def conn_ok_def)
  show "conn_addr (conns (greet_peer i ok n) ! j) = conn_addr (conns n ! j) \<and> conn_ok name (conns (greet_peer i ok n) ! j)"
    if "j < length (conns n)" for j
    using that net_ok_nth [OF assms(1) that] name empty by (auto simp: greet_peer_def update_conn_nth conn_ok_def)
qed (simp_all add: greet_peer_def net_ok_distinct [OF assms(1)])

lemma write_other: "j \<noteq> i \<Longrightarrow> j < length (conns n) \<Longrightarrow> conns (write_round i ok n) ! j = conns n ! j"
  by (simp add: write_round_def update_conn_def split: list.split)

lemma write_self:
  "i < length (conns n) \<Longrightarrow> conns (write_round i ok n) ! i =
     (case out_queue (conns n ! i) of
        m # ms \<Rightarrow> if ok then (conns n ! i)\<lparr>out_queue := ms, wire := wire (conns n ! i) @ [m]\<rparr>
                  else (conns n ! i)\<lparr>out_queue := ms, rx_open := False\<rparr>
      | [] \<Rightarrow> if i \<in> snd ` set (peers n) then conns n ! i else (conns n ! i)\<lparr>rx_open := False\<rparr>)"
  by (simp add: write_round_def update_conn_def split: list.split)

lemma write_fields [simp]:
  "peers (write_round i ok n) = peers n" "net_name (write_round i ok n) = net_name n"
  "length (conns (write_round i ok n)) = length (conns n)"
  by (simp_all add: write_round_def split: list.split)

lemma net_ok_write:
  assumes "net_ok name n" "i < length (conns n)" "conn_phase (conns n ! i) = Running"
  shows "net_ok name (write_round i ok n)"
proof (rule net_ok_conns [OF assms(1)])
  show "conn_addr (conns (write_round i ok n) ! j) = conn_addr (conns n ! j) \<and> conn_ok name (conns (write_round i ok n) ! j)"
    if "j < length (conns n)" for j
  proof (cases "j = i")
    case True
    then show ?thesis using net_ok_nth [OF assms(1,2)] assms(2,3)
      by (auto simp: write_self conn_ok_def split: list.split)
  qed (use that net_ok_nth [OF assms(1) that] in \<open>simp add: write_other\<close>)
qed (simp_all add: net_ok_distinct [OF assms(1)])

lemma handle_message_cases:
  assumes "handle_message i m n = Inr n'"
  obtains "n' = n" | e where "n' = emit_event e n" | a where "n' = send_to a Pong n"
  using assms by (auto simp: handle_message_def Let_def split: message.splits if_splits)

lemma net_ok_emit: "net_ok name n \<Longrightarrow> net_ok name (emit_event e n)"
  by (simp add: net_ok_def)

lemma net_ok_read:
  assumes "net_ok name n"
  shows "net_ok name (read_round i m n)"
  using net_ok_close [OF assms, of i] net_ok_emit [OF assms] net_ok_send_to [OF assms] assms
  by (auto simp: read_round_def elim!: handle_message_cases split: sum.splits)

lemma net_ok_other_fields [simp]:
  "net_ok name (n\<lparr>my_height := h\<rparr>) = net_ok name n" "net_ok name (n\<lparr>events := es\<rparr>) = net_ok name n"
  by (simp_all add: net_ok_def)

lemma net_ok_step: "net_ok name n \<Longrightarrow> net_step n n' \<Longrightarrow> net_ok name n'"
  by (erule net_stepE)
    (simp_all add: net_ok_register net_ok_greet net_ok_write net_ok_read net_ok_send_to net_ok_broadcast set_height_def)

lemma net_reachable_ok: "net_reachable name n \<Longrightarrow> net_ok name n"
proof (induction rule: net_reachable.induct)
  case started
  then show ?case by (simp add: new_network_def net_ok_def)
qed (rule net_ok_step)

section \<open>One step, seen from one connection\<close>

text \<open>
  What a step of the network does to a connection that has been greeted: its wire grows by the front
  of its queue, the queue grows at its back, or the connection stops listening.
\<close>

definition conn_grows :: "conn \<Rightarrow> conn \<Rightarrow> bool" where
  "conn_grows c c' \<longleftrightarrow> conn_addr c' = conn_addr c \<and> conn_phase c' \<noteq> Greeting \<and>
     (conn_phase c = Closed \<longrightarrow> conn_phase c' = Closed) \<and> prefix (wire c) (wire c') \<and>
     (rx_open c' \<longrightarrow> rx_open c \<and> prefix (wire c @ out_queue c) (wire c' @ out_queue c'))"

lemma conn_grows_refl: "conn_phase c \<noteq> Greeting \<Longrightarrow> conn_grows c c"
  by (simp add: conn_grows_def)

lemma conn_grows_trans: "conn_grows c d \<Longrightarrow> conn_grows d e \<Longrightarrow> conn_grows c e"
  by (auto simp: conn_grows_def intro: prefix_order.trans)

lemma conn_grows_enqueue: "conn_phase c \<noteq> Greeting \<Longrightarrow> conn_grows c (enqueue m c)"
  by (auto simp: conn_grows_def enqueue_def prefix_def)

lemma conn_grows_close:
  "conn_phase c \<noteq> Greeting \<Longrightarrow> conn_grows c (c\<lparr>conn_phase := Closed, rx_open := False\<rparr>)"
  by (simp add: conn_grows_def)

lemma conn_grows_write:
  assumes "conn_phase (conns n ! i) \<noteq> Greeting" "i < length (conns n)" "rx_open (conns n ! i)"
  shows "conn_grows (conns n ! i) (conns (write_round i ok n) ! i)"
  using assms by (auto simp: write_self conn_grows_def split: list.split)

lemma conn_grows_read:
  assumes "conn_phase (conns n ! i) \<noteq> Greeting" "i < length (conns n)"
  shows "conn_grows (conns n ! i) (conns (read_round j m n) ! i)"
  using assms
  by (auto simp: read_round_def close_nth send_to_nth conn_grows_refl conn_grows_close conn_grows_enqueue
      elim!: handle_message_cases split: sum.split)

lemma net_step_conn:
  assumes "net_step n n'" "net_ok name n" "i < length (conns n)" "conn_phase (conns n ! i) \<noteq> Greeting"
  shows "i < length (conns n') \<and> conn_grows (conns n ! i) (conns n' ! i)"
  using assms(1)
proof (cases rule: net_step.cases)
  case (registered a)
  then show ?thesis using assms(3,4) by (simp add: register_peer_def nth_append conn_grows_refl)
next
  case (greeted j ok)
  then have "j \<noteq> i" using assms(4) by auto
  with greeted assms(3,4) show ?thesis by (simp add: greet_peer_def update_conn_nth conn_grows_refl)
next
  case (wrote j ok)
  then show ?thesis
    using assms(3,4) conn_grows_write [of n i ok] by (cases "j = i") (simp_all add: write_other conn_grows_refl)
next
  case (received j m)
  then show ?thesis
    using conn_grows_read [OF assms(4,3), of j m] assms(3)
    by (auto simp: read_round_def elim!: handle_message_cases split: sum.splits)
next
  case (sent a m)
  then show ?thesis using assms(3,4) by (simp add: send_to_nth conn_grows_refl conn_grows_enqueue)
next
  case (broadcasted m)
  then show ?thesis using assms(2-4) by (simp add: broadcast_nth conn_grows_refl conn_grows_enqueue)
qed (use assms(3,4) in \<open>simp_all add: set_height_def conn_grows_refl\<close>)

lemma handle_message_fields: "handle_message i m n = Inr n' \<Longrightarrow> peers n' = peers n"
  by (erule handle_message_cases) simp_all

lemma read_round_peers:
  "peers (read_round i m n) = peers n \<or> peers (read_round i m n) = AList.delete (conn_addr (conns n ! i)) (peers n)"
  by (auto simp: read_round_def handle_message_fields split: sum.split)

lemma net_step_addrs:
  assumes "net_step n n'"
  shows "length (conns n) \<le> length (conns n') \<and>
    (\<forall>j < length (conns n). conn_addr (conns n' ! j) = conn_addr (conns n ! j))"
  using assms
proof (cases rule: net_step.cases)
  case (wrote i ok)
  have "conn_addr (conns (write_round i ok n) ! j) = conn_addr (conns n ! j)" if "j < length (conns n)" for j
    using that by (cases "j = i") (simp_all add: write_self write_other split: list.split)
  with wrote show ?thesis by simp
next
  case (received i m)
  then show ?thesis
    by (auto simp: read_round_def close_nth send_to_nth elim!: handle_message_cases split: sum.split)
next
  case (broadcasted m)
  have "conn_addr (conns (fold (chan_send m) is n) ! j) = conn_addr (conns n ! j)" if "j < length (conns n)" for j "is"
    using that by (induction "is" arbitrary: n) (simp_all add: chan_send_nth)
  with broadcasted show ?thesis by (simp add: broadcast_def)
qed (auto simp: register_peer_def nth_append greet_peer_def update_conn_nth send_to_nth set_height_def)

text \<open>An entry of the table stays unless its address is registered again or a connection of that address closes.\<close>

lemma net_step_entry:
  assumes "net_step n n'" "i < length (conns n)" "conn_phase (conns n ! i) = Closed" "map_of (peers n) a = Some i"
    and "\<forall>j < length (conns n'). j \<noteq> i \<longrightarrow> conn_addr (conns n' ! j) \<noteq> a"
  shows "map_of (peers n') a = Some i"
  using assms(1)
proof (cases rule: net_step.cases)
  case (registered b)
  then have "length (conns n) < length (conns n')" "conn_addr (conns n' ! length (conns n)) = b"
    by (simp_all add: register_peer_def nth_append)
  then have "b \<noteq> a" using assms(2,5) by blast
  with registered assms(4) show ?thesis by (simp add: register_peer_def update_conv')
next
  case (received j m)
  then have "j \<noteq> i" using assms(3) by auto
  moreover have "conn_addr (conns n ! j) = conn_addr (conns n' ! j)" "j < length (conns n')"
    using net_step_addrs [OF assms(1)] received(2) by auto
  ultimately have "conn_addr (conns n ! j) \<noteq> a" using assms(5) by auto
  with received assms(4) read_round_peers [of j m n] show ?thesis by (auto simp: delete_conv')
qed (use assms(4) in \<open>simp_all add: greet_peer_def set_height_def\<close>)

abbreviation net_run :: "network \<Rightarrow> network \<Rightarrow> bool" where
  "net_run \<equiv> net_step\<^sup>*\<^sup>*"

lemma net_run_conn:
  assumes "net_run n n'" "net_ok name n" "i < length (conns n)" "conn_phase (conns n ! i) \<noteq> Greeting"
  shows "net_ok name n' \<and> i < length (conns n') \<and> conn_grows (conns n ! i) (conns n' ! i)"
  using assms(1)
proof (induction rule: rtranclp_induct)
  case (step n1 n2)
  then have "i < length (conns n2) \<and> conn_grows (conns n1 ! i) (conns n2 ! i)"
    by (intro net_step_conn [of n1 n2 name]) (auto simp: conn_grows_def)
  with step net_ok_step conn_grows_trans show ?case by blast
qed (use assms in \<open>simp add: conn_grows_refl\<close>)

text \<open>The writer task, left alone, empties its queue onto the wire in order.\<close>

lemma writer_drains:
  assumes "net_ok name n" "i < length (conns n)" "conn_phase (conns n ! i) = Running" "rx_open (conns n ! i)"
  shows "\<exists>n'. (write_round i True ^^ length (out_queue (conns n ! i))) n = n' \<and> net_run n n' \<and>
    conns n' ! i = (conns n ! i)\<lparr>out_queue := [], wire := wire (conns n ! i) @ out_queue (conns n ! i)\<rparr>"
  using assms
proof (induction "out_queue (conns n ! i)" arbitrary: n)
  case Nil
  then show ?case by simp
next
  case (Cons m ms)
  let ?n1 = "write_round i True n"
  have step: "net_step n ?n1" using Cons.prems by (intro net_step.wrote)
  have c: "conns ?n1 ! i = (conns n ! i)\<lparr>out_queue := ms, wire := wire (conns n ! i) @ [m]\<rparr>"
    using Cons.hyps(2) Cons.prems(2) by (simp add: write_self flip: Cons.hyps(2))
  obtain n' where n': "(write_round i True ^^ length ms) ?n1 = n'" "net_run ?n1 n'"
    "conns n' ! i = (conns ?n1 ! i)\<lparr>out_queue := [], wire := wire (conns ?n1 ! i) @ ms\<rparr>"
    using Cons.hyps(1) [of ?n1] c net_ok_step [OF Cons.prems(1) step] Cons.prems(2-4) by auto
  moreover have "(write_round i True ^^ length (out_queue (conns n ! i))) n = n'"
    using n'(1) by (simp add: funpow_swap1 flip: Cons.hyps(2))
  ultimately show ?case using converse_rtranclp_into_rtranclp [of net_step, OF step] c
    by (intro exI [of _ n']) (simp flip: Cons.hyps(2))
qed

text \<open>
  C32. Gossip is a queue. Take any state of the network and a connection in the peer table whose writer is listening.
  Broadcasting a message puts it once at the end of the queue of this connection, and changes nothing else of it.
  From then on, on every interleaving of all connections and for as long as the writer lives, what its wire and
  queue hold is what they held, this message, and then later ones: nothing is lost, reordered or put in between.
  And wherever the interleaving has got to, the writer delivers by its own rounds alone, as many as there are
  messages in its queue: then the wire holds them all, in their order. The first message on the wire is the greeting.
\<close>

theorem broadcast_is_fifo:
  assumes "net_reachable name n" "map_of (peers n) a = Some i" "conn_phase (conns n ! i) = Running" "rx_open (conns n ! i)"
  shows "conns (broadcast m n) ! i = (conns n ! i)\<lparr>out_queue := out_queue (conns n ! i) @ [m]\<rparr> \<and>
    (\<forall>n'. net_run (broadcast m n) n' \<and> rx_open (conns n' ! i) \<longrightarrow>
       (\<exists>later. wire (conns n' ! i) @ out_queue (conns n' ! i) =
          wire (conns n ! i) @ out_queue (conns n ! i) @ m # later \<and>
          (\<exists>n''. (write_round i True ^^ length (out_queue (conns n' ! i))) n' = n'' \<and> net_run n' n'' \<and>
             wire (conns n'' ! i) = wire (conns n ! i) @ out_queue (conns n ! i) @ m # later \<and> out_queue (conns n'' ! i) = [])) \<and>
       (\<exists>h. hd (wire (conns n' ! i)) = Handshake PROTOCOL_VERSION name h))"
proof -
  have ok: "net_ok name n" by (rule net_reachable_ok [OF assms(1)])
  have mem: "(a, i) \<in> set (peers n)" by (rule map_of_SomeD [OF assms(2)])
  have i: "i < length (conns n)" using ok mem unfolding net_ok_def by blast
  have entry: "i \<in> snd ` set (peers n)" using imageI [OF mem, of snd] by simp
  have b: "conns (broadcast m n) ! i = (conns n ! i)\<lparr>out_queue := out_queue (conns n ! i) @ [m]\<rparr>"
    using broadcast_nth [OF ok i, of m] entry assms(4) by (simp add: enqueue_def)
  obtain h ms where greeted: "wire (conns n ! i) = Handshake PROTOCOL_VERSION name h # ms"
    using net_ok_nth [OF ok i] assms(3) by (auto simp: conn_ok_def)
  have "(\<exists>later. wire (conns n' ! i) @ out_queue (conns n' ! i) = wire (conns n ! i) @ out_queue (conns n ! i) @ m # later \<and>
      (\<exists>n''. (write_round i True ^^ length (out_queue (conns n' ! i))) n' = n'' \<and> net_run n' n'' \<and>
         wire (conns n'' ! i) = wire (conns n ! i) @ out_queue (conns n ! i) @ m # later \<and> out_queue (conns n'' ! i) = [])) \<and>
    (\<exists>h. hd (wire (conns n' ! i)) = Handshake PROTOCOL_VERSION name h)"
    if run: "net_run (broadcast m n) n'" and opn: "rx_open (conns n' ! i)" for n'
  proof -
    have ok': "net_ok name n'" "i < length (conns n')" and g: "conn_grows (conns (broadcast m n) ! i) (conns n' ! i)"
      using net_run_conn [OF run net_ok_broadcast [OF ok], of i] i assms(3) by (simp_all add: b)
    have pre: "prefix (wire (conns n ! i)) (wire (conns n' ! i))"
      "prefix (wire (conns n ! i) @ out_queue (conns n ! i) @ [m]) (wire (conns n' ! i) @ out_queue (conns n' ! i))"
      using g opn unfolding conn_grows_def b by simp_all
    then obtain later where later: "wire (conns n' ! i) @ out_queue (conns n' ! i) = wire (conns n ! i) @ out_queue (conns n ! i) @ m # later"
      by (auto elim!: prefixE)
    have "conn_phase (conns n' ! i) = Running"
      using g opn net_ok_nth [OF ok'] by (cases "conn_phase (conns n' ! i)") (simp_all add: conn_grows_def conn_ok_def)
    from writer_drains [OF ok' this opn] later pre(1) greeted show ?thesis by (auto elim!: prefixE)
  qed
  with b show ?thesis by blast
qed

definition one_peer :: network where
  "one_peer = greet_peer 0 True (register_peer ''a'' (new_network ''t''))"

lemma one_peer_reachable: "net_reachable ''t'' one_peer"
proof -
  have "net_reachable ''t'' (register_peer ''a'' (new_network ''t''))"
    by (rule net_reachable.stepped [OF net_reachable.started net_step.registered])
  moreover have "net_step (register_peer ''a'' (new_network ''t'')) one_peer"
    unfolding one_peer_def by (rule net_step.greeted) (simp_all add: register_peer_def new_network_def)
  ultimately show ?thesis by (rule net_reachable.stepped)
qed

lemma one_peer_fields:
  "peers one_peer = [(''a'', 0)]" "conns one_peer =
     [\<lparr>conn_addr = ''a'', conn_phase = Running, out_queue = [], rx_open = True,
       wire = [Handshake PROTOCOL_VERSION ''t'' 0]\<rparr>]"
  by (simp_all add: one_peer_def register_peer_def new_network_def greet_peer_def update_conn_def emit_event_def)

theorem broadcast_is_fifo_witness:
  "\<exists>n'. net_run (broadcast Ping one_peer) n' \<and> wire (conns n' ! 0) = [Handshake PROTOCOL_VERSION ''t'' 0, Ping] \<and>
     out_queue (conns n' ! 0) = []"
proof -
  have b: "rx_open (conns (broadcast Ping one_peer) ! 0)"
    by (simp add: broadcast_def one_peer_fields chan_send_def update_conn_def)
  obtain later n' where n': "net_run (broadcast Ping one_peer) n'"
    "wire (conns n' ! 0) = [Handshake PROTOCOL_VERSION ''t'' 0, Ping] @ later" "out_queue (conns n' ! 0) = []"
    "wire (conns (broadcast Ping one_peer) ! 0) @ out_queue (conns (broadcast Ping one_peer) ! 0) =
       [Handshake PROTOCOL_VERSION ''t'' 0, Ping] @ later"
    using broadcast_is_fifo [OF one_peer_reachable, of "''a''" 0 Ping] b by (auto simp: one_peer_fields)
  then have "later = []" by (simp add: broadcast_def one_peer_fields chan_send_def update_conn_def)
  with n' show ?thesis by auto
qed

section \<open>A peer table that goes wrong\<close>

text \<open>
  A peer that never leaves. When writing the greeting fails, \<open>handle_connection\<close> returns without
  taking its entry out of the peer table: whatever happens afterwards, as long as no other connection
  uses that address, the table keeps naming the closed connection and \<open>peer_count\<close> counts it.
\<close>

theorem failed_greeting_leaks_peer:
  assumes "net_reachable name n" "i < length (conns n)" "conn_phase (conns n ! i) = Greeting"
    and "map_of (peers n) a = Some i" "net_run (greet_peer i False n) n'"
    and "\<forall>j < length (conns n'). j \<noteq> i \<longrightarrow> conn_addr (conns n' ! j) \<noteq> a"
  shows "conn_phase (conns n' ! i) = Closed \<and> map_of (peers n') a = Some i \<and> 0 < peer_count n'"
proof -
  have ok: "net_ok name (greet_peer i False n)" by (rule net_ok_greet [OF net_reachable_ok [OF assms(1)] assms(2,3)])
  have addr: "conn_addr (conns n ! i) = a"
    using net_reachable_ok [OF assms(1)] map_of_SomeD [OF assms(4)] by (auto simp: net_ok_def)
  let ?alone = "\<lambda>m. \<forall>j < length (conns m). j \<noteq> i \<longrightarrow> conn_addr (conns m ! j) \<noteq> a"
  let ?Q = "\<lambda>m. i < length (conns m) \<and> conn_phase (conns m ! i) = Closed \<and> net_ok name m \<and>
    (?alone m \<longrightarrow> map_of (peers m) a = Some i)"
  have "?Q n'"
    using assms(5)
  proof (induction rule: rtranclp_induct)
    case base
    then show ?case using assms(2,4) ok by (simp add: greet_peer_def update_conn_nth)
  next
    case (step m m')
    then have "?alone m' \<longrightarrow> ?alone m" using net_step_addrs [OF step(2)] by (metis order.strict_trans2)
    moreover have "i < length (conns m') \<and> conn_phase (conns m' ! i) = Closed"
      using net_step_conn [OF step(2), of name i] step(3) by (simp add: conn_grows_def)
    ultimately show ?case
      using net_step_entry [OF step(2), of i a] net_ok_step [OF _ step(2)] step(3) by blast
  qed
  with assms(6) have "conn_phase (conns n' ! i) = Closed" "map_of (peers n') a = Some i" by blast+
  moreover from this have "peers n' \<noteq> []" by auto
  ultimately show ?thesis by (simp add: peer_count_def)
qed

theorem failed_greeting_leaks_peer_witness:
  "\<exists>n'. net_run (greet_peer 0 False (register_peer ''a'' (new_network ''t''))) n' \<and>
     net_run (new_network ''t'') n' \<and> conn_phase (conns n' ! 0) = Closed \<and> map_of (peers n') ''a'' = Some 0 \<and> 0 < peer_count n'"
proof -
  let ?n = "register_peer ''a'' (new_network ''t'')" and ?n' = "broadcast Ping (greet_peer 0 False (register_peer ''a'' (new_network ''t'')))"
  have f: "peers ?n = [(''a'', 0)]" "conns ?n = [\<lparr>conn_addr = ''a'', conn_phase = Greeting, out_queue = [], rx_open = True, wire = []\<rparr>]"
    by (simp_all add: register_peer_def new_network_def)
  have 1: "net_step (new_network ''t'') ?n" by (rule net_step.registered)
  have 2: "net_step ?n (greet_peer 0 False ?n)" by (rule net_step.greeted) (simp_all add: f)
  have 3: "net_run (greet_peer 0 False ?n) ?n'" by (rule r_into_rtranclp [of net_step, OF net_step.broadcasted])
  have reach: "net_reachable ''t'' ?n" by (rule net_reachable.stepped [OF net_reachable.started 1])
  have alone: "\<forall>j < length (conns ?n'). j \<noteq> 0 \<longrightarrow> conn_addr (conns ?n' ! j) \<noteq> ''a''"
    by (simp add: f greet_peer_def)
  have "net_run (new_network ''t'') ?n'"
    using 1 2 3 by (meson converse_rtranclp_into_rtranclp)
  with failed_greeting_leaks_peer [OF reach _ _ _ 3 alone] 3 show ?thesis by (auto simp: f)
qed

text \<open>
  Two connections to one address, as the option \<open>--peer\<close> given twice makes: the second takes over the
  table entry, so the first loses its sender, and when the first one closes it takes the entry of the
  second with it. The second then stays open, greeted and listening, and no message reaches it.
\<close>

theorem second_connection_cut_off:
  assumes "net_reachable name n" "i < length (conns n)" "map_of (peers n) a = Some i"
    and "n' = read_round i (Inl UnexpectedEof) (greet_peer (length (conns n)) True (register_peer a n))"
  shows "conn_phase (conns n' ! length (conns n)) = Running \<and> rx_open (conns n' ! length (conns n)) \<and>
    conn_addr (conns n' ! length (conns n)) = a \<and> map_of (peers n') a = None \<and>
    (\<forall>m. send_to a m n' = n') \<and> (\<forall>m. conns (broadcast m n') ! length (conns n) = conns n' ! length (conns n))"
proof -
  let ?j = "length (conns n)" and ?n1 = "register_peer a n"
  have addr: "conn_addr (conns n ! i) = a"
    using net_reachable_ok [OF assms(1)] map_of_SomeD [OF assms(3)] by (auto simp: net_ok_def)
  have ok: "net_ok name (greet_peer ?j True ?n1)"
    by (intro net_ok_greet net_ok_register net_reachable_ok [OF assms(1)]) (simp_all add: register_peer_def)
  then have ok': "net_ok name n'" unfolding assms(4) by (rule net_ok_read)
  have c: "conns n' ! ?j = \<lparr>conn_addr = a, conn_phase = Running, out_queue = [], rx_open = True,
      wire = [Handshake PROTOCOL_VERSION (net_name n) (my_height n)]\<rparr>"
    using assms(2) by (simp add: assms(4) read_round_def close_nth greet_peer_def register_peer_def update_conn_nth
        nth_append emit_event_def)
  have none: "map_of (peers n') a = None"
    using assms(2) addr by (simp add: assms(4) read_round_def greet_peer_def register_peer_def update_conn_nth
        nth_append delete_conv')
  have "?j \<notin> snd ` set (peers n')"
  proof
    assume "?j \<in> snd ` set (peers n')"
    then obtain b where b: "(b, ?j) \<in> set (peers n')" by auto
    then have "b = a" using ok' c by (auto simp: net_ok_def)
    with b none show False by (auto simp: map_of_eq_None_iff image_iff)
  qed
  moreover have "?j < length (conns n')" by (simp add: assms(4) read_round_def greet_peer_def register_peer_def)
  ultimately have "conns (broadcast m n') ! ?j = conns n' ! ?j" for m
    by (simp add: broadcast_nth [OF ok'])
  with c none show ?thesis by (simp add: send_to_def)
qed

theorem second_connection_cut_off_witness:
  "\<exists>n'. net_run one_peer n' \<and> conn_phase (conns n' ! 1) = Running \<and> rx_open (conns n' ! 1) \<and>
     conn_addr (conns n' ! 1) = ''a'' \<and> map_of (peers n') ''a'' = None"
proof -
  let ?n1 = "register_peer ''a'' one_peer"
  let ?n2 = "greet_peer 1 True ?n1"
  have f: "length (conns one_peer) = 1" by (simp add: one_peer_fields)
  have "net_step one_peer ?n1" by (rule net_step.registered)
  moreover have "net_step ?n1 ?n2" by (rule net_step.greeted) (simp_all add: one_peer_fields register_peer_def)
  moreover have "net_step ?n2 (read_round 0 (Inl UnexpectedEof) ?n2)"
    by (rule net_step.received) (simp_all add: one_peer_fields register_peer_def greet_peer_def update_conn_def)
  ultimately have "net_run one_peer (read_round 0 (Inl UnexpectedEof) ?n2)"
    by (meson converse_rtranclp_into_rtranclp rtranclp.rtrancl_refl)
  moreover note second_connection_cut_off [OF one_peer_reachable, of 0 "''a''" "read_round 0 (Inl UnexpectedEof) ?n2"]
  ultimately show ?thesis by (auto simp: f one_peer_fields)
qed

end
