(* ===== verification/Node_Runs.thy ===== *)
theory Node_Runs
  imports Node Mining_Properties Network_Properties
begin

text \<open>
  The invariant of a node and its preservation by every handler; the cascade over buffered orphans
  terminates because an accepted block is stored, so none of the blocks that waited on it can become an
  orphan again, and the buffer shrinks.
\<close>

definition orphans_ok :: "(hash256 \<times> block list) list \<Rightarrow> bool" where
  "orphans_ok os \<longleftrightarrow> distinct (map fst os) \<and> (\<forall>(p, bs) \<in> set os. \<forall>b \<in> set bs. prev_hash (header b) = p)"

definition pending_signed :: "'a env_scheme \<Rightarrow> chain_state \<Rightarrow> bool" where
  "pending_signed E s \<longleftrightarrow> (\<forall>tx \<in> set (mempool_all s). is_signature_valid E tx)"

definition node_inv :: "'a env_scheme \<Rightarrow> genesis_config \<Rightarrow> app \<Rightarrow> bool" where
  "node_inv E gen app \<longleftrightarrow> reachable E gen (achain app) \<and> net_ok (network_name gen) (anet app) \<and>
     orphans_ok (orphans app) \<and> pending_signed E (cstate (achain app))"

definition buffered :: "(hash256 \<times> block list) list \<Rightarrow> nat" where
  "buffered os = sum_list (map (length \<circ> snd) os)"

text \<open>Everything one state stores, a later one still stores.\<close>

definition keeps_blocks :: "chain_state \<Rightarrow> chain_state \<Rightarrow> bool" where
  "keeps_blocks s s' \<longleftrightarrow> (\<forall>y k. get_block s y = Some k \<longrightarrow> get_block s' y = Some k)"

text \<open>
  A block has been dealt with: a block is stored under its hash, or it was refused for a reason that
  held in an earlier store.
\<close>

definition settled :: "'a env_scheme \<Rightarrow> genesis_config \<Rightarrow> chain_state \<Rightarrow> block \<Rightarrow> bool" where
  "settled E gen s b \<longleftrightarrow>
     (\<exists>ds x b'. header_id E (header b) ds = Some x \<and> get_block s x = Some b') \<or>
     (\<exists>s0 e. refusal E gen s0 b e \<and> keeps_blocks s0 s)"

lemma keeps_blocks_refl [simp]: "keeps_blocks s s"
  by (simp add: keeps_blocks_def)

lemma keeps_blocks_trans: "keeps_blocks s t \<Longrightarrow> keeps_blocks t u \<Longrightarrow> keeps_blocks s u"
  by (simp add: keeps_blocks_def)

lemma settled_mono: "settled E gen s b \<Longrightarrow> keeps_blocks s t \<Longrightarrow> settled E gen t b"
  unfolding settled_def by (meson keeps_blocks_def keeps_blocks_trans)

section \<open>Frames of the handlers\<close>

lemma with_simps [simp]:
  "anet (with_state f app) = anet app" "orphans (with_state f app) = orphans app"
  "cstate (achain (with_state f app)) = f (cstate (achain app))" "cgenesis (achain (with_state f app)) = cgenesis (achain app)"
  "achain (with_net g app) = achain app" "orphans (with_net g app) = orphans app" "anet (with_net g app) = g (anet app)"
  by (simp_all add: with_state_def with_net_def)

lemma mempool_fold_frame:
  "get_block (fold (\<lambda>tx. mempool_remove (tx_hash E tx)) txs s) = get_block s"
  "get_block (fold (mempool_insert E) txs s) = get_block s"
  "tip (fold (\<lambda>tx. mempool_remove (tx_hash E tx)) txs s) = tip s"
  "tip (fold (mempool_insert E) txs s) = tip s"
  by (induction txs arbitrary: s) (simp_all add: state_simps [abs_def] fun_eq_iff)

lemma reachable_fold_remove:
  "reachable E gen c \<Longrightarrow> reachable E gen (c\<lparr>cstate := fold (\<lambda>tx. mempool_remove (tx_hash E tx)) txs (cstate c)\<rparr>)"
proof (induction txs arbitrary: c)
  case (Cons tx txs)
  from Cons.IH [OF reachable.pending_dropped [OF Cons.prems, of "tx_hash E tx"]] show ?case by simp
qed simp

lemma reachable_fold_insert:
  "reachable E gen c \<Longrightarrow> reachable E gen (c\<lparr>cstate := fold (mempool_insert E) txs (cstate c)\<rparr>)"
proof (induction txs arbitrary: c)
  case (Cons tx txs)
  from Cons.IH [OF reachable.pending_added [OF Cons.prems, of tx]] show ?case by simp
qed simp

lemma set_tree_insert: "set (tree_insert k v t) \<subseteq> insert (k, v) (set t)"
  by (induction k v t rule: tree_insert.induct) (auto split: if_splits)

lemma mempool_all_insert: "set (mempool_all (mempool_insert E tx s)) \<subseteq> insert tx (set (mempool_all s))"
  using image_mono [OF set_tree_insert [of "tx_hash E tx" tx "mempool s"], of snd]
  by (simp add: mempool_all_def mempool_simps)

lemma mempool_all_remove: "set (mempool_all (mempool_remove h s)) \<subseteq> set (mempool_all s)"
  using set_tree_remove [of h "mempool s"] by (auto simp: mempool_all_def state_simps)

lemma pending_signed_insert: "pending_signed E s \<Longrightarrow> is_signature_valid E tx \<Longrightarrow> pending_signed E (mempool_insert E tx s)"
  using mempool_all_insert [of E tx s] unfolding pending_signed_def by blast

lemma pending_signed_remove: "pending_signed E s \<Longrightarrow> pending_signed E (mempool_remove h s)"
  using mempool_all_remove [of h s] unfolding pending_signed_def by blast

lemma pending_signed_folds:
  "pending_signed E s \<Longrightarrow> pending_signed E (fold (\<lambda>tx. mempool_remove (tx_hash E tx)) txs s)"
  "pending_signed E s \<Longrightarrow> list_all (is_signature_valid E) txs \<Longrightarrow> pending_signed E (fold (mempool_insert E) txs s)"
  by (induction txs arbitrary: s) (simp_all add: pending_signed_insert pending_signed_remove)

lemma pending_signed_mempool: "mempool s' = mempool s \<Longrightarrow> pending_signed E s' = pending_signed E s"
  by (simp add: pending_signed_def mempool_all_def)

lemma orphans_ok_buffer: "orphans_ok os \<Longrightarrow> orphans_ok (buffer_orphan (prev_hash (header b)) b os)"
  by (auto simp: orphans_ok_def buffer_orphan_def distinct_update set_alist_update split: option.split dest: map_of_SomeD)

lemma orphans_ok_delete: "orphans_ok os \<Longrightarrow> orphans_ok (AList.delete x os)"
  by (auto simp: orphans_ok_def AList.delete_eq distinct_map_filter)

lemma buffered_delete:
  assumes "distinct (map fst os)" "map_of os x = Some cs"
  shows "buffered os = length cs + buffered (AList.delete x os)"
  using assms
proof (induction os)
  case (Cons p os)
  obtain y ds where p: "p = (y, ds)" by (cases p)
  show ?case
  proof (cases "y = x")
    case True
    then have "AList.delete x os = os" using Cons.prems(1) p by (intro AList.delete_id) simp
    with True Cons.prems(2) p show ?thesis by (simp add: buffered_def)
  qed (use Cons p in \<open>simp add: buffered_def\<close>)
qed simp

section \<open>One submission\<close>

lemma requeue_signed:
  assumes "chain_inv E gen s" "canonical E gen s (cs @ us)"
  shows "list_all (is_signature_valid E) (requeued E (rev us) ns)"
proof -
  have "is_signature_valid E tx" if "(x, b) \<in> set us" "tx \<in> set (transactions b)" for x b tx
  proof -
    obtain y where "branch s (genesis_block_hash E gen) y (cs @ us)" using assms(2) by (auto simp: canonical_def)
    moreover have "(x, b) \<in> set (cs @ us)" using that(1) by simp
    then obtain n where "n < length (cs @ us)" "(cs @ us) ! n = (x, b)" by (auto simp only: in_set_conv_nth)
    ultimately have "get_block s x = Some b" using branch_nth by blast
    moreover have tree: "block_tree E gen s" using assms(1) by (simp add: chain_inv_def)
    ultimately have "b = genesis_block gen \<or> checked E gen s x b"
      by (cases "x = genesis_block_hash E gen") (auto simp: block_tree_def)
    with that(2) show ?thesis by (auto simp: checked_def list_all_iff)
  qed
  then show ?thesis by (auto simp: requeued_def list_all_iff)
qed

text \<open>
  What one submission does to the chain of a node: it returns, keeps every block, and its outcome
  tells whether the parent was missing, whether the block is now stored, and which transactions come back.
\<close>

lemma submit_facts:
  assumes "reachable E gen c" "hash_sizes E" "supply_capped E gen"
  shows "\<exists>r c'. submit_block E c b = Some (r, c') \<and> reachable E gen c' \<and> mempool (cstate c') = mempool (cstate c) \<and>
    keeps_blocks (cstate c) (cstate c') \<and>
    (\<forall>p. r = Inr (Orphan p) \<longrightarrow> p = prev_hash (header b) \<and> get_block (cstate c) p = None) \<and>
    (\<forall>x h re rq. r = Inr (Accepted x h re rq) \<longrightarrow>
       get_block (cstate c) x = None \<and> get_block (cstate c') x = Some b \<and> list_all (is_signature_valid E) rq) \<and>
    (\<forall>x h. r = Inr (SideBranch x h) \<longrightarrow> get_block (cstate c) x = None \<and> get_block (cstate c') x = Some b) \<and>
    (get_block (cstate c) (prev_hash (header b)) \<noteq> None \<longrightarrow> settled E gen (cstate c') b)"
proof -
  obtain r c' where sub: "submit_block E c b = Some (r, c')" "reachable E gen c'"
    and eff: "submit_effect E gen (cstate c) b r (cstate c')"
    using reachable_submit [OF assms] by blast
  note inv = reachable_inv [OF assms]
  have stored: "settled E gen (cstate c') b" if "stores E gen (cstate c) x b bs (cstate c')" for x bs
  proof -
    have "checked E gen (cstate c) x b" "get_block (cstate c') x = Some b" using that by (auto simp: stores_def)
    then obtain ds where "header_id E (header b) ds = Some x" "get_block (cstate c') x = Some b"
      unfolding checked_def by blast
    then show ?thesis unfolding settled_def by blast
  qed
  have keep: "keeps_blocks (cstate c) (cstate c')" if "stores E gen (cstate c) x b bs (cstate c')" for x bs
    using that by (simp add: keeps_blocks_def stores_keeps)
  note mem = submit_effect_mempool [OF eff]
  from eff show ?thesis
  proof (cases rule: submit_effect.cases)
    case (refused e)
    then have "settled E gen (cstate c') b" unfolding settled_def using keeps_blocks_refl by metis
    with refused sub mem show ?thesis by auto
  next
    case (known x b' ds)
    then have "settled E gen (cstate c') b" unfolding settled_def by metis
    with known sub mem show ?thesis by auto
  next
    case orphan
    with sub mem show ?thesis by auto
  next
    case (side x bs obs)
    moreover have "get_block (cstate c) x = None" "get_block (cstate c') x = Some b"
      using side(2) by (simp_all add: stores_def)
    ultimately show ?thesis using sub mem stored keep by auto
  next
    case (unreplayable x bs obs e)
    with sub mem stored keep show ?thesis by auto
  next
    case (accepted x cs ns us re)
    have "get_block (cstate c) x = None" "get_block (cstate c') x = Some b"
      using accepted(2) by (simp_all add: stores_def)
    with accepted sub mem stored keep requeue_signed [OF inv accepted(3), of ns] show ?thesis by auto
  qed
qed

lemma net_ok_set_height: "net_ok name n \<Longrightarrow> net_ok name (set_height h n)"
  by (simp add: set_height_def)

lemma handle_outcome_frame:
  "get_block (cstate (achain (handle_outcome E b oc app))) = get_block (cstate (achain app))"
  "tip (cstate (achain (handle_outcome E b oc app))) = tip (cstate (achain app))"
  "orphans (handle_outcome E b oc app) =
     (case oc of Orphan p \<Rightarrow> buffer_orphan p b (orphans app) | _ \<Rightarrow> orphans app)"
  by (simp_all add: handle_outcome_def Let_def mempool_fold_frame split: submit_outcome.split)

lemma handle_outcome_inv:
  assumes "reachable E gen c" "net_ok (network_name gen) (anet app)" "orphans_ok (orphans app)"
    and "pending_signed E (cstate c)"
    and "\<And>p. oc = Orphan p \<Longrightarrow> p = prev_hash (header b)"
    and "\<And>x h re rq. oc = Accepted x h re rq \<Longrightarrow> list_all (is_signature_valid E) rq"
  shows "node_inv E gen (handle_outcome E b oc (app\<lparr>achain := c\<rparr>))"
proof (cases oc)
  case (Accepted x h re rq)
  let ?s1 = "fold (\<lambda>tx. mempool_remove (tx_hash E tx)) (transactions b) (cstate c)"
  have "reachable E gen (c\<lparr>cstate := fold (mempool_insert E) rq ?s1\<rparr>)"
    using reachable_fold_insert [OF reachable_fold_remove [OF assms(1)], of rq "transactions b"] by simp
  moreover have "pending_signed E (fold (mempool_insert E) rq ?s1)"
    by (intro pending_signed_folds assms(4)) (rule assms(6) [OF Accepted])
  ultimately show ?thesis
    using assms(2,3)
    by (simp add: Accepted node_inv_def handle_outcome_def Let_def net_ok_broadcast net_ok_set_height)
      (simp add: with_state_def with_net_def)
next
  case (Orphan p)
  with assms(5) have "p = prev_hash (header b)" by blast
  with Orphan assms(1-4) show ?thesis
    by (simp add: node_inv_def handle_outcome_def with_net_def net_ok_broadcast orphans_ok_buffer)
qed (use assms(1-4) in \<open>simp_all add: node_inv_def handle_outcome_def with_net_def net_ok_broadcast\<close>)

section \<open>The cascade\<close>

lemma retry_children_facts:
  assumes "node_inv E gen app" "hash_sizes E" "supply_capped E gen" "\<forall>c \<in> set cs. prev_hash (header c) = x"
    and "get_block (cstate (achain app)) x \<noteq> None"
  shows "\<exists>q' app'. retry_children E cs queue app = Some (q', app') \<and> node_inv E gen app' \<and>
    orphans app' = orphans app \<and> length q' \<le> length queue + length cs \<and>
    keeps_blocks (cstate (achain app)) (cstate (achain app')) \<and>
    (\<forall>y \<in> set q'. y \<in> set queue \<or> get_block (cstate (achain app')) y \<noteq> None) \<and> set queue \<subseteq> set q' \<and>
    (\<forall>y. get_block (cstate (achain app)) y \<noteq> None \<and> y \<notin> set queue \<longrightarrow> y \<notin> set q') \<and>
    (\<forall>c \<in> set cs. settled E gen (cstate (achain app')) c)"
  using assms(1,4,5)
proof (induction cs arbitrary: queue app)
  case (Cons c cs)
  have reach: "reachable E gen (achain app)" using Cons.prems(1) by (simp add: node_inv_def)
  obtain r ch where sub: "submit_block E (achain app) c = Some (r, ch)" "reachable E gen ch"
    "mempool (cstate ch) = mempool (cstate (achain app))" "keeps_blocks (cstate (achain app)) (cstate ch)"
    and orph: "\<And>p. r = Inr (Orphan p) \<Longrightarrow> p = prev_hash (header c) \<and> get_block (cstate (achain app)) p = None"
    and acc: "\<And>x h re rq. r = Inr (Accepted x h re rq) \<Longrightarrow>
       get_block (cstate (achain app)) x = None \<and> get_block (cstate ch) x = Some c \<and> list_all (is_signature_valid E) rq"
    and sett: "get_block (cstate (achain app)) (prev_hash (header c)) \<noteq> None \<Longrightarrow> settled E gen (cstate ch) c"
    using submit_facts [OF reach assms(2,3), of c] by blast
  have known: "get_block (cstate (achain app)) (prev_hash (header c)) \<noteq> None" using Cons.prems by simp
  have settled_c: "settled E gen (cstate ch) c" by (rule sett [OF known])
  define app1 where "app1 = (case r of Inl e \<Rightarrow> app\<lparr>achain := ch\<rparr> | Inr oc \<Rightarrow> handle_outcome E c oc (app\<lparr>achain := ch\<rparr>))"
  define q1 where "q1 = (case r of Inr (Accepted x2 h re rq) \<Rightarrow> queue @ [x2] | _ \<Rightarrow> queue)"
  have step: "retry_children E (c # cs) queue app = retry_children E cs q1 app1"
    by (simp add: sub(1) app1_def q1_def split: sum.split submit_outcome.split)
  have no_orphan: "r \<noteq> Inr (Orphan p)" for p using orph [of p] known by auto
  have signed: "pending_signed E (cstate ch)"
    using Cons.prems(1) pending_signed_mempool [OF sub(3), of E] by (simp add: node_inv_def)
  have inv1: "node_inv E gen app1"
  proof (cases r)
    case (Inl e)
    then show ?thesis using Cons.prems(1) sub(2) signed by (simp add: app1_def node_inv_def)
  next
    case (Inr oc)
    have "node_inv E gen (handle_outcome E c oc (app\<lparr>achain := ch\<rparr>))"
      by (rule handle_outcome_inv [OF sub(2) _ _ signed])
        (use Cons.prems(1) Inr no_orphan acc in \<open>auto simp: node_inv_def\<close>)
    with Inr show ?thesis by (simp add: app1_def)
  qed
  have blocks1: "get_block (cstate (achain app1)) = get_block (cstate ch)"
    by (simp add: app1_def handle_outcome_frame split: sum.split)
  have orphans1: "orphans app1 = orphans app"
    using no_orphan by (auto simp: app1_def handle_outcome_frame split: sum.split submit_outcome.split)
  have stored: "get_block (cstate (achain app1)) x \<noteq> None"
    using Cons.prems(3) sub(4) by (auto simp: blocks1 keeps_blocks_def)
  have q1: "length q1 \<le> Suc (length queue)" "set queue \<subseteq> set q1"
    "\<forall>y \<in> set q1. y \<in> set queue \<or> get_block (cstate (achain app1)) y \<noteq> None"
    "\<forall>y. get_block (cstate (achain app)) y \<noteq> None \<and> y \<notin> set queue \<longrightarrow> y \<notin> set q1"
    using acc by (auto simp: q1_def blocks1 split: sum.split submit_outcome.split)
  have "\<forall>d \<in> set cs. prev_hash (header d) = x" using Cons.prems(2) by simp
  from Cons.IH [OF inv1 this stored, of q1] obtain q' app' where
    IH: "retry_children E cs q1 app1 = Some (q', app')" "node_inv E gen app'" "orphans app' = orphans app1"
    "length q' \<le> length q1 + length cs" "keeps_blocks (cstate (achain app1)) (cstate (achain app'))"
    "\<forall>y \<in> set q'. y \<in> set q1 \<or> get_block (cstate (achain app')) y \<noteq> None" "set q1 \<subseteq> set q'"
    "\<forall>y. get_block (cstate (achain app1)) y \<noteq> None \<and> y \<notin> set q1 \<longrightarrow> y \<notin> set q'"
    "\<forall>c \<in> set cs. settled E gen (cstate (achain app')) c"
    by blast
  have keep: "keeps_blocks (cstate ch) (cstate (achain app'))"
    using IH(5) by (simp add: keeps_blocks_def blocks1)
  have "y \<in> set queue \<or> get_block (cstate (achain app')) y \<noteq> None" if "y \<in> set q'" for y
    using that IH(5,6) q1(3) unfolding keeps_blocks_def by blast
  moreover have "settled E gen (cstate (achain app')) c" by (rule settled_mono [OF settled_c keep])
  then have "\<forall>d \<in> set (c # cs). settled E gen (cstate (achain app')) d" using IH(9) by simp
  moreover have "y \<notin> set q'" if "get_block (cstate (achain app)) y \<noteq> None" "y \<notin> set queue" for y
    using that q1(4) IH(8) sub(4) unfolding blocks1 keeps_blocks_def by blast
  moreover have "length q' \<le> length queue + length (c # cs)" using IH(4) q1(1) by simp
  moreover have "retry_children E (c # cs) queue app = Some (q', app')" using step IH(1) by simp
  moreover have "orphans app' = orphans app" using IH(3) orphans1 by simp
  moreover have "set queue \<subseteq> set q'" using IH(7) q1(2) by blast
  ultimately show ?case
    using IH(2) keeps_blocks_trans [OF sub(4) keep] by blast
qed (simp add: node_inv_def)

text \<open>
  The measure of the cascade is the number of buffered blocks plus the length of the queue: taking an
  entry out of the buffer removes its blocks, and each of them can put at most one hash into the queue.
\<close>

definition released :: "hash256 list \<Rightarrow> app \<Rightarrow> block set" where
  "released queue app = {b. \<exists>x bs. x \<in> set queue \<and> map_of (orphans app) x = Some bs \<and> b \<in> set bs}"

lemma map_of_delete_eq: "map_of (AList.delete x os) y = (if y = x then None else map_of os y)"
  by (simp add: delete_conv')

lemma cascade_facts:
  assumes "node_inv E gen app" "hash_sizes E" "supply_capped E gen"
    and "\<forall>x \<in> set queue. get_block (cstate (achain app)) x \<noteq> None"
  shows "\<exists>app'. cascade E queue app = Some app' \<and> node_inv E gen app' \<and>
    keeps_blocks (cstate (achain app)) (cstate (achain app')) \<and>
    (\<forall>x \<in> set queue. map_of (orphans app') x = None) \<and>
    (\<forall>x. map_of (orphans app') x = None \<or> map_of (orphans app') x = map_of (orphans app) x) \<and>
    (\<forall>x. get_block (cstate (achain app)) x \<noteq> None \<and> x \<notin> set queue \<longrightarrow>
       map_of (orphans app') x = map_of (orphans app) x) \<and>
    (\<forall>b \<in> released queue app. settled E gen (cstate (achain app')) b)"
  using assms(1,4)
proof (induction "buffered (orphans app) + length queue" arbitrary: queue app rule: less_induct)
  case less
  show ?case
  proof (cases queue)
    case Nil
    then show ?thesis using less.prems by (subst cascade.simps) (simp add: released_def)
  next
    case (Cons x q)
    show ?thesis
    proof (cases "map_of (orphans app) x")
      case None
      then have step: "cascade E queue app = cascade E q app" by (subst cascade.simps) (simp add: Cons)
      have rel: "released queue app = released q app" using None by (auto simp: released_def Cons)
      from less.hyps [of app q] less.prems Cons obtain app' where
        IH: "cascade E q app = Some app'" "node_inv E gen app'" "keeps_blocks (cstate (achain app)) (cstate (achain app'))"
        "\<forall>x \<in> set q. map_of (orphans app') x = None"
        "\<forall>x. map_of (orphans app') x = None \<or> map_of (orphans app') x = map_of (orphans app) x"
        "\<forall>x. get_block (cstate (achain app)) x \<noteq> None \<and> x \<notin> set q \<longrightarrow> map_of (orphans app') x = map_of (orphans app) x"
        "\<forall>b \<in> released q app. settled E gen (cstate (achain app')) b"
        by auto
      have "map_of (orphans app') x = None" using IH(5) None by metis
      then have "\<forall>y \<in> set queue. map_of (orphans app') y = None" using IH(4) by (simp add: Cons)
      moreover have "\<forall>y. get_block (cstate (achain app)) y \<noteq> None \<and> y \<notin> set queue \<longrightarrow>
          map_of (orphans app') y = map_of (orphans app) y" using IH(6) by (simp add: Cons)
      ultimately show ?thesis using IH(1-3,5,7) step rel by metis
    next
      case (Some children)
      let ?app1 = "app\<lparr>orphans := AList.delete x (orphans app)\<rparr>"
      have ok: "orphans_ok (orphans app)" using less.prems(1) by (simp add: node_inv_def)
      have inv1: "node_inv E gen ?app1"
        using less.prems(1) by (simp add: node_inv_def orphans_ok_delete)
      have wait: "\<forall>c \<in> set children. prev_hash (header c) = x"
        using ok map_of_SomeD [OF Some] by (auto simp: orphans_ok_def)
      have stored: "get_block (cstate (achain ?app1)) x \<noteq> None" using less.prems(2) Cons by simp
      obtain q' app2 where r: "retry_children E children q ?app1 = Some (q', app2)" "node_inv E gen app2"
        "orphans app2 = orphans ?app1" "length q' \<le> length q + length children"
        "keeps_blocks (cstate (achain ?app1)) (cstate (achain app2))"
        "\<forall>y \<in> set q'. y \<in> set q \<or> get_block (cstate (achain app2)) y \<noteq> None" "set q \<subseteq> set q'"
        "\<forall>y. get_block (cstate (achain ?app1)) y \<noteq> None \<and> y \<notin> set q \<longrightarrow> y \<notin> set q'"
        "\<forall>c \<in> set children. settled E gen (cstate (achain app2)) c"
        using retry_children_facts [OF inv1 assms(2,3) wait stored, of q] by blast
      have step: "cascade E queue app = cascade E q' app2"
        by (subst cascade.simps) (simp add: Cons Some r(1))
      have "buffered (orphans app) = length children + buffered (orphans app2)"
        using buffered_delete [OF _ Some] ok by (simp add: orphans_ok_def r(3))
      then have less1: "buffered (orphans app2) + length q' < buffered (orphans app) + length queue"
        using r(4) Cons by simp
      have "get_block (cstate (achain app2)) y \<noteq> None" if "y \<in> set q'" for y
        using that r(5,6) less.prems(2) unfolding keeps_blocks_def Cons by fastforce
      with less.hyps [OF less1 r(2)] obtain app' where
        IH: "cascade E q' app2 = Some app'" "node_inv E gen app'"
        "keeps_blocks (cstate (achain app2)) (cstate (achain app'))" "\<forall>x \<in> set q'. map_of (orphans app') x = None"
        "\<forall>x. map_of (orphans app') x = None \<or> map_of (orphans app') x = map_of (orphans app2) x"
        "\<forall>x. get_block (cstate (achain app2)) x \<noteq> None \<and> x \<notin> set q' \<longrightarrow> map_of (orphans app') x = map_of (orphans app2) x"
        "\<forall>b \<in> released q' app2. settled E gen (cstate (achain app')) b"
        by blast
      have os: "map_of (orphans app2) y = (if y = x then None else map_of (orphans app) y)" for y
        by (simp add: r(3) map_of_delete_eq)
      have none: "map_of (orphans app') x = None" using IH(5) os by metis
      have "settled E gen (cstate (achain app')) b" if rel: "b \<in> released queue app" for b
      proof (cases "b \<in> set children")
        case True
        then show ?thesis using r(9) settled_mono IH(3) by blast
      next
        case False
        obtain y bs where y: "y \<in> set queue" "map_of (orphans app) y = Some bs" "b \<in> set bs"
          using rel unfolding released_def by blast
        with False Some have "y \<noteq> x" by auto
        with y os r(7) Cons have "b \<in> released q' app2" by (auto simp: released_def)
        with IH(7) show ?thesis by blast
      qed
      moreover have "keeps_blocks (cstate (achain app)) (cstate (achain app'))"
        using keeps_blocks_trans [OF r(5) IH(3)] by simp
      moreover have "\<forall>y \<in> set queue. map_of (orphans app') y = None"
        using IH(4) r(7) none by (auto simp: Cons)
      moreover have "\<forall>y. map_of (orphans app') y = None \<or> map_of (orphans app') y = map_of (orphans app) y"
        using IH(5) os none by metis
      moreover have "map_of (orphans app') y = map_of (orphans app) y"
        if "get_block (cstate (achain app)) y \<noteq> None" "y \<notin> set queue" for y
      proof -
        have "get_block (cstate (achain app2)) y \<noteq> None"
          using that(1) r(5) unfolding keeps_blocks_def by fastforce
        moreover have "y \<notin> set q'" "y \<noteq> x" using that r(8) by (simp_all add: Cons)
        ultimately show ?thesis using IH(6) os by simp
      qed
      ultimately show ?thesis using IH(1,2) step by auto
    qed
  qed
qed

section \<open>Every run keeps the invariant\<close>

lemma accept_facts:
  assumes "node_inv E gen app" "hash_sizes E" "supply_capped E gen"
  shows "\<exists>r app'. accept_and_broadcast E b app = Some (r, app') \<and> node_inv E gen app' \<and>
    keeps_blocks (cstate (achain app)) (cstate (achain app')) \<and>
    (\<forall>y. get_block (cstate (achain app)) y \<noteq> None \<longrightarrow> map_of (orphans app') y = map_of (orphans app) y) \<and>
    (\<forall>x h re rq. r = Inr (Accepted x h re rq) \<longrightarrow>
       get_block (cstate (achain app')) x = Some b \<and> map_of (orphans app') x = None \<and>
       (\<forall>c \<in> released [x] app. settled E gen (cstate (achain app')) c))"
proof -
  have reach: "reachable E gen (achain app)" using assms(1) by (simp add: node_inv_def)
  obtain r ch where sub: "submit_block E (achain app) b = Some (r, ch)" "reachable E gen ch"
    "mempool (cstate ch) = mempool (cstate (achain app))" "keeps_blocks (cstate (achain app)) (cstate ch)"
    and orph: "\<And>p. r = Inr (Orphan p) \<Longrightarrow> p = prev_hash (header b) \<and> get_block (cstate (achain app)) p = None"
    and acc: "\<And>x h re rq. r = Inr (Accepted x h re rq) \<Longrightarrow>
       get_block (cstate (achain app)) x = None \<and> get_block (cstate ch) x = Some b \<and> list_all (is_signature_valid E) rq"
    using submit_facts [OF reach assms(2,3), of b] by blast
  have signed: "pending_signed E (cstate ch)"
    using assms(1) pending_signed_mempool [OF sub(3), of E] by (simp add: node_inv_def)
  show ?thesis
  proof (cases r)
    case (Inl e)
    then show ?thesis using sub assms(1) signed by (simp add: accept_and_broadcast_def node_inv_def)
  next
    case (Inr oc)
    let ?app1 = "handle_outcome E b oc (app\<lparr>achain := ch\<rparr>)"
    have inv1: "node_inv E gen ?app1"
      by (rule handle_outcome_inv [OF sub(2) _ _ signed])
        (use assms(1) Inr orph acc in \<open>auto simp: node_inv_def\<close>)
    have keep1: "keeps_blocks (cstate (achain app)) (cstate (achain ?app1))"
      using sub(4) by (simp add: keeps_blocks_def handle_outcome_frame)
    show ?thesis
    proof (cases "\<exists>x h re rq. oc = Accepted x h re rq")
      case False
      then have "accept_and_broadcast E b app = Some (Inr oc, ?app1)"
        using sub(1) Inr by (cases oc) (simp_all add: accept_and_broadcast_def Let_def)
      moreover have "map_of (orphans ?app1) y = map_of (orphans app) y"
        if "get_block (cstate (achain app)) y \<noteq> None" for y
      proof (cases oc)
        case (Orphan p)
        then have "y \<noteq> p" using orph [of p] Inr that by auto
        then show ?thesis by (simp add: handle_outcome_frame Orphan buffer_orphan_def update_conv')
      qed (simp_all add: handle_outcome_frame)
      ultimately show ?thesis using inv1 keep1 False by blast
    next
      case True
      then obtain x h re rq where oc: "oc = Accepted x h re rq" by blast
      have stored: "\<forall>y \<in> set [x]. get_block (cstate (achain ?app1)) y \<noteq> None"
        using acc Inr oc by (simp add: handle_outcome_frame)
      obtain app' where c: "cascade E [x] ?app1 = Some app'" "node_inv E gen app'"
        "keeps_blocks (cstate (achain ?app1)) (cstate (achain app'))" "map_of (orphans app') x = None"
        "\<forall>c \<in> released [x] ?app1. settled E gen (cstate (achain app')) c"
        "\<forall>y. get_block (cstate (achain ?app1)) y \<noteq> None \<and> y \<noteq> x \<longrightarrow> map_of (orphans app') y = map_of (orphans ?app1) y"
        using cascade_facts [OF inv1 assms(2,3) stored] by auto
      have "released [x] ?app1 = released [x] app" by (simp add: released_def oc handle_outcome_frame)
      moreover have "map_of (orphans app') y = map_of (orphans app) y"
        if "get_block (cstate (achain app)) y \<noteq> None" for y
      proof -
        have "get_block (cstate (achain ?app1)) y \<noteq> None"
          using that keep1 unfolding keeps_blocks_def by fastforce
        moreover have "y \<noteq> x" using that acc Inr oc by auto
        ultimately show ?thesis using c(6) by (simp add: handle_outcome_frame oc)
      qed
      moreover have "get_block (cstate (achain app')) x = Some b"
        using acc Inr oc c(3) by (simp add: keeps_blocks_def handle_outcome_frame)
      moreover have "accept_and_broadcast E b app = Some (Inr oc, app')"
        using sub(1) Inr oc c(1) by (simp add: accept_and_broadcast_def Let_def)
      ultimately show ?thesis
        using c keeps_blocks_trans [OF keep1 c(3)] oc by auto
    qed
  qed
qed

lemma accept_outcome:
  assumes "submit_block E (achain app) b = Some (r, c)" "accept_and_broadcast E b app = Some (r', app')"
  shows "r' = r"
  using assms by (auto simp: accept_and_broadcast_def Let_def split: sum.splits submit_outcome.splits option.splits)

lemma accept_total:
  "node_inv E gen app \<Longrightarrow> hash_sizes E \<Longrightarrow> supply_capped E gen \<Longrightarrow> \<exists>r app'. accept_and_broadcast E b app = Some (r, app')"
  using accept_facts [of E gen app b] by auto

lemma accept_stored:
  assumes "node_inv E gen app" "hash_sizes E" "supply_capped E gen"
    and "accept_and_broadcast E b app = Some (Inr (Accepted x h re rq), app')"
  shows "get_block (cstate (achain app')) x = Some b \<and> node_inv E gen app'"
  using accept_facts [OF assms(1-3), of b] assms(4) by auto

lemma node_start_inv:
  assumes "node_start E gen s = Some (Inr app)"
    and "\<And>c. chain_open E gen s = Inr c \<Longrightarrow> reachable E gen c \<and> pending_signed E (cstate c)"
  shows "node_inv E gen app"
proof -
  obtain c h where "chain_open E gen s = Inr c"
    "app = \<lparr>achain = c, anet = set_height h (new_network (network_name gen)), orphans = []\<rparr>"
    using assms(1) by (auto simp: node_start_def split: sum.splits option.splits)
  with assms(2) net_reachable_ok [OF net_reachable.started] show ?thesis
    by (simp add: node_inv_def orphans_ok_def net_ok_set_height)
qed

lemma init_genesis_mempool: "mempool (snd (init_genesis P gen s)) = mempool s"
  by (simp add: init_genesis_def Let_def mempool_simps credit_all_fields split: sum.split)

lemma mempool_empty_open:
  assumes "chain_open E gen empty_state = Inr c"
  shows "mempool (cstate c) = []"
proof -
  obtain r s where rs: "init_genesis E gen empty_state = (r, s)" by (cases "init_genesis E gen empty_state")
  with assms have "cstate c = s"
    by (auto simp: chain_open_def empty_state_fields split: sum.splits unit.splits)
  with init_genesis_mempool [of E gen empty_state] rs show ?thesis by (simp add: empty_state_def)
qed

lemma template_mempool: "work_template E now c a txs = Some (r, c') \<Longrightarrow> cstate c' = cstate c"
  by (auto simp: work_template_def dest: dataset_state split: option.splits sum.splits prod.splits)

lemma node_inv_net: "node_inv E gen app \<Longrightarrow> net_ok (network_name gen) n \<Longrightarrow> node_inv E gen (app\<lparr>anet := n\<rparr>)"
  by (simp add: node_inv_def)

lemma node_inv_pending:
  assumes "node_inv E gen app" "is_signature_valid E tx"
  shows "node_inv E gen (with_net (broadcast m) (with_state (mempool_insert E tx) app))"
proof -
  have "reachable E gen ((achain app)\<lparr>cstate := mempool_insert E tx (cstate (achain app))\<rparr>)"
    using assms(1) by (intro reachable.pending_added) (simp add: node_inv_def)
  with assms show ?thesis
    by (simp add: node_inv_def with_net_def with_state_def pending_signed_insert net_ok_broadcast)
qed

lemma rpc_get_work_cases:
  assumes "rpc_get_work E now query app = Some (r, app')"
  obtains "app' = app"
    | a r2 c where "work_template E now (achain app) a (mempool_all (cstate (achain app))) = Some (r2, c)"
        "app' = app\<lparr>achain := c\<rparr>"
proof (cases "addr_from_str E query")
  case (Inl e)
  then show thesis using assms that(1) by (simp add: rpc_get_work_def)
next
  case (Inr a)
  show thesis
  proof (cases "work_template E now (achain app) a (mempool_all (cstate (achain app)))")
    case None
    then show thesis using assms Inr by (simp add: rpc_get_work_def)
  next
    case (Some p)
    obtain r2 c where p: "p = (r2, c)" by (cases p)
    have "app' = app\<lparr>achain := c\<rparr>"
      using assms Inr Some p by (cases r2) (simp_all add: rpc_get_work_def Let_def split: prod.splits)
    with Some p show thesis using that(2) by simp
  qed
qed

lemma on_event_inv:
  assumes "node_inv E gen app" "hash_sizes E" "supply_capped E gen" "on_event E ev app = Some app'"
  shows "node_inv E gen app'"
proof -
  have accept: "node_inv E gen app2" if "map_option snd (accept_and_broadcast E b app) = Some app2" for b app2
    using that accept_facts [OF assms(1-3), of b] by auto
  show ?thesis
  proof (cases ev)
    case (NewTransactionEvent tx)
    then show ?thesis using assms(1,4) node_inv_pending [OF assms(1)] by (auto simp: on_event_def split: if_splits)
  next
    case (GetBlockRequest a x)
    then have "app' = app\<lparr>anet := send_to a (BlockResponse (get_block (cstate (achain app)) x)) (anet app)\<rparr>"
      using assms(4) by (simp add: on_event_def with_net_def)
    then show ?thesis using assms(1) by (simp add: node_inv_def net_ok_send_to)
  qed (use assms(1,4) accept in \<open>auto simp: on_event_def split: option.splits\<close>)
qed

lemma net_ok_rebroadcast: "net_ok name n \<Longrightarrow> net_ok name (fold (\<lambda>tx. broadcast (NewTransaction tx)) txs n)"
  by (induction txs arbitrary: n) (simp_all add: net_ok_broadcast)

lemma node_step_inv:
  assumes "node_step E app app'" "node_inv E gen app" "hash_sizes E" "supply_capped E gen"
  shows "node_inv E gen app'"
  using assms(1)
proof (cases rule: node_step.cases)
  case (event ev)
  then show ?thesis by (rule on_event_inv [OF assms(2-4)])
next
  case tick
  with assms(2) show ?thesis by (simp add: node_inv_def rebroadcast_def with_net_def net_ok_rebroadcast)
next
  case (work_asked now query r)
  have reach: "reachable E gen (achain app)" and signed: "pending_signed E (cstate (achain app))"
    using assms(2) by (simp_all add: node_inv_def)
  from work_asked show ?thesis
  proof (cases rule: rpc_get_work_cases)
    case 2
    then show ?thesis
      using assms(2) reachable.templated [OF reach 2(1)] template_mempool [OF 2(1)] by (simp add: node_inv_def)
  qed (use assms(2) in simp)
next
  case (block_posted b r)
  then show ?thesis
    using accept_facts [OF assms(2-4), of b] by (auto simp: rpc_submit_block_def split: sum.splits)
next
  case (tx_posted tx r)
  then show ?thesis
    using assms(2) node_inv_pending [OF assms(2)] by (auto simp: rpc_submit_tx_def split: if_splits)
next
  case (network_moved n)
  then have "net_ok (network_name gen) n" using assms(2) net_ok_step [OF _ network_moved(2)] by (simp add: node_inv_def)
  with assms(2) show ?thesis unfolding network_moved(1) by (rule node_inv_net)
qed

lemma node_run_inv:
  assumes "node_run E gen app" "hash_sizes E" "supply_capped E gen"
  shows "node_inv E gen app"
  using assms(1)
proof (induction rule: node_run.induct)
  case (started app)
  show ?case
    by (rule node_start_inv [OF started])
      (auto intro: reachable.opened simp: pending_signed_def mempool_all_def dest: mempool_empty_open)
next
  case (restarted app app')
  show ?case
  proof (rule node_start_inv [OF restarted(2)])
    fix c assume c: "chain_open E gen (cstate (achain app)) = Inr c"
    have reach: "reachable E gen (achain app)" using restarted.IH by (simp add: node_inv_def)
    have "tip (cstate (achain app)) \<noteq> None" by (rule chain_inv_tip [OF reachable_inv [OF reach assms(2,3)]])
    with c have "cstate c = cstate (achain app)" using chain_open_again [of "cstate (achain app)" E gen] by auto
    with reachable.reopened [OF reach c] restarted.IH show "reachable E gen c \<and> pending_signed E (cstate c)"
      by (simp add: node_inv_def)
  qed
next
  case (stepped app app')
  from node_step_inv [OF stepped.hyps(2) stepped.IH assms(2,3)] show ?case .
qed

end
