(* ===== verification/Sample_Node.thy ===== *)
theory Sample_Node
  imports Node_Runs
begin

text \<open>
  The worked example as a node: it starts on the sample genesis, takes transactions and blocks, and
  hands out templates. The properties of the node are applied to it.
\<close>

definition sample_app :: app where
  "sample_app = \<lparr>achain = sample_chain, anet = set_height 0 (new_network ''s''), orphans = []\<rparr>"

lemma sample_app_run: "node_run sample_env sample_gen sample_app"
proof (rule node_run.started)
  show "node_start sample_env sample_gen empty_state = Some (Inr sample_app)"
    by (simp add: node_start_def sample_open sample_fields sample_app_def)
      (simp add: sample_gen_def)
qed

definition posted :: "transaction \<Rightarrow> app \<Rightarrow> app" where
  "posted tx app = snd (rpc_submit_tx sample_env tx app)"

lemma posted_run: "node_run sample_env sample_gen app \<Longrightarrow> node_run sample_env sample_gen (posted tx app)"
  unfolding posted_def by (rule node_run.stepped [OF _ node_step.tx_posted [OF surjective_pairing]])

lemma posted_valid:
  "is_signature_valid sample_env tx \<Longrightarrow>
     posted tx app = with_net (broadcast (NewTransaction tx)) (with_state (mempool_insert sample_env tx) app)"
  by (simp add: posted_def rpc_submit_tx_def)

lemma posted_pending:
  assumes "is_signature_valid sample_env tx"
  shows "mempool_all (cstate (achain (posted tx app))) =
    map snd (tree_insert (tx_hash sample_env tx) tx (mempool (cstate (achain app))))"
  by (simp add: posted_valid [OF assms] mempool_all_def mempool_simps)

lemma sample_app_pending: "mempool (cstate (achain sample_app)) = []"
  by (simp add: sample_app_def sample_state mempool_simps credit_def Let_def empty_state_fields)

lemma posted_sample_pending: "mempool_all (cstate (achain (posted (sample_tx n) sample_app))) = [sample_tx n]"
  by (simp add: posted_pending [OF sample_tx_valid] sample_app_pending)

text \<open>A node whose chain is the sample chain but for pending transactions and the cached dataset.\<close>

definition like_sample :: "app \<Rightarrow> bool" where
  "like_sample app \<longleftrightarrow> node_run sample_env sample_gen app \<and> get_block (cstate (achain app)) = get_block (cstate sample_chain) \<and>
     tip (cstate (achain app)) = Some (0, sample_root) \<and>
     get_account (cstate (achain app)) = get_account (cstate sample_chain)"

lemma like_sample_app: "like_sample sample_app"
  using sample_app_run by (simp add: like_sample_def sample_app_def sample_fields)

lemma like_sample_posted:
  assumes "like_sample app" "is_signature_valid sample_env tx"
  shows "like_sample (posted tx app)"
proof -
  have "node_run sample_env sample_gen (posted tx app)"
    using assms(1) posted_run by (simp add: like_sample_def)
  with assms show ?thesis
    by (simp add: like_sample_def posted_valid state_simps [abs_def] fun_eq_iff)
qed

lemma like_sample_reach:
  assumes "like_sample app"
  shows "reachable sample_env sample_gen (achain app)"
  using node_run_inv [OF _ sample_env_laws(1) sample_capped] assms by (simp add: like_sample_def node_inv_def)

lemma like_sample_branches:
  assumes "like_sample app"
  shows "branch (cstate (achain app)) sample_root x bs \<longleftrightarrow> x = sample_root \<and> bs = []"
  using branch_cong [of "cstate (achain app)" "cstate sample_chain" sample_root x bs] assms
  by (simp add: like_sample_def sample_branches)

lemma like_sample_canonical:
  assumes "like_sample app"
  shows "canonical sample_env sample_gen (cstate (achain app)) []" "tx_room sample_env sample_gen (cstate (achain app))"
proof -
  obtain bs where bs: "canonical sample_env sample_gen (cstate (achain app)) bs"
    using reachable_inv [OF like_sample_reach [OF assms] sample_env_laws(1) sample_capped] by (auto simp: chain_inv_def)
  then have "bs = []"
    by (auto simp: canonical_def sample_root_def [symmetric] like_sample_branches [OF assms])
  with bs show "canonical sample_env sample_gen (cstate (achain app)) []" by simp
  show "tx_room sample_env sample_gen (cstate (achain app))"
    by (simp add: tx_room_def sample_root_def [symmetric] like_sample_branches [OF assms])
qed

lemma like_sample_ledger:
  assumes "like_sample app"
  shows "read_ledger (get_account (cstate (achain app))) = (\<lambda>a. (0, 0))(sample_addr 7 := (1000, 0))"
  using assms
  by (auto simp: like_sample_def sample_state state_simps credit_def Let_def empty_state_fields read_ledger_def
      default_account_def sat_add_def fun_eq_iff)

definition sample_query :: string where
  "sample_query = addr_to_string sample_env (sample_addr 1)"

lemma sample_query_addr: "addr_from_str sample_env sample_query = Inr (sample_addr 1)"
  unfolding sample_query_def by (rule addr_from_str_printed) (simp_all add: sample_env_laws sample_addr_def)

lemma with_nonce_sample [simp]: "with_nonce (sample_block h p m n txs) k = sample_block h p m k txs"
  by (simp add: with_nonce_def sample_block_def)

lemma like_sample_template:
  assumes "like_sample app" "generate sample_env 0 (epoch_seed sample_env None) = Some ds"
  shows "work_template sample_env 30 (achain app) (sample_addr 1) txs =
    Some (Inr (sample_block 1 sample_root 1 0 txs, ds), (achain app)\<lparr>dataset_cache := Some (0, ds)\<rparr>)"
proof -
  note reach = like_sample_reach [OF assms(1)] and hyps = sample_env_laws(1) sample_capped
  have "cgenesis (achain app) = sample_gen" by (rule reachable_gen [OF reach hyps])
  then have "compute_next_difficulty ((achain app)\<lparr>dataset_cache := Some (0, ds)\<rparr>) 1 = Inr 1"
    by (simp add: compute_next_difficulty_def Let_def le_max_iff_disj) (simp add: sample_gen_def)
  then show ?thesis
    using assms
    by (simp add: work_template_def like_sample_def EPOCH_LENGTH_def sample_block_def
        first_epoch_dataset [OF reachable_inv [OF reach hyps] reachable_first_epoch [OF reach hyps]])
qed

definition sample_work :: "transaction list \<Rightarrow> work_reply" where
  "sample_work txs =
     \<lparr>wt_block = sample_block 1 sample_root 1 0 txs, wt_target = target_for_difficulty 1, wt_epoch = 0,
      wt_boundary_hash = None\<rparr>"

lemma like_sample_work:
  assumes "like_sample app"
  shows "\<exists>app1. rpc_get_work sample_env 30 sample_query app =
    Some (Inr (sample_work (mempool_all (cstate (achain app)))), app1)"
proof -
  obtain ds where ds: "generate sample_env 0 (epoch_seed sample_env None) = Some ds" using sample_dataset by blast
  have "epoch_of 1 = 0" by (simp add: epoch_of_zero EPOCH_LENGTH_def)
  with like_sample_template [OF assms ds] show ?thesis
    by (simp add: rpc_get_work_def sample_query_addr Let_def sample_work_def)
qed

section \<open>Blocks at the node\<close>

text \<open>What \<open>accept_and_broadcast\<close> does with an outcome when nothing waits for the block.\<close>

lemma accept_quiet:
  assumes "submit_block E (achain app) b = Some (Inr oc, c)"
    and "\<And>x h re rq. oc = Accepted x h re rq \<Longrightarrow> map_of (orphans app) x = None"
  shows "accept_and_broadcast E b app = Some (Inr oc, handle_outcome E b oc (app\<lparr>achain := c\<rparr>))"
proof (cases oc)
  case (Accepted x h re rq)
  then have "map_of (orphans (handle_outcome E b oc (app\<lparr>achain := c\<rparr>))) x = None"
    using assms(2) by (simp add: handle_outcome_frame)
  then have "cascade E [x] (handle_outcome E b oc (app\<lparr>achain := c\<rparr>)) = Some (handle_outcome E b oc (app\<lparr>achain := c\<rparr>))"
    by (simp add: cascade.simps)
  with assms(1) Accepted show ?thesis by (simp add: accept_and_broadcast_def Let_def)
qed (use assms(1) in \<open>simp_all add: accept_and_broadcast_def Let_def\<close>)

lemma accept_run:
  "node_run E gen app \<Longrightarrow> accept_and_broadcast E b app = Some (r, app') \<Longrightarrow> node_run E gen app'"
  by (rule node_run.stepped, assumption, rule node_step.event [of _ "NewBlockEvent b"]) (simp add: on_event_def)

lemma achain_handled:
  "transactions b = [] \<Longrightarrow> rq = [] \<Longrightarrow> achain (handle_outcome E b (Accepted x h re rq) app) = achain app"
  "achain (handle_outcome E b (SideBranch x h) app) = achain app"
  "achain (handle_outcome E b (Orphan p) app) = achain app"
  by (simp_all add: handle_outcome_def with_state_def with_net_def Let_def)

text \<open>The third block of the example arrives before its parent.\<close>

lemma orphan_c:
  assumes "reachable sample_env sample_gen c"
    and "get_block (cstate c) (sample_id 2 0) = None" "get_block (cstate c) (sample_id 2 1) = None"
  shows "\<exists>c'. submit_block sample_env c block_c = Some (Inr (Orphan (sample_id 2 0)), c') \<and> cstate c' = cstate c \<and>
    reachable sample_env sample_gen c'"
proof -
  note hyps = assms(1) sample_env_laws(1) sample_capped
  obtain ds where ds: "generate sample_env 0 (epoch_seed sample_env None) = Some ds" "wf_dataset ds"
    using sample_dataset by blast
  have "dataset_for_height sample_env c 2 = Some (Inr ds, c\<lparr>dataset_cache := Some (0, ds)\<rparr>)"
    using first_epoch_dataset [OF reachable_inv [OF hyps] reachable_first_epoch [OF hyps], of 2] ds(1)
    by (simp add: EPOCH_LENGTH_def)
  moreover have "header_id sample_env (header block_c) ds = Some (sample_id 2 1)"
    unfolding block_c_def by (rule sample_block_id [OF wf_sample_id ds(2)])
  ultimately have "submit_block sample_env c block_c = Some (Inr (Orphan (sample_id 2 0)), c\<lparr>dataset_cache := Some (0, ds)\<rparr>)"
    using assms(2,3) by (simp add: submit_block_def Let_def block_c_def has_block_iff meets_target_one)
  with reachable.submitted [OF assms(1) this] show ?thesis by auto
qed

text \<open>
  The node after the first block, and after the third, which it buffers. The blocks carry no
  transactions, so the pending ones stay as they are.
\<close>

lemma sample_waiting:
  assumes "like_sample app" "orphans app = []"
  shows "\<exists>app1 app2. accept_and_broadcast sample_env (block_at_a []) app = Some (Inr (Accepted (sample_id 1 0) 1 False []), app1) \<and>
    accept_and_broadcast sample_env block_c app1 = Some (Inr (Orphan (sample_id 2 0)), app2) \<and>
    node_run sample_env sample_gen app2 \<and> orphans app2 = [(sample_id 2 0, [block_c])] \<and>
    canonical sample_env sample_gen (cstate (achain app2)) [(sample_id 1 0, block_at_a [])] \<and>
    tx_room sample_env sample_gen (cstate (achain app2)) \<and> mempool (cstate (achain app2)) = mempool (cstate (achain app)) \<and>
    get_block (cstate (achain app2)) = (get_block (cstate sample_chain))(sample_id 1 0 \<mapsto> block_at_a [])"
proof -
  have run: "node_run sample_env sample_gen app" and blk: "get_block (cstate (achain app)) = get_block (cstate sample_chain)"
    using assms(1) by (simp_all add: like_sample_def)
  note reach = like_sample_reach [OF assms(1)] and can = like_sample_canonical [OF assms(1)]
  have replay: "spec_blocks sample_env sample_gen [block_at_a []] (genesis_ledger sample_env sample_gen) \<noteq> None"
    by (simp add: spec_block_def)
  obtain c1 where c1: "submit_block sample_env (achain app) (block_at_a []) = Some (Inr (Accepted (sample_id 1 0) 1 False []), c1)"
    "reachable sample_env sample_gen c1" "canonical sample_env sample_gen (cstate c1) [(sample_id 1 0, block_at_a [])]"
    and st: "stores sample_env sample_gen (cstate (achain app)) (sample_id 1 0) (block_at_a []) [(sample_id 1 0, block_at_a [])] (cstate c1)"
    using step_first [OF reach can blk _ _ replay] by auto
  have rooms: "tx_room sample_env sample_gen (cstate c1)"
    by (rule tx_room_store [OF can(2) st reachable_inv [OF reach sample_env_laws(1) sample_capped]]) simp
  have b1: "get_block (cstate c1) = (get_block (cstate sample_chain))(sample_id 1 0 \<mapsto> block_at_a [])"
    "mempool (cstate c1) = mempool (cstate (achain app))"
    using st blk by (simp_all add: stores_def)
  let ?app1 = "handle_outcome sample_env (block_at_a []) (Accepted (sample_id 1 0) 1 False []) (app\<lparr>achain := c1\<rparr>)"
  have acc1: "accept_and_broadcast sample_env (block_at_a []) app = Some (Inr (Accepted (sample_id 1 0) 1 False []), ?app1)"
    by (rule accept_quiet [OF c1(1)]) (simp add: assms(2))
  have ch1: "achain ?app1 = c1" by (simp add: achain_handled)
  obtain c2 where c2: "submit_block sample_env c1 block_c = Some (Inr (Orphan (sample_id 2 0)), c2)" "cstate c2 = cstate c1"
    using orphan_c [OF c1(2)] sample_root_fresh [symmetric] by (auto simp: b1(1) sample_fields)
  let ?app2 = "handle_outcome sample_env block_c (Orphan (sample_id 2 0)) (?app1\<lparr>achain := c2\<rparr>)"
  have acc2: "accept_and_broadcast sample_env block_c ?app1 = Some (Inr (Orphan (sample_id 2 0)), ?app2)"
    by (rule accept_quiet) (simp_all add: ch1 c2(1))
  have "node_run sample_env sample_gen ?app2" by (rule accept_run [OF accept_run [OF run acc1] acc2])
  moreover have "orphans ?app2 = [(sample_id 2 0, [block_c])]"
    by (simp add: handle_outcome_frame assms(2) buffer_orphan_def)
  ultimately show ?thesis using acc1 acc2 c1(3) rooms b1 c2(2) by (auto simp: achain_handled)
qed

text \<open>Then the second block, with any transactions, and the third again.\<close>

lemma sample_forked:
  assumes "like_sample app" "orphans app = []" "list_all (is_signature_valid sample_env) tb" "length tb < 2 ^ 64"
    and replay: "spec_blocks sample_env sample_gen [block_at_b tb, block_c] (genesis_ledger sample_env sample_gen) \<noteq> None"
  shows "\<exists>app1 app2 c. node_run sample_env sample_gen app1 \<and> orphans app1 = [(sample_id 2 0, [block_c])] \<and>
    accept_and_broadcast sample_env (block_at_b tb) app1 = Some (Inr (SideBranch (sample_id 2 0) 1), app2) \<and>
    node_run sample_env sample_gen app2 \<and> orphans app2 = orphans app1 \<and>
    mempool (cstate (achain app2)) = mempool (cstate (achain app)) \<and>
    submit_block sample_env (achain app2) block_c = Some (Inr (Accepted (sample_id 2 1) 2 True []), c) \<and>
    canonical sample_env sample_gen (cstate c) [(sample_id 2 0, block_at_b tb), entry_c] \<and>
    tx_room sample_env sample_gen (cstate c)"
proof -
  from sample_waiting [OF assms(1,2)] obtain app1 where
    run1: "node_run sample_env sample_gen app1" and o1: "orphans app1 = [(sample_id 2 0, [block_c])]"
    and can: "canonical sample_env sample_gen (cstate (achain app1)) [(sample_id 1 0, block_at_a [])]"
    and room: "tx_room sample_env sample_gen (cstate (achain app1))"
    and mem: "mempool (cstate (achain app1)) = mempool (cstate (achain app))"
    and blk: "get_block (cstate (achain app1)) = (get_block (cstate sample_chain))(sample_id 1 0 \<mapsto> block_at_a [])"
    by blast
  have reach: "reachable sample_env sample_gen (achain app1)"
    using node_run_inv [OF run1 sample_env_laws(1) sample_capped] by (simp add: node_inv_def)
  obtain c2 where c2: "submit_block sample_env (achain app1) (block_at_b tb) = Some (Inr (SideBranch (sample_id 2 0) 1), c2)"
    "reachable sample_env sample_gen c2" "canonical sample_env sample_gen (cstate c2) [(sample_id 1 0, block_at_a [])]"
    "tx_room sample_env sample_gen (cstate c2)"
    and st: "stores sample_env sample_gen (cstate (achain app1)) (sample_id 2 0) (block_at_b tb) [(sample_id 2 0, block_at_b tb)] (cstate c2)"
    using step_b [OF reach can room blk assms(3,4)] by blast
  let ?app2 = "handle_outcome sample_env (block_at_b tb) (SideBranch (sample_id 2 0) 1) (app1\<lparr>achain := c2\<rparr>)"
  have acc: "accept_and_broadcast sample_env (block_at_b tb) app1 = Some (Inr (SideBranch (sample_id 2 0) 1), ?app2)"
    by (rule accept_quiet [OF c2(1)]) simp
  have "get_block (cstate c2) =
      (get_block (cstate sample_chain))(sample_id 1 0 \<mapsto> block_at_a [], sample_id 2 0 \<mapsto> block_at_b tb)"
    and mem2: "mempool (cstate c2) = mempool (cstate (achain app))"
    using st blk mem by (simp_all add: stores_def)
  then obtain c where "submit_block sample_env c2 block_c = Some (Inr (Accepted (sample_id 2 1) 2 True []), c)"
    "canonical sample_env sample_gen (cstate c) [(sample_id 2 0, block_at_b tb), entry_c]"
    "tx_room sample_env sample_gen (cstate c)"
    using step_c [OF c2(2-4) _ assms(4) replay] by (auto simp: requeued_def)
  with run1 o1 acc mem2 accept_run [OF run1 acc] show ?thesis
    by (intro exI [of _ app1] exI [of _ ?app2] exI [of _ c]) (simp add: achain_handled handle_outcome_frame)
qed

end
