(* ===== verification/Pending_Stall.thy ===== *)
theory Pending_Stall
  imports Sample_Node
begin

text \<open>
  What pending transactions do to mining. A node accepts every transaction that is validly signed, and
  puts all of them, in key order, into every template. A block replays only when the transactions of
  each sender carry consecutive nonces starting at the account's; so one pending transaction that does
  not fit makes every block mined from the node's templates fail, and the failure removes nothing.
\<close>

section \<open>Which transaction lists replay\<close>

abbreviation of_sender :: "'a prims_scheme \<Rightarrow> address \<Rightarrow> transaction list \<Rightarrow> transaction list" where
  "of_sender P a \<equiv> filter (\<lambda>tx. to_address P (tx_from tx) = a)"

lemma spec_tx_nonce:
  assumes "spec_tx P tx L = Some L'"
  shows "snd (L' a) = (if to_address P (tx_from tx) = a then Suc (snd (L a)) else snd (L a)) \<and>
    snd (L (to_address P (tx_from tx))) = unat (account_nonce tx)"
  using assms by (auto simp: spec_tx_def Let_def credit_ledger_def split: if_splits)

text \<open>The nonces of one sender, in block order, are consecutive and start at the nonce of the account.\<close>

lemma spec_txs_sender_nonces:
  "spec_txs P txs L = Some L' \<Longrightarrow>
     map (unat \<circ> account_nonce) (of_sender P a txs) = [snd (L a) ..< snd (L a) + length (of_sender P a txs)]"
proof (induction txs arbitrary: L)
  case (Cons tx txs)
  then obtain L1 where L1: "spec_tx P tx L = Some L1" "spec_txs P txs L1 = Some L'"
    by (auto split: option.splits)
  from Cons.IH [OF L1(2)] spec_tx_nonce [OF L1(1), of a] show ?case
    by (auto simp: upt_conv_Cons simp del: upt_Suc)
qed simp

lemma stale_nonce_unreplayable:
  assumes "tx \<in> set txs" "unat (account_nonce tx) < snd (L (to_address P (tx_from tx)))"
  shows "spec_txs P txs L = None"
proof (rule ccontr)
  let ?a = "to_address P (tx_from tx)"
  assume "spec_txs P txs L \<noteq> None"
  then obtain L' where "spec_txs P txs L = Some L'" by blast
  then have "set (map (unat \<circ> account_nonce) (of_sender P ?a txs)) = {snd (L ?a) ..< snd (L ?a) + length (of_sender P ?a txs)}"
    by (simp only: spec_txs_sender_nonces set_upt)
  moreover have "unat (account_nonce tx) \<in> set (map (unat \<circ> account_nonce) (of_sender P ?a txs))" using assms(1) by auto
  ultimately show False using assms(2) by simp
qed

lemma nonce_ahead_unreplayable:
  assumes "tx \<in> set txs" "snd (L (to_address P (tx_from tx))) + length txs \<le> unat (account_nonce tx)"
  shows "spec_txs P txs L = None"
proof (rule ccontr)
  let ?a = "to_address P (tx_from tx)"
  assume "spec_txs P txs L \<noteq> None"
  then obtain L' where "spec_txs P txs L = Some L'" by blast
  then have "set (map (unat \<circ> account_nonce) (of_sender P ?a txs)) = {snd (L ?a) ..< snd (L ?a) + length (of_sender P ?a txs)}"
    by (simp only: spec_txs_sender_nonces set_upt)
  moreover have "unat (account_nonce tx) \<in> set (map (unat \<circ> account_nonce) (of_sender P ?a txs))" using assms(1) by auto
  moreover have "length (of_sender P ?a txs) \<le> length txs" by (rule length_filter_le)
  ultimately show False using assms(2) by simp
qed

lemma same_nonce_unreplayable:
  assumes "tx \<in> set txs" "tx' \<in> set txs" "tx \<noteq> tx'" "account_nonce tx = account_nonce tx'"
    and "to_address P (tx_from tx) = to_address P (tx_from tx')"
  shows "spec_txs P txs L = None"
proof (rule ccontr)
  let ?a = "to_address P (tx_from tx)"
  assume "spec_txs P txs L \<noteq> None"
  then obtain L' where "spec_txs P txs L = Some L'" by blast
  then have "distinct (map (unat \<circ> account_nonce) (of_sender P ?a txs))"
    by (simp only: spec_txs_sender_nonces distinct_upt)
  then have "inj_on (unat \<circ> account_nonce) (set (of_sender P ?a txs))" by (simp only: distinct_map)
  from inj_onD [OF this, of tx tx'] assms show False by simp
qed

section \<open>A template that does not replay\<close>

lemma canonical_replays:
  assumes "chain_inv E gen s" "canonical E gen s bs" "tx_room E gen s"
  shows "spec_blocks E gen (map snd bs) (genesis_ledger E gen) = Some (read_ledger (get_account s))"
proof -
  obtain cs where "canonical E gen s cs" "ledger_replays E gen s cs" using assms(1,3) by (auto simp: chain_inv_def)
  with canonical_unique [OF assms(2)] show ?thesis by (simp add: ledger_replays_def)
qed

lemma unreplayable_template:
  assumes "reachable E gen c" "hash_sizes E" "supply_capped E gen" "0 < initial_difficulty gen"
    and "work_template E now c a txs = Some (Inr (b, ds), c1)"
    and "header_id E (header (with_nonce b n)) ds = Some x" "get_block (cstate c) x = None"
    and "meets_target x (target_for_difficulty (difficulty (header b)))"
    and "list_all (is_signature_valid E) txs" "canonical E gen (cstate c) bs"
    and "tx_room E gen (cstate c)" "tx_count (map snd bs) + length txs < 2 ^ 64"
    and "spec_txs E txs (read_ledger (get_account (cstate c))) = None"
  shows "\<exists>e c2. submit_block E c1 (with_nonce b n) = Some (Inl e, c2) \<and> replay_error (bs @ [(x, with_nonce b n)]) e \<and>
    same_tip (cstate c) (cstate c2) \<and> mempool (cstate c2) = mempool (cstate c) \<and>
    canonical E gen (cstate c2) bs \<and> tx_room E gen (cstate c2)"
proof -
  obtain h x0 d where t: "tip (cstate c) = Some (h, x0)" "height (header b) = h + 1" "prev_hash (header b) = x0"
    "compute_next_difficulty c1 (h + 1) = Inr d" "difficulty (header b) = d" "transactions b = txs"
    "tx_root (header b) = compute_tx_root E b" "dataset_for_height E c (h + 1) = Some (Inr ds, c1)"
    using template_fields [OF assms(5)] by blast
  note inv = reachable_inv [OF assms(1-3)]
  have r1: "reachable E gen c1" by (rule reachable.templated [OF assms(1,5)])
  note hyps = r1 assms(2,3)
  have st: "cstate c1 = cstate c" by (rule dataset_state [OF t(8)])
  have ds: "h + 1 < EPOCH_LENGTH" "generate E 0 (epoch_seed E None) = Some ds"
    using t(8) first_epoch_dataset [OF inv reachable_first_epoch [OF assms(1-3)], of "h + 1"]
    by (auto split: if_splits option.splits)
  have can1: "canonical E gen (cstate c1) bs" using assms(10) st by simp
  have "branch (cstate c1) (genesis_block_hash E gen) x0 bs" using can1 t(1) st by (auto simp: canonical_def)
  then obtain p where p: "get_block (cstate c1) x0 = Some p" using branch_stored by blast
  have tip1: "tip (cstate c1) = Some (h, x0)" using t(1) st by simp
  obtain d' where d': "compute_next_difficulty c1 (h + 1) = Inr d'" "expected_difficulty_after c1 p = Inr d'" "0 < d'"
    using next_difficulty_defined [OF hyps tip1 p assms(4)] by blast
  have replay: "spec_blocks E gen (map snd bs @ [with_nonce b n]) (genesis_ledger E gen) = None"
    using canonical_replays [OF inv assms(10,11)] assms(13) t(6) by (simp add: spec_blocks_append spec_block_def)
  have count: "tx_count (map snd bs @ [with_nonce b n]) < 2 ^ 64" using assms(12) t(6) by (simp add: tx_count_def)
  obtain e c2 where sub: "submit_block E c1 (with_nonce b n) = Some (Inl e, c2)" "replay_error (bs @ [(x, with_nonce b n)]) e"
    "same_tip (cstate c1) (cstate c2)" and sto: "stores E gen (cstate c1) x (with_nonce b n) (bs @ [(x, with_nonce b n)]) (cstate c2)"
    and room: "tx_room E gen (cstate c2)"
    using extend_tip_refused [OF hyps can1 tip1 ds(2) assms(6) _ _ _ ds(1) p _ _ _ _ _ _ count replay] assms(7-9,11) t d' st by auto
  have "mempool (cstate c2) = mempool (cstate c1)" using sto by (simp add: stores_def)
  with sub same_tip_canonical [OF sto sub(3) can1] room show ?thesis by (auto simp: st)
qed

section \<open>Seen from the node\<close>

lemma get_work_template:
  assumes "rpc_get_work E now query app = Some (Inr w, app1)"
  shows "\<exists>a ds c. work_template E now (achain app) a (mempool_all (cstate (achain app))) = Some (Inr (wt_block w, ds), c) \<and>
    app1 = app\<lparr>achain := c\<rparr> \<and> wt_target w = target_for_difficulty (difficulty (header (wt_block w)))"
proof (cases "addr_from_str E query")
  case (Inr a)
  show ?thesis
  proof (cases "work_template E now (achain app) a (mempool_all (cstate (achain app)))")
    case (Some p)
    obtain r2 c where p: "p = (r2, c)" by (cases p)
    show ?thesis
    proof (cases r2)
      case (Inr bd)
      then show ?thesis
        using assms \<open>addr_from_str E query = Inr a\<close> Some p
        by (cases bd) (fastforce simp: rpc_get_work_def Let_def)
    qed (use assms Inr Some p in \<open>simp add: rpc_get_work_def\<close>)
  qed (use assms Inr in \<open>simp add: rpc_get_work_def\<close>)
qed (use assms in \<open>simp add: rpc_get_work_def\<close>)



end
