(* ===== verification/Node_Properties.thy ===== *)
theory Node_Properties
  imports Pending_Stall
begin

text \<open>
  What a node promises on every run: each request and event is answered, the RPC reads the canonical
  branch, and an accepted block releases the blocks that waited for it. And where it does not: blocks
  that wait on a block that is stored without becoming the tip are never tried again.
\<close>

section \<open>Every request is answered\<close>

lemma on_event_total:
  assumes "node_inv E gen app" "hash_sizes E" "supply_capped E gen"
  shows "\<exists>app'. on_event E ev app = Some app'"
  using accept_facts [OF assms]
  by (cases ev) (fastforce simp: on_event_def split: option.split)+

lemma rpc_get_work_total:
  assumes "node_inv E gen app" "hash_sizes E" "supply_capped E gen"
  shows "\<exists>r app'. rpc_get_work E now query app = Some (r, app')"
proof (cases "addr_from_str E query")
  case (Inr a)
  have "cache_ok (achain app)" using reachable_cache [OF _ assms(2,3)] assms(1) by (simp add: node_inv_def)
  from work_template_effect [OF assms(2) this, of now a "mempool_all (cstate (achain app))"]
  obtain r c where "work_template E now (achain app) a (mempool_all (cstate (achain app))) = Some (r, c)" by blast
  with Inr show ?thesis by (cases r) (auto simp: rpc_get_work_def Let_def)
qed (simp add: rpc_get_work_def)

lemma rpc_submit_block_total:
  assumes "node_inv E gen app" "hash_sizes E" "supply_capped E gen"
  shows "\<exists>r app'. rpc_submit_block E b app = Some (r, app')"
  using accept_facts [OF assms, of b] by (auto simp: rpc_submit_block_def split: sum.split)

lemma node_restarts:
  assumes "node_inv E gen app" "hash_sizes E" "supply_capped E gen"
  shows "\<exists>app'. node_start E gen (cstate (achain app)) = Some (Inr app') \<and>
    cstate (achain app') = cstate (achain app) \<and> orphans app' = []"
proof -
  have "chain_inv E gen (cstate (achain app))"
    using reachable_inv [OF _ assms(2,3)] assms(1) by (simp add: node_inv_def)
  then obtain h x where tip: "tip (cstate (achain app)) = Some (h, x)"
    using chain_inv_tip by (metis not_Some_eq surj_pair)
  with chain_open_again [of "cstate (achain app)" E gen] show ?thesis
    by (auto simp: node_start_def)
qed

text \<open>
  C10. A node never hangs and never panics. On every run the invariant of the node holds (the chain is one
  that submissions and templates reach, the peer table names one open channel per address, buffered
  blocks are filed under the parent they wait for, and every pending transaction is signed), and every
  event, every posted block, every request for work and a restart come to an end; the cascade over
  buffered orphans, whose loop feeds its own queue, included. A restart keeps the whole store.
\<close>

theorem node_always_answers:
  assumes "node_run E gen app" "hash_sizes E" "supply_capped E gen"
  shows "node_inv E gen app \<and> (\<exists>app'. on_event E ev app = Some app') \<and>
    (\<exists>r app'. rpc_submit_block E b app = Some (r, app')) \<and>
    (\<exists>r app'. rpc_get_work E now query app = Some (r, app')) \<and>
    (\<exists>app'. node_start E gen (cstate (achain app)) = Some (Inr app') \<and>
       cstate (achain app') = cstate (achain app) \<and> orphans app' = [])"
proof -
  have inv: "node_inv E gen app" by (rule node_run_inv [OF assms])
  note hyps = inv assms(2,3)
  show ?thesis
    using inv on_event_total [OF hyps] rpc_submit_block_total [OF hyps] rpc_get_work_total [OF hyps] node_restarts [OF hyps]
    by (intro conjI) blast+
qed

theorem node_always_answers_witness:
  "\<exists>app. node_run sample_env sample_gen app \<and> mempool_all (cstate (achain app)) = [sample_tx 0] \<and>
     (\<exists>app'. on_event sample_env (NewBlockEvent block_c) app = Some app') \<and>
     (\<exists>r app'. rpc_submit_block sample_env block_a app = Some (r, app')) \<and>
     (\<exists>r app'. rpc_get_work sample_env 30 sample_query app = Some (r, app'))"
proof -
  let ?app = "posted (sample_tx 0) sample_app"
  have run: "node_run sample_env sample_gen ?app" by (rule posted_run [OF sample_app_run])
  have "mempool_all (cstate (achain ?app)) = [sample_tx 0]"
    by (rule posted_sample_pending)
  with node_always_answers [OF run sample_env_laws(1) sample_capped, of "NewBlockEvent block_c" block_a 30 sample_query]
    run show ?thesis by blast
qed

section \<open>Requests read the canonical branch\<close>

lemma canonical_blocks:
  assumes "chain_inv E gen s" "canonical E gen s bs"
  shows "get_block_by_height s h =
    (if h = 0 then Some (genesis_block gen) else if unat h \<le> length bs then Some (snd (bs ! (unat h - 1))) else None)"
proof -
  obtain y where br: "branch s (genesis_block_hash E gen) y bs" using assms(2) by (auto simp: canonical_def)
  have gen: "get_block s (genesis_block_hash E gen) = Some (genesis_block gen)"
    using assms(1) by (simp add: chain_inv_def block_tree_def)
  have "get_block s (fst (bs ! (unat h - 1))) = Some (snd (bs ! (unat h - 1)))" if "h \<noteq> 0" "unat h \<le> length bs"
  proof -
    have "unat h - 1 < length bs" using that by (metis One_nat_def diff_less le_trans less_le_trans
        linorder_not_less unat_gt_0 zero_less_one)
    then show ?thesis using branch_nth [OF br _ surjective_pairing] by blast
  qed
  with assms(2) gen show ?thesis by (simp add: canonical_def get_block_by_height_def)
qed

text \<open>
  C14. What a client sees. On every run there is one branch of blocks from genesis to the tip such that the
  height and the tip hash of \<open>chain_info\<close> are its length and its last block, the announced difficulty
  is the one a block on that tip must carry, \<open>get_block_by_height\<close> returns its blocks at its heights
  and an error above, and \<open>get_account\<close> answers a printed address with the balance and the nonce that
  the replay of the branch gives.
\<close>

theorem rpc_reads_canonical:
  assumes "node_run E gen app" "hash_sizes E" "supply_capped E gen" "0 < initial_difficulty gen"
    and "tx_room E gen (cstate (achain app))" "hex_laws E" "length (addr_bytes a) = 20"
  shows "\<exists>bs info p L acc. branch (cstate (achain app)) (genesis_block_hash E gen) (ci_tip_hash info) bs \<and>
    rpc_chain_info app = Inr info \<and> unat (ci_height info) = length bs \<and>
    get_block (cstate (achain app)) (ci_tip_hash info) = Some p \<and>
    expected_difficulty_after (achain app) p = Inr (ci_next_difficulty info) \<and>
    (\<forall>h. rpc_get_block_by_height h app =
       (if h = 0 then Inr (genesis_block gen)
        else if unat h \<le> length bs then Inr (snd (bs ! (unat h - 1))) else Inl (NoBlockAtHeight h))) \<and>
    spec_blocks E gen (map snd bs) (genesis_ledger E gen) = Some L \<and>
    rpc_get_account E (addr_to_string E a) app = Inr acc \<and> ai_address acc = a \<and>
    L a = (unat (ai_balance acc), unat (ai_nonce acc))"
proof -
  have reach: "reachable E gen (achain app)" using node_run_inv [OF assms(1-3)] by (simp add: node_inv_def)
  note inv = reachable_inv [OF reach assms(2,3)]
  obtain bs where bs: "canonical E gen (cstate (achain app)) bs" using inv by (auto simp: chain_inv_def)
  then obtain h x where tip: "tip (cstate (achain app)) = Some (h, x)" "unat h = length bs"
    and br: "branch (cstate (achain app)) (genesis_block_hash E gen) x bs" by (auto simp: canonical_def)
  obtain p where p: "get_block (cstate (achain app)) x = Some p" using branch_stored [OF br] by blast
  obtain d where d: "compute_next_difficulty (achain app) (h + 1) = Inr d" "expected_difficulty_after (achain app) p = Inr d"
    using next_difficulty_defined [OF reach assms(2,3) tip(1) p assms(4)] by blast
  define info where "info = \<lparr>ci_network = network_name (cgenesis (achain app)), ci_height = h, ci_tip_hash = x,
      ci_next_difficulty = d, ci_peer_count = peer_count (anet app)\<rparr>"
  have "rpc_chain_info app = Inr info" by (simp add: rpc_chain_info_def tip d info_def)
  moreover have "rpc_get_block_by_height k app =
      (if k = 0 then Inr (genesis_block gen)
       else if unat k \<le> length bs then Inr (snd (bs ! (unat k - 1))) else Inl (NoBlockAtHeight k))" for k
    by (simp add: rpc_get_block_by_height_def canonical_blocks [OF inv bs])
  moreover have "spec_blocks E gen (map snd bs) (genesis_ledger E gen) = Some (read_ledger (get_account (cstate (achain app))))"
    by (rule canonical_replays [OF inv bs assms(5)])
  moreover have "rpc_get_account E (addr_to_string E a) app =
      Inr (account_info_new a (get_account (cstate (achain app)) a))"
    by (simp add: rpc_get_account_def addr_from_str_printed(1) [OF assms(6,7)])
  ultimately show ?thesis
    using br p d(2) tip(2)
    by (intro exI [of _ bs] exI [of _ info] exI [of _ p] exI [of _ "read_ledger (get_account (cstate (achain app)))"]
        exI [of _ "account_info_new a (get_account (cstate (achain app)) a)"])
      (simp add: info_def account_info_new_def read_ledger_def)
qed

theorem rpc_reads_canonical_witness:
  "\<exists>acc. node_run sample_env sample_gen sample_app \<and>
     rpc_get_account sample_env (addr_to_string sample_env (sample_addr 7)) sample_app = Inr acc \<and>
     rpc_get_block_by_height 0 sample_app = Inr (genesis_block sample_gen) \<and>
     rpc_get_block_by_height 5 sample_app = Inl (NoBlockAtHeight 5) \<and>
     (unat (ai_balance acc), unat (ai_nonce acc)) = (1000, 0)"
proof -
  have room: "tx_room sample_env sample_gen (cstate (achain sample_app))"
    by (rule like_sample_canonical(2) [OF like_sample_app])
  have "0 < initial_difficulty sample_gen" "length (addr_bytes (sample_addr 7)) = 20"
    by (simp_all add: sample_gen_def sample_addr_def)
  from rpc_reads_canonical [OF sample_app_run sample_env_laws(1) sample_capped this(1) room sample_env_laws(2) this(2)]
  obtain bs L acc and info :: chain_info where
    br: "branch (cstate (achain sample_app)) (genesis_block_hash sample_env sample_gen) (ci_tip_hash info) bs"
    and h: "\<forall>h. rpc_get_block_by_height h sample_app =
       (if h = 0 then Inr (genesis_block sample_gen)
        else if unat h \<le> length bs then Inr (snd (bs ! (unat h - 1))) else Inl (NoBlockAtHeight h))"
    and L: "spec_blocks sample_env sample_gen (map snd bs) (genesis_ledger sample_env sample_gen) = Some L"
    "L (sample_addr 7) = (unat (ai_balance acc), unat (ai_nonce acc))"
    and acc: "rpc_get_account sample_env (addr_to_string sample_env (sample_addr 7)) sample_app = Inr acc"
    by (elim exE conjE) (rule that; assumption)
  have "bs = []" using br by (simp add: sample_root_def [symmetric] like_sample_branches [OF like_sample_app])
  with h L acc sample_app_run sample_genesis_ledger show ?thesis by (auto simp: unat_eq_0)
qed

section \<open>Blocks that wait for a parent\<close>

text \<open>
  An accepted block releases its orphans. When a block is answered \<open>Accepted\<close>, no block waits on it any
  more, and each block that did has been dealt with: it is stored, or the chain refused it for a stated
  reason. No block that is stored is forgotten on the way.
\<close>

theorem accepted_releases_orphans:
  assumes "node_run E gen app" "hash_sizes E" "supply_capped E gen"
    and "accept_and_broadcast E b app = Some (Inr (Accepted x h reorged requeue), app')"
  shows "map_of (orphans app') x = None \<and> keeps_blocks (cstate (achain app)) (cstate (achain app')) \<and>
    (\<forall>cs. map_of (orphans app) x = Some cs \<longrightarrow> (\<forall>c \<in> set cs. settled E gen (cstate (achain app')) c))"
proof -
  from accept_facts [OF node_run_inv [OF assms(1-3)] assms(2,3), of b] assms(4)
  have "map_of (orphans app') x = None" "\<forall>c \<in> released [x] app. settled E gen (cstate (achain app')) c"
    "keeps_blocks (cstate (achain app)) (cstate (achain app'))"
    by auto
  then show ?thesis by (auto simp: released_def)
qed

theorem accepted_releases_orphans_witness:
  "\<exists>app1 app2. node_run sample_env sample_gen app1 \<and> map_of (orphans app1) (sample_id 2 0) = Some [block_c] \<and>
     accept_and_broadcast sample_env (block_at_b []) app1 = Some (Inr (Accepted (sample_id 2 0) 1 False []), app2) \<and>
     map_of (orphans app2) (sample_id 2 0) = None \<and> settled sample_env sample_gen (cstate (achain app2)) block_c"
proof -
  note reach = like_sample_reach [OF like_sample_app]
  have blk: "get_block (cstate (achain sample_app)) = get_block (cstate sample_chain)"
    using like_sample_app by (simp add: like_sample_def)
  obtain c1 where c1: "submit_block sample_env (achain sample_app) block_c = Some (Inr (Orphan (sample_id 2 0)), c1)"
    "cstate c1 = cstate (achain sample_app)" "reachable sample_env sample_gen c1"
    using orphan_c [OF reach] sample_root_fresh [symmetric] by (auto simp: blk sample_fields)
  let ?app1 = "handle_outcome sample_env block_c (Orphan (sample_id 2 0)) (sample_app\<lparr>achain := c1\<rparr>)"
  have acc1: "accept_and_broadcast sample_env block_c sample_app = Some (Inr (Orphan (sample_id 2 0)), ?app1)"
    by (rule accept_quiet [OF c1(1)]) simp
  have run1: "node_run sample_env sample_gen ?app1" by (rule accept_run [OF sample_app_run acc1])
  have o1: "map_of (orphans ?app1) (sample_id 2 0) = Some [block_c]"
    by (simp add: handle_outcome_frame buffer_orphan_def sample_app_def)
  have "spec_blocks sample_env sample_gen [block_at_b []] (genesis_ledger sample_env sample_gen) \<noteq> None"
    by (simp add: spec_block_def)
  then obtain c2 where sub: "submit_block sample_env (achain ?app1) (block_at_b []) =
      Some (Inr (Accepted (sample_id 2 0) 1 False []), c2)"
    using step_first [OF c1(3), of "[]" 2] like_sample_canonical [OF like_sample_app] c1(2) blk
    by (auto simp: achain_handled)
  obtain r app2 where "accept_and_broadcast sample_env (block_at_b []) ?app1 = Some (r, app2)"
    using accept_facts [OF node_run_inv [OF run1 sample_env_laws(1) sample_capped] sample_env_laws(1) sample_capped] by blast
  with sub have acc2: "accept_and_broadcast sample_env (block_at_b []) ?app1 =
      Some (Inr (Accepted (sample_id 2 0) 1 False []), app2)"
    by (auto simp: accept_and_broadcast_def Let_def split: option.splits)
  from accepted_releases_orphans [OF run1 sample_env_laws(1) sample_capped acc2] run1 o1 acc2 show ?thesis by auto
qed

text \<open>While the node is up, the entry of a stored block in the buffer never changes.\<close>

text \<open>A dataset that is put into the cache is a step of the node: some invalid block would have done the same.\<close>

lemma dataset_is_step:
  assumes "node_inv E gen app" "hash_sizes E" "supply_capped E gen"
    and "dataset_for_height E (achain app) n = Some (Inr ds, c)" "0 < n"
  shows "node_step E app (app\<lparr>achain := c\<rparr>)"
proof -
  have reach: "reachable E gen (achain app)" using assms(1) by (simp add: node_inv_def)
  note first = first_epoch_dataset [OF reachable_inv [OF reach assms(2,3)] reachable_first_epoch [OF reach assms(2,3)], of n]
  have ds: "generate E 0 (epoch_seed E None) = Some ds" using first assms(4) by (auto split: if_splits option.splits)
  then have wf: "wf_dataset ds" using generate_total [OF assms(2), of 0 "epoch_seed E None"] by auto
  obtain r where r: "r \<noteq> merkle_root E []" by (metis hash256.inject list.distinct(1))
  define b where "b = \<lparr>header = \<lparr>height = n, prev_hash = r, tx_root = r, timestamp = 0, difficulty = 1, miner = Address [], nonce = 0\<rparr>,
    transactions = []\<rparr>"
  have root: "tx_root (header b) \<noteq> compute_tx_root E b" using r by (simp add: b_def compute_tx_root_def)
  obtain x where "header_id E (header b) ds = Some x"
    using ondris_hash_total [OF assms(2) wf, of "bytes_for_pow (header b)" "nonce (header b)" ACCESSES]
    unfolding header_id_def ondris_hash_def by blast
  then have "submit_block E (achain app) b = Some (Inr AlreadyKnown, c) \<or> submit_block E (achain app) b = Some (Inl InvalidTxRoot, c)"
    using assms(4,5) root by (simp add: submit_block_def Let_def) (simp add: b_def)
  then have "on_event E (NewBlockEvent b) app = Some (app\<lparr>achain := c\<rparr>)"
    by (auto simp: on_event_def accept_and_broadcast_def handle_outcome_def Let_def)
  then show ?thesis by (rule node_step.event)
qed

lemma node_step_entry:
  assumes "node_step E app app'" "node_inv E gen app" "hash_sizes E" "supply_capped E gen"
    and "get_block (cstate (achain app)) x = Some k"
  shows "get_block (cstate (achain app')) x = Some k \<and> map_of (orphans app') x = map_of (orphans app) x"
proof -
  have accept: "get_block (cstate (achain app2)) x = Some k \<and> map_of (orphans app2) x = map_of (orphans app) x"
    if "accept_and_broadcast E b app = Some (r, app2)" for b r app2
    using accept_facts [OF assms(2-4), of b] that assms(5) by (auto simp: keeps_blocks_def)
  have event: "get_block (cstate (achain app2)) x = Some k \<and> map_of (orphans app2) x = map_of (orphans app) x"
    if "on_event E ev app = Some app2" for ev app2
    using that accept assms(5)
    by (cases ev) (auto simp: on_event_def state_simps split: option.splits if_splits)
  from assms(1) show ?thesis
  proof (cases rule: node_step.cases)
    case (work_asked now query r)
    from work_asked show ?thesis
      by (cases rule: rpc_get_work_cases) (use assms(5) in \<open>auto dest: template_mempool\<close>)
  next
    case (block_posted b r)
    then show ?thesis using accept by (auto simp: rpc_submit_block_def split: option.splits sum.splits)
  qed (use assms(5) event in \<open>auto simp: rebroadcast_def rpc_submit_tx_def state_simps split: if_splits\<close>)
qed

lemma node_steps_entry:
  assumes "(node_step E)\<^sup>*\<^sup>* app app'" "node_inv E gen app" "hash_sizes E" "supply_capped E gen"
    and "get_block (cstate (achain app)) x = Some k"
  shows "node_inv E gen app' \<and> get_block (cstate (achain app')) x = Some k \<and>
    map_of (orphans app') x = map_of (orphans app) x"
  using assms(1)
proof (induction rule: rtranclp_induct)
  case (step app1 app2)
  then show ?case
    using node_step_inv [OF step.hyps(2) _ assms(3,4)] node_step_entry [OF step.hyps(2) _ assms(3,4), of x k] by auto
qed (use assms(2,5) in simp)

text \<open>
  Blocks stranded on a side branch. When a block arrives and is stored as a side branch, the blocks that
  were buffered because it was missing are not tried: whatever the node receives or is asked afterwards,
  until it is restarted, they stay in the buffer under a parent that the node has.
\<close>

theorem side_branch_strands_orphans:
  assumes "node_run E gen app" "hash_sizes E" "supply_capped E gen"
    and "accept_and_broadcast E b app = Some (Inr (SideBranch x h), app1)"
    and "(node_step E)\<^sup>*\<^sup>* app1 app2"
  shows "get_block (cstate (achain app)) x = None \<and> get_block (cstate (achain app2)) x = Some b \<and>
    map_of (orphans app2) x = map_of (orphans app) x"
proof -
  have inv: "node_inv E gen app" by (rule node_run_inv [OF assms(1-3)])
  obtain c where sub: "submit_block E (achain app) b = Some (Inr (SideBranch x h), c)"
    and app1: "app1 = handle_outcome E b (SideBranch x h) (app\<lparr>achain := c\<rparr>)"
    using assms(4) by (auto simp: accept_and_broadcast_def Let_def split: option.splits sum.splits submit_outcome.splits)
  have blocks: "get_block (cstate (achain app)) x = None" "get_block (cstate c) x = Some b"
    using submit_facts [OF _ assms(2,3), of "achain app" b] sub inv by (auto simp: node_inv_def)
  have inv1: "node_inv E gen app1"
    using accept_facts [OF inv assms(2,3), of b] assms(4) by auto
  have "get_block (cstate (achain app1)) x = Some b" "orphans app1 = orphans app"
    using blocks by (simp_all add: app1 handle_outcome_frame)
  with node_steps_entry [OF assms(5) inv1 assms(2,3)] blocks show ?thesis by auto
qed

text \<open>
  In the example the stranded block would have been accepted with a reorganisation: the node stays on
  the branch with less work although it holds every block of the heavier one.
\<close>

theorem side_branch_strands_orphans_witness:
  "\<exists>app1 app2 c. node_run sample_env sample_gen app1 \<and> map_of (orphans app1) (sample_id 2 0) = Some [block_c] \<and>
     accept_and_broadcast sample_env (block_at_b []) app1 = Some (Inr (SideBranch (sample_id 2 0) 1), app2) \<and>
     get_block (cstate (achain app2)) (sample_id 2 0) = Some (block_at_b []) \<and>
     map_of (orphans app2) (sample_id 2 0) = Some [block_c] \<and>
     submit_block sample_env (achain app2) block_c = Some (Inr (Accepted (sample_id 2 1) 2 True []), c)"
proof -
  have "spec_blocks sample_env sample_gen [block_at_b [], block_c] (genesis_ledger sample_env sample_gen) \<noteq> None"
    by (simp add: spec_block_def block_c_def)
  then obtain app1 app2 c where run1: "node_run sample_env sample_gen app1" "orphans app1 = [(sample_id 2 0, [block_c])]"
    and acc: "accept_and_broadcast sample_env (block_at_b []) app1 = Some (Inr (SideBranch (sample_id 2 0) 1), app2)"
    and sub: "submit_block sample_env (achain app2) block_c = Some (Inr (Accepted (sample_id 2 1) 2 True []), c)"
    using sample_forked [OF like_sample_app, of "[]"] by (auto simp: sample_app_def)
  from side_branch_strands_orphans [OF run1(1) sample_env_laws(1) sample_capped acc rtranclp.rtrancl_refl] run1 acc sub
  show ?thesis by auto
qed

end
