(* ===== verification/Consensus.thy ===== *)
theory Consensus
  imports Node_Properties
begin

text \<open>
  What the fork choice agrees on. The tip of a chain is never lighter than any stored branch that replays;
  so what a node believes is determined, but for ties, by the set of blocks it holds, and not by the order
  in which they came, by restarts, or by what was pending.
\<close>

definition replays :: "'a prims_scheme \<Rightarrow> genesis_config \<Rightarrow> block_chain \<Rightarrow> bool" where
  "replays P gen bs \<longleftrightarrow> spec_blocks P gen (map snd bs) (genesis_ledger P gen) \<noteq> None"

definition heaviest :: "'a env_scheme \<Rightarrow> genesis_config \<Rightarrow> chain_state \<Rightarrow> bool" where
  "heaviest E gen s \<longleftrightarrow> (tx_room E gen s \<longrightarrow> (\<forall>obs x bs. canonical E gen s obs \<longrightarrow>
     branch s (genesis_block_hash E gen) x bs \<longrightarrow> replays E gen bs \<longrightarrow> branch_work gen bs \<le> branch_work gen obs))"

section \<open>The invariant\<close>

lemma heaviest_cong:
  assumes "get_block s' = get_block s" "tip s' = tip s" "get_hash_by_height s' = get_hash_by_height s"
  shows "heaviest E gen s' \<longleftrightarrow> heaviest E gen s"
  using assms branch_cong [OF assms(1)] by (simp add: heaviest_def tx_room_def canonical_def)

lemma tx_room_back:
  assumes "stores E gen s x b bs s'" "chain_inv E gen s" "tx_room E gen s'"
  shows "tx_room E gen s"
  using assms(3) stores_branches [OF assms(1,2)] by (auto simp: tx_room_def)

text \<open>One submission: the stored block adds its own branch, and moves the tip only to more work.\<close>

lemma heaviest_stores:
  assumes st: "stores E gen s x b bs s'" and inv: "chain_inv E gen s" and old: "heaviest E gen s"
    and can: "canonical E gen s obs" "canonical E gen s' obs'"
    and grow: "branch_work gen obs \<le> branch_work gen obs'"
    and new: "tx_room E gen s' \<Longrightarrow> replays E gen bs \<Longrightarrow> branch_work gen bs \<le> branch_work gen obs'"
  shows "heaviest E gen s'"
  unfolding heaviest_def
proof (intro impI allI)
  fix cs y ds
  assume room: "tx_room E gen s'" and cs: "canonical E gen s' cs"
    and ds: "branch s' (genesis_block_hash E gen) y ds" "replays E gen ds"
  have "cs = obs'" by (rule canonical_unique [OF cs can(2)])
  moreover from ds(1) consider "branch s (genesis_block_hash E gen) y ds" | "ds = bs"
    using stores_branches [OF st inv] by auto
  then have "branch_work gen ds \<le> branch_work gen obs'"
  proof cases
    case 1
    have "branch_work gen ds \<le> branch_work gen obs"
      using old [unfolded heaviest_def] tx_room_back [OF st inv room] can(1) 1 ds(2) by blast
    with grow show ?thesis by simp
  qed (use new room ds(2) in blast)
  ultimately show "branch_work gen ds \<le> branch_work gen cs" by simp
qed

lemma heaviest_submit:
  assumes "submit_effect E gen s b r s'" "chain_inv E gen s" "heaviest E gen s"
  shows "heaviest E gen s'"
  using assms(1)
proof (cases rule: submit_effect.cases)
  case (side x bs obs)
  from heaviest_stores [OF side(2) assms(2,3) side(3) same_tip_canonical [OF side(2,5,3)]] side(4) show ?thesis by simp
next
  case (unreplayable x bs obs e)
  from heaviest_stores [OF unreplayable(2) assms(2,3) unreplayable(3) same_tip_canonical [OF unreplayable(2,6,3)]] unreplayable(5)
  show ?thesis by (simp add: replays_def)
next
  case (accepted x cs ns us reorged)
  from heaviest_stores [OF accepted(2) assms(2,3) accepted(3,8)] accepted(5) show ?thesis by simp
qed (use assms(3) in simp_all)

lemma heaviest_opened:
  assumes "chain_open E gen empty_state = Inr c" "supply_capped E gen"
  shows "heaviest E gen (cstate c)"
proof -
  have inv: "chain_inv E gen (cstate c)" using chain_open_fresh [OF assms] by simp
  have "bs = []" if br: "branch (cstate c) (genesis_block_hash E gen) x bs" for x bs
  proof -
    obtain b where b: "get_block (cstate c) x = Some b" "unat (height (header b)) = length bs"
      using branch_stored [OF br] by blast
    obtain r s where rs: "init_genesis E gen empty_state = (r, s)" by (cases "init_genesis E gen empty_state")
    with assms(1) have "c = \<lparr>cstate = s, cgenesis = gen, dataset_cache = None\<rparr>" "init_genesis E gen empty_state = (Inr (), s)"
      by (simp_all add: chain_open_def empty_state_fields split: sum.splits unit.splits)
    with init_genesis_blocks b show ?thesis by fastforce
  qed
  note only = this
  have "branch_work gen bs \<le> branch_work gen obs" if "branch (cstate c) (genesis_block_hash E gen) x bs" for x bs obs
    using only [OF that] by (simp add: branch_work_def)
  then show ?thesis by (simp add: heaviest_def)
qed

lemma heaviest_pending [simp]:
  "heaviest E gen (mempool_insert E tx s) = heaviest E gen s" "heaviest E gen (mempool_remove h s) = heaviest E gen s"
  by (rule heaviest_cong; simp add: state_simps fun_eq_iff)+

lemma reachable_heaviest:
  assumes "reachable E gen c" "hash_sizes E" "supply_capped E gen"
  shows "heaviest E gen (cstate c)"
  using assms(1)
proof (induction rule: reachable.induct)
  case (opened c)
  then show ?case by (rule heaviest_opened [OF _ assms(3)])
next
  case (reopened c c')
  then have "c' = \<lparr>cstate = cstate c, cgenesis = gen, dataset_cache = None\<rparr>"
    using chain_open_again [of "cstate c" E gen] chain_inv_tip [OF reachable_inv [OF _ assms(2,3)]] by simp
  with reopened.IH show ?case by simp
next
  case (submitted c b r c')
  from reachable_submit [OF submitted.hyps(1) assms(2,3), of b] submitted.hyps(2)
  have "submit_effect E gen (cstate c) b r (cstate c')" by auto
  from heaviest_submit [OF this reachable_inv [OF submitted.hyps(1) assms(2,3)] submitted.IH] show ?case .
next
  case (templated c now a txs r c')
  then show ?case using template_mempool by metis
qed simp_all

section \<open>Agreement\<close>

text \<open>
  C5. The heaviest branch wins. On every run of a node the blocks of its canonical branch replay, and no other
  stored branch that replays, however its blocks arrived, has more work.
\<close>

theorem heaviest_branch_wins:
  assumes "node_run E gen app" "hash_sizes E" "supply_capped E gen" "tx_room E gen (cstate (achain app))"
  shows "\<exists>obs. canonical E gen (cstate (achain app)) obs \<and> replays E gen obs \<and>
    (\<forall>x bs. branch (cstate (achain app)) (genesis_block_hash E gen) x bs \<and> replays E gen bs \<longrightarrow>
       branch_work gen bs \<le> branch_work gen obs)"
proof -
  have reach: "reachable E gen (achain app)" using node_run_inv [OF assms(1-3)] by (simp add: node_inv_def)
  obtain obs where "canonical E gen (cstate (achain app)) obs" "ledger_replays E gen (cstate (achain app)) obs"
    using reachable_inv [OF reach assms(2,3)] assms(4) by (auto simp: chain_inv_def)
  with reachable_heaviest [OF reach assms(2,3)] assms(4) show ?thesis
    by (auto simp: heaviest_def ledger_replays_def replays_def)
qed

lemma canonical_heaviest:
  assumes "reachable E gen c" "hash_sizes E" "supply_capped E gen" "tx_room E gen (cstate c)" "canonical E gen (cstate c) obs"
  shows "replays E gen obs" "branch (cstate c) (genesis_block_hash E gen) x bs \<Longrightarrow> replays E gen bs \<Longrightarrow>
    branch_work gen bs \<le> branch_work gen obs"
    "spec_blocks E gen (map snd obs) (genesis_ledger E gen) = Some (read_ledger (get_account (cstate c)))"
proof -
  obtain obs' where "canonical E gen (cstate c) obs'" "ledger_replays E gen (cstate c) obs'"
    using reachable_inv [OF assms(1-3)] assms(4) by (auto simp: chain_inv_def)
  with canonical_unique [OF assms(5)] show L: "spec_blocks E gen (map snd obs) (genesis_ledger E gen) = Some (read_ledger (get_account (cstate c)))"
    by (simp add: ledger_replays_def)
  then show "replays E gen obs" by (simp add: replays_def)
  show "branch (cstate c) (genesis_block_hash E gen) x bs \<Longrightarrow> replays E gen bs \<Longrightarrow> branch_work gen bs \<le> branch_work gen obs"
    using reachable_heaviest [OF assms(1-3)] assms(4,5) by (auto simp: heaviest_def)
qed

text \<open>
  C6. Nodes that hold the same blocks agree. Two nodes with the same genesis, each after any run of its own,
  that have stored the same blocks have tips of equal work; and unless two different branches that replay
  tie for the most work, they have the same tip, the same block at every height and the same balance
  and nonce in every account.
\<close>

theorem same_blocks_agree:
  assumes "node_run E gen app1" "node_run E gen app2" "hash_sizes E" "supply_capped E gen"
    and "get_block (cstate (achain app1)) = get_block (cstate (achain app2))" "tx_room E gen (cstate (achain app1))"
    and "canonical E gen (cstate (achain app1)) bs1" "canonical E gen (cstate (achain app2)) bs2"
  shows "branch_work gen bs1 = branch_work gen bs2 \<and>
    ((\<forall>x bs. branch (cstate (achain app1)) (genesis_block_hash E gen) x bs \<and> replays E gen bs \<and>
        branch_work gen bs = branch_work gen bs1 \<longrightarrow> bs = bs1) \<longrightarrow>
      tip (cstate (achain app2)) = tip (cstate (achain app1)) \<and>
      get_block_by_height (cstate (achain app2)) = get_block_by_height (cstate (achain app1)) \<and>
      get_account (cstate (achain app2)) = get_account (cstate (achain app1)))"
proof -
  let ?g = "genesis_block_hash E gen" and ?s1 = "cstate (achain app1)" and ?s2 = "cstate (achain app2)"
  have reach: "reachable E gen (achain app1)" "reachable E gen (achain app2)"
    using node_run_inv [OF assms(1,3,4)] node_run_inv [OF assms(2-4)] by (simp_all add: node_inv_def)
  have same: "branch ?s2 ?g x bs \<longleftrightarrow> branch ?s1 ?g x bs" for x bs using branch_cong [OF assms(5)] by simp
  then have room: "tx_room E gen ?s2" using assms(6) by (simp add: tx_room_def)
  note h1 = canonical_heaviest [OF reach(1) assms(3,4,6,7)] and h2 = canonical_heaviest [OF reach(2) assms(3,4) room assms(8)]
  obtain k1 x1 k2 x2 where t: "tip ?s1 = Some (k1, x1)" "branch ?s1 ?g x1 bs1" "unat k1 = length bs1"
    "tip ?s2 = Some (k2, x2)" "branch ?s1 ?g x2 bs2" "unat k2 = length bs2"
    using assms(7,8) by (auto simp: canonical_def same)
  have work: "branch_work gen bs1 = branch_work gen bs2"
    using h1(2) [OF t(5) h2(1)] h2(2) [of x1 bs1] t(2) h1(1) same by simp
  have "tip ?s2 = tip ?s1 \<and> get_block_by_height ?s2 = get_block_by_height ?s1 \<and> get_account ?s2 = get_account ?s1"
    if unique: "\<forall>x bs. branch ?s1 ?g x bs \<and> replays E gen bs \<and> branch_work gen bs = branch_work gen bs1 \<longrightarrow> bs = bs1"
  proof -
    have eq: "bs2 = bs1" using unique t(5) h2(1) work by simp
    have "x2 = x1" using branch_last [OF t(2)] branch_last [OF t(5)] eq by simp
    moreover have "k2 = k1" using t(3,6) eq by (simp add: word_unat_eq_iff)
    moreover have "get_hash_by_height ?s2 = get_hash_by_height ?s1" using assms(7,8) eq by (auto simp: canonical_def)
    moreover have "get_account ?s2 = get_account ?s1"
      by (rule read_ledger_inject) (use h1(3) h2(3) eq in simp)
    ultimately show ?thesis using t(1,4) assms(5) by (simp add: get_block_by_height_def [abs_def] cong: option.case_cong)
  qed
  with work show ?thesis by blast
qed

section \<open>The example in two orders\<close>

text \<open>The three blocks of the example, stored.\<close>

definition three_blocks :: "chain_state \<Rightarrow> bool" where
  "three_blocks s \<longleftrightarrow> get_block s = (get_block (cstate sample_chain))
     (sample_id 1 0 \<mapsto> block_at_a [], sample_id 2 0 \<mapsto> block_at_b [], sample_id 2 1 \<mapsto> block_c)"

lemma three_blocks_heaviest:
  assumes "three_blocks s" "canonical sample_env sample_gen s [(sample_id 2 0, block_at_b []), entry_c]"
    and "branch s (genesis_block_hash sample_env sample_gen) x bs"
    and "branch_work sample_gen bs = branch_work sample_gen [(sample_id 2 0, block_at_b []), entry_c]"
  shows "bs = [(sample_id 2 0, block_at_b []), entry_c]"
proof -
  have top: "branch s (genesis_block_hash sample_env sample_gen) (sample_id 2 1) [(sample_id 2 0, block_at_b []), entry_c]"
    using assms(2) branch_last by (fastforce simp: canonical_def entry_c_def)
  obtain b where b: "get_block s x = Some b" "unat (height (header b)) = length bs"
    using branch_stored [OF assms(3)] by blast
  have work: "branch_work sample_gen bs = 3" using assms(4) by (simp add: entry_c_def block_c_def sample_work)
  from b assms(1) consider "x = sample_id 2 1" | "length bs = 0" | "length bs = 1" "difficulty (header b) = 1"
    by (auto simp: three_blocks_def sample_fields block_c_def split: if_splits)
  then show ?thesis
  proof cases
    case 1
    with branch_unique [OF assms(3)] top show ?thesis by blast
  next
    case 2
    then show ?thesis using work by (simp add: branch_work_def) (simp add: sample_gen_def)
  next
    case 3
    then obtain y k where bs: "bs = [(y, k)]" by (cases bs) (auto simp: length_Suc_conv)
    then have "k = b" using assms(3) b(1) by (auto elim: branch.cases)
    then show ?thesis using work 3 by (simp add: bs branch_work_def) (simp add: sample_gen_def)
  qed
qed

lemma reach_run: "node_run sample_env sample_gen app \<Longrightarrow> reachable sample_env sample_gen (achain app)"
  using node_run_inv [OF _ sample_env_laws(1) sample_capped] by (simp add: node_inv_def)

text \<open>A block without transactions that is stored leaves a node on which nothing waits with just that block more.\<close>

lemma node_submits:
  assumes "node_run E gen app" "orphans app = []" "transactions b = []"
    and "submit_block E (achain app) b = Some (Inr oc, c)" "(\<exists>x h re. oc = Accepted x h re []) \<or> (\<exists>x h. oc = SideBranch x h)"
  shows "\<exists>app'. node_run E gen app' \<and> orphans app' = [] \<and> achain app' = c"
proof -
  let ?app' = "handle_outcome E b oc (app\<lparr>achain := c\<rparr>)"
  have "accept_and_broadcast E b app = Some (Inr oc, ?app')" by (rule accept_quiet [OF assms(4)]) (simp add: assms(2))
  from accept_run [OF assms(1) this] have "node_run E gen ?app'" .
  moreover from assms(5) consider x h re where "oc = Accepted x h re []" | x h where "oc = SideBranch x h" by blast
  then have "achain ?app' = c \<and> orphans ?app' = []"
    by cases (simp_all add: achain_handled(1) [OF assms(3) refl] achain_handled(2) handle_outcome_frame assms(2))
  ultimately show ?thesis by blast
qed

lemma replay_empty: "spec_blocks sample_env sample_gen [block_at_b [], block_c] (genesis_ledger sample_env sample_gen) \<noteq> None"
  using replay_bc by (simp add: block_b_def)

text \<open>First the light branch, then the heavy one, with a reorganisation.\<close>

lemma light_first:
  "\<exists>app. node_run sample_env sample_gen app \<and> three_blocks (cstate (achain app)) \<and>
     canonical sample_env sample_gen (cstate (achain app)) [(sample_id 2 0, block_at_b []), entry_c] \<and>
     tx_room sample_env sample_gen (cstate (achain app))"
proof -
  note hyps = sample_env_laws(1) sample_capped
  have ach: "achain sample_app = sample_chain" by (simp add: sample_app_def)
  obtain c1 where c1: "submit_block sample_env sample_chain (block_at_a []) = Some (Inr (Accepted (sample_id 1 0) 1 False []), c1)"
    "reachable sample_env sample_gen c1" "canonical sample_env sample_gen (cstate c1) [(sample_id 1 0, block_at_a [])]"
    and st1: "stores sample_env sample_gen (cstate sample_chain) (sample_id 1 0) (block_at_a []) [(sample_id 1 0, block_at_a [])] (cstate c1)"
    using step_first [OF sample_reachable sample_canonical sample_room, of "[]" 1] by (auto simp: spec_block_def)
  have room1: "tx_room sample_env sample_gen (cstate c1)"
    by (rule tx_room_store [OF sample_room st1 reachable_inv [OF sample_hyps]]) simp
  have b1: "get_block (cstate c1) = (get_block (cstate sample_chain))(sample_id 1 0 \<mapsto> block_at_a [])"
    using st1 by (simp add: stores_def)
  obtain c2 where c2: "submit_block sample_env c1 (block_at_b []) = Some (Inr (SideBranch (sample_id 2 0) 1), c2)"
    "reachable sample_env sample_gen c2" "canonical sample_env sample_gen (cstate c2) [(sample_id 1 0, block_at_a [])]"
    "tx_room sample_env sample_gen (cstate c2)"
    and st2: "stores sample_env sample_gen (cstate c1) (sample_id 2 0) (block_at_b []) [(sample_id 2 0, block_at_b [])] (cstate c2)"
    using step_b [OF c1(2,3) room1 b1, of "[]"] by auto
  have b2: "get_block (cstate c2) = (get_block (cstate sample_chain))(sample_id 1 0 \<mapsto> block_at_a [], sample_id 2 0 \<mapsto> block_at_b [])"
    using st2 b1 by (simp add: stores_def)
  obtain c3 where c3: "submit_block sample_env c2 block_c = Some (Inr (Accepted (sample_id 2 1) 2 True []), c3)"
    "canonical sample_env sample_gen (cstate c3) [(sample_id 2 0, block_at_b []), entry_c]" "tx_room sample_env sample_gen (cstate c3)"
    and st3: "stores sample_env sample_gen (cstate c2) (sample_id 2 1) block_c [(sample_id 2 0, block_at_b []), entry_c] (cstate c3)"
    using step_c [OF c2(2-4) b2 _ replay_empty] by (auto simp: requeued_def)
  obtain app1 where app1: "node_run sample_env sample_gen app1" "orphans app1 = []" "achain app1 = c1"
    using node_submits [OF sample_app_run _ _ c1(1) [folded ach]] by (auto simp: sample_app_def)
  obtain app2 where app2: "node_run sample_env sample_gen app2" "orphans app2 = []" "achain app2 = c2"
    using node_submits [OF app1(1,2) _ c2(1) [folded app1(3)]] by auto
  obtain app3 where app3: "node_run sample_env sample_gen app3" "achain app3 = c3"
    using node_submits [OF app2(1,2) _ c3(1) [folded app2(3)]] by (auto simp: block_c_def)
  have "three_blocks (cstate c3)" using st3 b2 by (simp add: stores_def three_blocks_def)
  with app3 c3 show ?thesis by blast
qed

text \<open>First the heavy branch, then the light one.\<close>

lemma heavy_first:
  "\<exists>app. node_run sample_env sample_gen app \<and> three_blocks (cstate (achain app)) \<and>
     canonical sample_env sample_gen (cstate (achain app)) [(sample_id 2 0, block_at_b []), entry_c]"
proof -
  note hyps = sample_env_laws(1) sample_capped
  obtain ds where ds: "generate sample_env 0 (epoch_seed sample_env None) = Some ds" "wf_dataset ds"
    using sample_dataset by blast
  have ach: "achain sample_app = sample_chain" by (simp add: sample_app_def)
  obtain c1 where c1: "submit_block sample_env sample_chain (block_at_b []) = Some (Inr (Accepted (sample_id 2 0) 1 False []), c1)"
    "reachable sample_env sample_gen c1" "canonical sample_env sample_gen (cstate c1) [(sample_id 2 0, block_at_b [])]"
    and st1: "stores sample_env sample_gen (cstate sample_chain) (sample_id 2 0) (block_at_b []) [(sample_id 2 0, block_at_b [])] (cstate c1)"
    using step_first [OF sample_reachable sample_canonical sample_room, of "[]" 2] by (auto simp: spec_block_def)
  have room1: "tx_room sample_env sample_gen (cstate c1)"
    by (rule tx_room_store [OF sample_room st1 reachable_inv [OF sample_hyps]]) simp
  have b1: "get_block (cstate c1) = (get_block (cstate sample_chain))(sample_id 2 0 \<mapsto> block_at_b [])"
    using st1 by (simp add: stores_def)
  have idc: "header_id sample_env (header block_c) ds = Some (sample_id 2 1)"
    unfolding block_c_def by (rule sample_block_id [OF wf_sample_id ds(2)])
  have tip1: "tip (cstate c1) = Some (1, sample_id 2 0)"
    using c1(3) branch_last by (fastforce simp: canonical_def word_unat_eq_iff)
  have replay: "spec_blocks sample_env sample_gen (map snd [(sample_id 2 0, block_at_b [])] @ [block_c]) (genesis_ledger sample_env sample_gen) \<noteq> None"
    using replay_empty by simp
  have "\<exists>c2. submit_block sample_env c1 block_c = Some (Inr (Accepted (sample_id 2 1) (1 + 1) False []), c2) \<and> reachable sample_env sample_gen c2 \<and>
    canonical sample_env sample_gen (cstate c2) ([(sample_id 2 0, block_at_b [])] @ [(sample_id 2 1, block_c)]) \<and>
    stores sample_env sample_gen (cstate c1) (sample_id 2 1) block_c ([(sample_id 2 0, block_at_b [])] @ [(sample_id 2 1, block_c)]) (cstate c2)"
    by (rule extend_tip [where p = "block_at_b []", OF c1(2) hyps c1(3) tip1 ds(1) idc _ _ _ _ _ _ _ _ _ _ room1 _ replay])
      (use sample_root_fresh [symmetric] reachable_gen [OF c1(2) hyps] in \<open>simp_all add: b1 sample_fields block_c_def early_difficulty
         meets_target_one EPOCH_LENGTH_def\<close>)
  then obtain c2 where c2: "submit_block sample_env c1 block_c = Some (Inr (Accepted (sample_id 2 1) 2 False []), c2)"
    "reachable sample_env sample_gen c2" "canonical sample_env sample_gen (cstate c2) [(sample_id 2 0, block_at_b []), entry_c]"
    and st2: "stores sample_env sample_gen (cstate c1) (sample_id 2 1) block_c [(sample_id 2 0, block_at_b []), entry_c] (cstate c2)"
    by (auto simp: entry_c_def)
  have b2: "get_block (cstate c2) = (get_block (cstate sample_chain))(sample_id 2 0 \<mapsto> block_at_b [], sample_id 2 1 \<mapsto> block_c)"
    using st2 b1 by (simp add: stores_def)
  have root: "get_block (cstate c2) sample_root = Some (genesis_block sample_gen)"
    using sample_root_fresh by (simp add: b2 sample_fields)
  have fresh: "get_block (cstate c2) (sample_id 1 0) = None"
    using sample_root_fresh [symmetric] by (simp add: b2 sample_fields)
  have ida: "header_id sample_env (header (block_at_a [])) ds = Some (sample_id 1 0)"
    by (rule sample_block_id [OF wf_sample_root ds(2)])
  obtain r c3 bs where c3: "submit_block sample_env c2 (block_at_a []) = Some (r, c3)"
    and st3: "stores sample_env sample_gen (cstate c2) (sample_id 1 0) (block_at_a []) bs (cstate c3)"
    and out: "stored_outcome sample_env sample_gen (cstate c2) [(sample_id 2 0, block_at_b []), entry_c] (sample_id 1 0) (block_at_a []) bs r (cstate c3)"
    using submit_checked [OF c2(2) hyps c2(3) ds(1) ida fresh, of "genesis_block sample_gen"] root reachable_gen [OF c2(2) hyps]
    by (auto simp: early_difficulty meets_target_one EPOCH_LENGTH_def)
  have "bs = [] @ [(sample_id 1 0, block_at_a [])]"
    by (rule stored_branch [OF st3])
      (auto intro!: branch.genesis [where b = "genesis_block sample_gen"] simp: root sample_root_def [symmetric])
  then have r: "r = Inr (SideBranch (sample_id 1 0) 1)" "same_tip (cstate c2) (cstate c3)"
    using out by (simp_all add: stored_outcome_def entry_c_def block_c_def sample_work)
  obtain app1 where app1: "node_run sample_env sample_gen app1" "orphans app1 = []" "achain app1 = c1"
    using node_submits [OF sample_app_run _ _ c1(1) [folded ach]] by (auto simp: sample_app_def)
  obtain app2 where app2: "node_run sample_env sample_gen app2" "orphans app2 = []" "achain app2 = c2"
    using node_submits [OF app1(1,2) _ c2(1) [folded app1(3)]] by (auto simp: block_c_def)
  obtain app3 where app3: "node_run sample_env sample_gen app3" "achain app3 = c3"
    using node_submits [OF app2(1,2) _ c3 [unfolded r, folded app2(3)]] by auto
  have "three_blocks (cstate c3)" using st3 b2 by (auto simp: stores_def three_blocks_def)
  with app3 same_tip_canonical [OF st3 r(2) c2(3)] show ?thesis by blast
qed

text \<open>Both orders end on the heavy branch, although the first node saw it second.\<close>

theorem heaviest_branch_wins_witness:
  "\<exists>app. node_run sample_env sample_gen app \<and>
     canonical sample_env sample_gen (cstate (achain app)) [(sample_id 2 0, block_at_b []), entry_c] \<and>
     (\<forall>x bs. branch (cstate (achain app)) (genesis_block_hash sample_env sample_gen) x bs \<and> replays sample_env sample_gen bs \<longrightarrow>
        branch_work sample_gen bs \<le> branch_work sample_gen [(sample_id 2 0, block_at_b []), entry_c])"
proof -
  obtain app where app: "node_run sample_env sample_gen app" "tx_room sample_env sample_gen (cstate (achain app))"
    "canonical sample_env sample_gen (cstate (achain app)) [(sample_id 2 0, block_at_b []), entry_c]"
    using light_first by blast
  from heaviest_branch_wins [OF app(1) sample_env_laws(1) sample_capped app(2)] canonical_unique [OF app(3)] app(1,3)
  show ?thesis by metis
qed

theorem same_blocks_agree_witness:
  "\<exists>app1 app2. node_run sample_env sample_gen app1 \<and> node_run sample_env sample_gen app2 \<and>
     three_blocks (cstate (achain app1)) \<and> three_blocks (cstate (achain app2)) \<and>
     tip (cstate (achain app2)) = tip (cstate (achain app1)) \<and>
     get_block_by_height (cstate (achain app2)) = get_block_by_height (cstate (achain app1)) \<and>
     get_account (cstate (achain app2)) = get_account (cstate (achain app1))"
proof -
  obtain app1 where app1: "node_run sample_env sample_gen app1" "three_blocks (cstate (achain app1))"
    "canonical sample_env sample_gen (cstate (achain app1)) [(sample_id 2 0, block_at_b []), entry_c]"
    "tx_room sample_env sample_gen (cstate (achain app1))"
    using light_first by blast
  obtain app2 where app2: "node_run sample_env sample_gen app2" "three_blocks (cstate (achain app2))"
    "canonical sample_env sample_gen (cstate (achain app2)) [(sample_id 2 0, block_at_b []), entry_c]"
    using heavy_first by blast
  have eq: "get_block (cstate (achain app1)) = get_block (cstate (achain app2))"
    using app1(2) app2(2) by (simp add: three_blocks_def)
  note agree = same_blocks_agree [OF app1(1) app2(1) sample_env_laws(1) sample_capped eq app1(4,3) app2(3), THEN conjunct2]
  have "\<forall>x bs. branch (cstate (achain app1)) (genesis_block_hash sample_env sample_gen) x bs \<and> replays sample_env sample_gen bs \<and>
      branch_work sample_gen bs = branch_work sample_gen [(sample_id 2 0, block_at_b []), entry_c] \<longrightarrow>
      bs = [(sample_id 2 0, block_at_b []), entry_c]"
    using three_blocks_heaviest [OF app1(2,3)] by blast
  from agree [rule_format, OF this [rule_format]] app1(1,2) app2(1,2) show ?thesis by blast
qed

end
