(* ===== verification/Store_Writes.thy ===== *)
theory Store_Writes
  imports Sample_Chain
begin

text \<open>
  The writes of \<open>init_genesis\<close>, \<open>submit_block\<close> and \<open>reconsider_tip\<close> one by one. No two submissions overlap, but
  between two writes of one the handlers that take no lock read the store, and a node that is stopped there is
  taken to leave the writes made so far (sled appends them to one log). The logs below list the writes of an
  operation in the order of the code. \<open>Chain\<close> is their composition.
\<close>

datatype store_write =
    PutAccount address account
  | PutBlock hash256 block
  | PutWork hash256 u128
  | PutHeight u64 hash256
  | DropHeight u64
  | PutTip u64 hash256

fun do_write :: "store_write \<Rightarrow> chain_state \<Rightarrow> chain_state" where
  "do_write (PutAccount a acc) = set_account a acc"
| "do_write (PutBlock x b) = store_block x b"
| "do_write (PutWork x w) = set_chainwork x w"
| "do_write (PutHeight h x) = set_canonical_height h x"
| "do_write (DropHeight h) = remove_canonical_height h"
| "do_write (PutTip h x) = set_tip h x"

abbreviation do_writes :: "store_write list \<Rightarrow> chain_state \<Rightarrow> chain_state" where
  "do_writes ws s \<equiv> fold do_write ws s"

section \<open>The logs\<close>

text \<open>Crediting reads an account before it writes it.\<close>

fun credit_log :: "(address \<times> u64) list \<Rightarrow> chain_state \<Rightarrow> store_write list" where
  "credit_log [] s = []"
| "credit_log ((a, am) # ps) s =
     PutAccount a (let acc = get_account s a in acc\<lparr>balance := sat_add (balance acc) am\<rparr>) # credit_log ps (credit a am s)"

definition init_genesis_log :: "'a prims_scheme \<Rightarrow> genesis_config \<Rightarrow> chain_state \<Rightarrow> (chain_error + unit) \<times> store_write list" where
  "init_genesis_log P gen s =
     (let blk = genesis_block gen; x = genesis_block_hash P gen
      in case premine_parsed P gen of
           Inl e \<Rightarrow> (Inl (BadPremine e), [])
         | Inr ps \<Rightarrow>
             (Inr (), credit_log ps s @
               [PutWork x (block_work (difficulty (header blk))), PutBlock x blk, PutHeight 0 x, PutTip 0 x]))"

text \<open>
  The overlay is a \<open>HashMap\<close>, and the order in which it hands out its entries is not documented: the argument
  \<open>ord\<close>. All that counts is that each entry comes once.
\<close>

definition hash_map_order :: "(overlay \<Rightarrow> (address \<times> account) list) \<Rightarrow> bool" where
  "hash_map_order ord \<longleftrightarrow> (\<forall>ov. finite (dom ov) \<longrightarrow> distinct (map fst (ord ov)) \<and> map_of (ord ov) = ov)"

definition commit_log ::
    "(overlay \<Rightarrow> (address \<times> account) list) \<Rightarrow> overlay \<Rightarrow> block_chain \<Rightarrow> block_chain \<Rightarrow> u64 \<Rightarrow> hash256 \<Rightarrow> store_write list" where
  "commit_log ord ov undo_list apply_list new_tip_height new_tip =
     map (\<lambda>(a, acc). PutAccount a acc) (ord ov) @
     map (\<lambda>(x, b). DropHeight (height (header b))) undo_list @
     map (\<lambda>(x, b). PutHeight (height (header b)) x) apply_list @
     [PutTip new_tip_height new_tip]"

definition reconsider_tip_log ::
    "(overlay \<Rightarrow> (address \<times> account) list) \<Rightarrow> 'a env_scheme \<Rightarrow> genesis_config \<Rightarrow> chain_state \<Rightarrow> hash256 \<Rightarrow> hash256 \<Rightarrow> u64 \<Rightarrow>
       ((chain_error + transaction list) \<times> store_write list) option" where
  "reconsider_tip_log ord E gen s old_tip new_tip new_tip_height =
     (case fork_paths s old_tip new_tip of
        None \<Rightarrow> None
      | Some (Inl e) \<Rightarrow> Some (Inl e, [])
      | Some (Inr (undo_list, apply_list)) \<Rightarrow>
          (let ov = fold (undo_block E gen s) (map snd undo_list) Map.empty
           in case apply_blocks E gen s (map snd apply_list) ov of
                Inl e \<Rightarrow> Some (Inl e, [])
              | Inr ov' \<Rightarrow>
                  Some (Inr (requeued E undo_list apply_list),
                    commit_log ord ov' undo_list apply_list new_tip_height new_tip)))"

definition submit_on_parent_log ::
    "(overlay \<Rightarrow> (address \<times> account) list) \<Rightarrow> 'a env_scheme \<Rightarrow> chain \<Rightarrow> block \<Rightarrow> hash256 \<Rightarrow> block \<Rightarrow>
       ((chain_error + submit_outcome) \<times> store_write list) option" where
  "submit_on_parent_log ord E c b x parent =
     (let hd = header b in
      if height (header parent) + 1 \<noteq> height hd
      then Some (Inl (HeightMismatch (height hd) (height (header parent))), [])
      else case expected_difficulty_after c parent of
        Inl e \<Rightarrow> Some (Inl e, [])
      | Inr expected \<Rightarrow>
          if difficulty hd \<noteq> expected then Some (Inl (WrongDifficulty (difficulty hd) expected), [])
          else case get_chainwork (cstate c) (prev_hash hd) of
            None \<Rightarrow> Some (Inl (MissingChainwork (prev_hash hd)), [])
          | Some parent_work \<Rightarrow>
              (let this_work = parent_work + block_work (difficulty hd);
                   stored = [PutBlock x b, PutWork x this_work];
                   s = do_writes stored (cstate c)
               in case tip s of
                    None \<Rightarrow> Some (Inl NotInitialized, stored)
                  | Some (_, tip_hash) \<Rightarrow>
                      (case get_chainwork s tip_hash of
                         None \<Rightarrow> Some (Inl MissingTipWork, stored)
                       | Some tip_work \<Rightarrow>
                           if this_work > tip_work
                           then (case reconsider_tip_log ord E (cgenesis c) s tip_hash x (height hd) of
                                   None \<Rightarrow> None
                                 | Some (Inl e, ws) \<Rightarrow> Some (Inl e, stored @ ws)
                                 | Some (Inr requeue, ws) \<Rightarrow>
                                     Some (Inr (Accepted x (height hd) (tip_hash \<noteq> prev_hash hd) requeue), stored @ ws))
                           else Some (Inr (SideBranch x (height hd)), stored))))"

text \<open>The last component is the chain with its new dataset cache, and the store as it was.\<close>

definition submit_block_log ::
    "(overlay \<Rightarrow> (address \<times> account) list) \<Rightarrow> 'a env_scheme \<Rightarrow> chain \<Rightarrow> block \<Rightarrow>
       ((chain_error + submit_outcome) \<times> store_write list \<times> chain) option" where
  "submit_block_log ord E c b =
     (let hd = header b in
      if \<not> height hd > 0 then Some (Inl SecondGenesis, [], c)
      else case dataset_for_height E c (height hd) of
        None \<Rightarrow> None
      | Some (Inl e, c') \<Rightarrow> Some (Inl e, [], c')
      | Some (Inr ds, c') \<Rightarrow>
          (case header_id E hd ds of
             None \<Rightarrow> None
           | Some x \<Rightarrow>
               if has_block (cstate c') x then Some (Inr AlreadyKnown, [], c')
               else if tx_root hd \<noteq> compute_tx_root E b then Some (Inl InvalidTxRoot, [], c')
               else if \<not> meets_target x (target_for_difficulty (difficulty hd))
                 then Some (Inl PowBelowTarget, [], c')
               else if \<not> list_all (is_signature_valid E) (transactions b)
                 then Some (Inl InvalidTxSignature, [], c')
               else (case get_block (cstate c') (prev_hash hd) of
                       None \<Rightarrow> Some (Inr (Orphan (prev_hash hd)), [], c')
                     | Some parent \<Rightarrow>
                         (case submit_on_parent_log ord E c' b x parent of
                            None \<Rightarrow> None
                          | Some (r, ws) \<Rightarrow> Some (r, ws, c')))))"

section \<open>The operations are the composition of their writes\<close>

lemma credit_log_writes: "do_writes (credit_log ps s) s = credit_all ps s"
  by (induction ps s rule: credit_all.induct) (simp_all add: credit_def Let_def)

lemma init_genesis_writes: "init_genesis P gen s = (case init_genesis_log P gen s of (r, ws) \<Rightarrow> (r, do_writes ws s))"
  by (simp add: init_genesis_def init_genesis_log_def Let_def credit_log_writes split: sum.split)

lemma put_accounts: "distinct (map fst xs) \<Longrightarrow> do_writes (map (\<lambda>(a, acc). PutAccount a acc) xs) s = commit_overlay (map_of xs) s"
proof (induction xs arbitrary: s)
  case (Cons p xs)
  obtain a acc where p: "p = (a, acc)" by (cases p)
  from Cons.prems have "map_of xs a = None" by (simp add: p map_of_eq_None_iff)
  then have "(accounts s)(a \<mapsto> acc) ++ map_of xs = accounts s ++ map_of (p # xs)"
    by (auto simp: p map_add_def fun_eq_iff split: option.splits)
  moreover have "do_writes (map (\<lambda>(a, acc). PutAccount a acc) (p # xs)) s = commit_overlay (map_of xs) (set_account a acc s)"
    using Cons by (simp add: p)
  ultimately show ?case by (simp only: commit_overlay_def set_account_def) simp
qed (simp add: commit_overlay_def)

lemma drop_heights: "do_writes (map (\<lambda>(x, b). DropHeight (height (header b))) bs) s = unindex bs s"
  by (induction bs arbitrary: s) (auto simp: unindex_def)

lemma put_heights: "do_writes (map (\<lambda>(x, b). PutHeight (height (header b)) x) bs) s = index bs s"
  by (induction bs arbitrary: s) (auto simp: index_def)

lemma finite_overlay:
  "finite (dom ov) \<Longrightarrow> finite (dom (undo_tx P s tx ov))"
  "finite (dom ov) \<Longrightarrow> finite (dom (undo_block P gen s b ov))"
  "finite (dom ov) \<Longrightarrow> finite (dom (fold (undo_block P gen s) bs ov))"
proof -
  show tx: "finite (dom ov) \<Longrightarrow> finite (dom (undo_tx P s tx ov))" for tx ov
    by (simp add: undo_tx_def Let_def put_acc_def)
  have txs: "finite (dom ov) \<Longrightarrow> finite (dom (fold (undo_tx P s) ts ov))" for ts ov
    by (induction ts arbitrary: ov) (simp_all add: tx)
  show blk: "finite (dom ov) \<Longrightarrow> finite (dom (undo_block P gen s b ov))" for b ov
    by (simp add: undo_block_def Let_def put_acc_def txs)
  show "finite (dom ov) \<Longrightarrow> finite (dom (fold (undo_block P gen s) bs ov))"
    by (induction bs arbitrary: ov) (simp_all add: blk)
qed

lemma finite_applied:
  "apply_blocks P gen s bs ov = Inr ov' \<Longrightarrow> finite (dom ov) \<Longrightarrow> finite (dom ov')"
proof -
  have tx: "apply_tx P s h tx ov = Inr ov' \<Longrightarrow> finite (dom ov) \<Longrightarrow> finite (dom ov')" for h tx ov ov'
    by (auto simp: apply_tx_def Let_def put_acc_def split: if_splits)
  have txs: "apply_txs P s h txs ov = Inr ov' \<Longrightarrow> finite (dom ov) \<Longrightarrow> finite (dom ov')" for h txs ov ov'
    by (induction txs arbitrary: ov) (auto dest: tx split: sum.splits)
  have blk: "apply_block P gen s b ov = Inr ov' \<Longrightarrow> finite (dom ov) \<Longrightarrow> finite (dom ov')" for b ov ov'
    by (auto simp: apply_block_def Let_def put_acc_def dest: txs split: sum.splits)
  show "apply_blocks P gen s bs ov = Inr ov' \<Longrightarrow> finite (dom ov) \<Longrightarrow> finite (dom ov')"
    by (induction bs arbitrary: ov) (auto dest: blk split: sum.splits)
qed

lemma finite_simulated:
  "apply_blocks E gen s as (fold (undo_block E gen s) us Map.empty) = Inr ov \<Longrightarrow> finite (dom ov)"
  by (erule finite_applied) (rule finite_overlay(3), simp)

lemma commit_writes:
  assumes "hash_map_order ord" "finite (dom ov)"
  shows "do_writes (commit_log ord ov us ns h x) s = set_tip h x (index ns (unindex us (commit_overlay ov s)))"
  using assms by (simp add: commit_log_def hash_map_order_def put_accounts drop_heights put_heights)

lemma reconsider_writes:
  assumes "hash_map_order ord"
  shows "reconsider_tip E gen s old x h = map_option (\<lambda>(r, ws). (r, do_writes ws s)) (reconsider_tip_log ord E gen s old x h)"
  by (simp add: reconsider_tip_def reconsider_tip_log_def Let_def commit_writes [OF assms finite_simulated]
      split: option.split sum.split prod.split)

text \<open>
  The model of a submission is the composition of its writes, for every order in which a \<open>HashMap\<close> hands out the
  entries of the overlay. What hangs on the order of the log is said by \<open>between_two_writes\<close> and the two theorems
  about stops below.
\<close>

lemma submit_writes:
  assumes "hash_map_order ord"
  shows "submit_block E c b =
    map_option (\<lambda>(r, ws, c'). (r, c'\<lparr>cstate := do_writes ws (cstate c')\<rparr>)) (submit_block_log ord E c b)"
proof -
  have parent: "submit_on_parent E c' b x p =
      map_option (\<lambda>(r, ws). (r, c'\<lparr>cstate := do_writes ws (cstate c')\<rparr>)) (submit_on_parent_log ord E c' b x p)" for c' x p
    by (simp add: submit_on_parent_def submit_on_parent_log_def Let_def reconsider_writes [OF assms]
        split: option.split sum.split prod.split)
  have same: "c'\<lparr>cstate := cstate c'\<rparr> = c'" for c' :: chain by simp
  show ?thesis
    by (simp add: submit_block_def submit_block_log_def Let_def parent split: option.split sum.split prod.split)
qed

section \<open>The shape of a log\<close>

definition stored_log :: "hash256 \<Rightarrow> block \<Rightarrow> u128 \<Rightarrow> store_write list" where
  "stored_log x b w = [PutBlock x b, PutWork x w]"

lemma reconsider_log_shape:
  assumes "reconsider_tip_log ord E gen s old x h = Some (r, ws)"
  shows "(\<exists>e. r = Inl e \<and> ws = []) \<or> (\<exists>us ns ov rq. r = Inr rq \<and> ws = commit_log ord ov us ns h x \<and> finite (dom ov) \<and>
    fork_paths s old x = Some (Inr (us, ns)))"
  using assms by (auto simp: reconsider_tip_log_def Let_def intro: finite_simulated split: option.splits sum.splits prod.splits)

lemma parent_log_cases:
  assumes "submit_on_parent_log ord E c b x p = Some (r, ws)"
  obtains "ws = []" "\<And>y h re rq. r \<noteq> Inr (Accepted y h re rq)"
  | w where "ws = stored_log x b w" "\<And>y h re rq. r \<noteq> Inr (Accepted y h re rq)" "get_chainwork (cstate c) (prev_hash (header b)) \<noteq> None"
  | w us ns ov k old re rq where "ws = stored_log x b w @ commit_log ord ov us ns (height (header b)) x"
      "get_chainwork (cstate c) (prev_hash (header b)) \<noteq> None" "finite (dom ov)" "tip (cstate c) = Some (k, old)"
      "fork_paths (do_writes (stored_log x b w) (cstate c)) old x = Some (Inr (us, ns))"
      "r = Inr (Accepted x (height (header b)) re rq)"
proof (cases "ws = [] \<and> (\<forall>y h re rq. r \<noteq> Inr (Accepted y h re rq))")
  case False
  then obtain pw where pw: "get_chainwork (cstate c) (prev_hash (header b)) = Some pw"
    using assms by (fastforce simp: submit_on_parent_log_def Let_def split: if_splits sum.splits option.splits)
  let ?w = "pw + block_work (difficulty (header b))"
  show thesis
  proof (cases "ws = stored_log x b ?w \<and> (\<forall>y h re rq. r \<noteq> Inr (Accepted y h re rq))")
    case True
    with that(2) pw show thesis by auto
  next
    case nonfinal: False
    with assms False pw obtain k old ws' r' where "tip (cstate c) = Some (k, old)"
      "reconsider_tip_log ord E (cgenesis c) (do_writes (stored_log x b ?w) (cstate c)) old x (height (header b)) = Some (r', ws')"
      "case r' of Inl e \<Rightarrow> r = Inl e \<and> ws = stored_log x b ?w @ ws'
       | Inr rq \<Rightarrow> r = Inr (Accepted x (height (header b)) (old \<noteq> prev_hash (header b)) rq) \<and> ws = stored_log x b ?w @ ws'"
      by (auto simp: submit_on_parent_log_def Let_def stored_log_def state_simps split: if_splits sum.splits option.splits)
    with reconsider_log_shape [of ord E "cgenesis c" "do_writes (stored_log x b ?w) (cstate c)" old x "height (header b)" r' ws']
      that(3) pw nonfinal show thesis by (auto split: sum.splits)
  qed
qed (use that(1) in blast)

lemma dataset_frame:
  "dataset_for_height P c h = Some (r, c') \<Longrightarrow> cstate c' = cstate c \<and> cgenesis c' = cgenesis c"
  by (auto simp: dataset_for_height_def Let_def split: if_splits option.splits)

lemma submit_log_parent:
  assumes "submit_block_log ord E c b = Some (r, ws, c')"
  shows "cstate c' = cstate c \<and> cgenesis c' = cgenesis c \<and> (ws = [] \<and> (\<forall>y h re rq. r \<noteq> Inr (Accepted y h re rq)) \<or>
    (\<exists>x p. 0 < height (header b) \<and> get_block (cstate c) x = None \<and> get_block (cstate c) (prev_hash (header b)) = Some p \<and>
      submit_on_parent_log ord E c' b x p = Some (r, ws)))"
  using assms dataset_frame [of E c "height (header b)"]
  by (auto simp: submit_block_log_def Let_def has_block_iff split: if_splits sum.splits option.splits prod.splits)

lemma submit_log_cases:
  assumes "submit_block_log ord E c b = Some (r, ws, c')"
  obtains (nothing) "ws = []" "cstate c' = cstate c" "\<And>y h re rq. r \<noteq> Inr (Accepted y h re rq)"
  | (stored) x w where "ws = stored_log x b w" "get_block (cstate c) x = None" "get_block (cstate c) (prev_hash (header b)) \<noteq> None"
      "get_chainwork (cstate c) (prev_hash (header b)) \<noteq> None" "cstate c' = cstate c" "\<And>y h re rq. r \<noteq> Inr (Accepted y h re rq)"
  | (moved) x w us ns ov k old re rq where "ws = stored_log x b w @ commit_log ord ov us ns (height (header b)) x"
      "get_block (cstate c) x = None" "get_block (cstate c) (prev_hash (header b)) \<noteq> None"
      "get_chainwork (cstate c) (prev_hash (header b)) \<noteq> None"
      "finite (dom ov)" "tip (cstate c) = Some (k, old)"
      "fork_paths (do_writes (stored_log x b w) (cstate c)) old x = Some (Inr (us, ns))"
      "r = Inr (Accepted x (height (header b)) re rq)" "cstate c' = cstate c"
proof -
  note sh = submit_log_parent [OF assms]
  then consider "ws = []" "\<And>y h re rq. r \<noteq> Inr (Accepted y h re rq)"
    | x p where "get_block (cstate c) (prev_hash (header b)) = Some p" "get_block (cstate c) x = None" "submit_on_parent_log ord E c' b x p = Some (r, ws)"
    by blast
  then show thesis
  proof cases
    case 1
    show thesis by (rule that(1) [OF 1(1) _ 1(2)]) (use sh in simp)
  next
    case 2
    from 2(3) show thesis
      by (cases rule: parent_log_cases) (use that 2(1,2) sh in auto)
  qed
qed

section \<open>Between two writes\<close>

text \<open>A read that every write either leaves alone or sets to one value.\<close>

lemma one_value_all:
  assumes "\<forall>w \<in> set ws. (\<forall>s. read (do_write w s) = read s) \<or> (\<forall>s. read (do_write w s) = v)" "read s = v"
  shows "read (do_writes ws s) = v"
  using assms by (induction ws arbitrary: s) auto

lemma one_value:
  assumes "\<forall>w \<in> set ws. (\<forall>s. read (do_write w s) = read s) \<or> (\<forall>s. read (do_write w s) = v)"
  shows "read (do_writes (take n ws) s) = read s \<or>
    read (do_writes (take n ws) s) = v \<and> read (do_writes ws s) = v"
  using assms
proof (induction ws arbitrary: n s)
  case (Cons w ws)
  show ?case
  proof (cases n)
    case (Suc m)
    have all: "\<forall>w \<in> set ws. (\<forall>s. read (do_write w s) = read s) \<or> (\<forall>s. read (do_write w s) = v)"
      using Cons.prems by simp
    have "read (do_write w s) = read s \<or> read (do_write w s) = v" using Cons.prems by auto
    with Cons.IH [OF all, of m "do_write w s"] one_value_all [OF all, of "do_write w s"] Suc show ?thesis by auto
  qed simp
qed simp

text \<open>A read that no write touches, and a prefix of two logs.\<close>

lemma untouched:
  "\<forall>w \<in> set ws. \<forall>s. read (do_write w s) = read s \<Longrightarrow> read (do_writes (take n ws) s) = read s"
  using one_value [of ws read "read s" n s] by blast

lemma take_writes: "do_writes (take n (ws @ vs)) s = do_writes (take (n - length ws) vs) (do_writes (take n ws) s)"
  by simp

definition one_hash_per_height :: "block_chain \<Rightarrow> bool" where
  "one_hash_per_height bs \<longleftrightarrow> (\<forall>(x, b) \<in> set bs. \<forall>(y, d) \<in> set bs. height (header b) = height (header d) \<longrightarrow> x = y)"

lemma commit_partial:
  fixes s :: chain_state
  assumes "hash_map_order ord" "finite (dom ov)" "one_hash_per_height ns" "n < length (commit_log ord ov us ns h x)"
  defines "ws \<equiv> commit_log ord ov us ns h x" and "t \<equiv> do_writes (take n (commit_log ord ov us ns h x)) s"
  shows "tip t = tip s" "mempool t = mempool s" "get_block t = get_block s" "get_chainwork t = get_chainwork s"
    "get_account t a = get_account s a \<or> get_account t a = get_account (do_writes ws s) a"
    "get_hash_by_height t k = get_hash_by_height s k \<or> get_hash_by_height t k = None \<or>
      get_hash_by_height t k = get_hash_by_height (do_writes ws s) k"
proof -
  let ?as = "map (\<lambda>(a, acc). PutAccount a acc) (ord ov)" and ?ds = "map (\<lambda>(x, b). DropHeight (height (header b))) us"
  let ?ps = "map (\<lambda>(x, b). PutHeight (height (header b)) x) ns"
  have n: "n \<le> length (?as @ ?ds @ ?ps)" using assms(4) by (simp add: commit_log_def)
  have t: "t = do_writes (take n (?as @ ?ds @ ?ps)) s"
    using n by (simp add: t_def commit_log_def)
  have ws: "do_writes ws s = set_tip h x (do_writes (?as @ ?ds @ ?ps) s)" by (simp add: ws_def commit_log_def)
  have same: "read t = read s"
    if "\<And>w s. w \<in> set (?as @ ?ds @ ?ps) \<Longrightarrow> read (do_write w s) = read s" for read :: "chain_state \<Rightarrow> 'v"
    unfolding t by (rule untouched) (use that in blast)
  show "tip t = tip s" "mempool t = mempool s" "get_block t = get_block s" "get_chainwork t = get_chainwork s"
    by (rule same; auto simp: state_simps fun_eq_iff)+
  show "get_account t a = get_account s a \<or> get_account t a = get_account (do_writes ws s) a"
  proof -
    have "distinct (map fst (ord ov))" "map_of (ord ov) = ov" using assms(1,2) by (simp_all add: hash_map_order_def)
    then have entry: "acc = the (ov b)" if "(b, acc) \<in> set (ord ov)" for b acc
      using map_of_is_SomeI [of "ord ov" b acc] that by simp
    have "\<forall>w \<in> set (?as @ ?ds @ ?ps). (\<forall>s. get_account (do_write w s) a = get_account s a) \<or>
        (\<forall>s. get_account (do_write w s) a = the (ov a))"
      using entry by (auto simp: state_simps)
    from one_value [of _ "\<lambda>s. get_account s a", OF this, of n s] show ?thesis
      by (auto simp: t ws state_simps)
  qed
  show "get_hash_by_height t k = get_hash_by_height s k \<or> get_hash_by_height t k = None \<or>
      get_hash_by_height t k = get_hash_by_height (do_writes ws s) k"
  proof -
    have "\<forall>w \<in> set (?as @ ?ds). (\<forall>s. get_hash_by_height (do_write w s) k = get_hash_by_height s k) \<or>
        (\<forall>s. get_hash_by_height (do_write w s) k = None)"
      by (auto simp: state_simps)
    note first = one_value [of _ "\<lambda>s. get_hash_by_height s k", OF this]
    obtain v where "\<forall>w \<in> set ?ps. (\<forall>s. get_hash_by_height (do_write w s) k = get_hash_by_height s k) \<or>
        (\<forall>s. get_hash_by_height (do_write w s) k = v)"
      using assms(3) by (cases "\<exists>(y, d) \<in> set ns. height (header d) = k")
        (fastforce simp: state_simps one_hash_per_height_def)+
    note second = one_value [of _ "\<lambda>s. get_hash_by_height s k", OF this]
    have "t = do_writes (take (n - length (?as @ ?ds)) ?ps) (do_writes (take n (?as @ ?ds)) s)"
      unfolding t using take_writes [of n "?as @ ?ds" ?ps s] by (simp only: append_assoc)
    then show ?thesis
      using second [of "n - length (?as @ ?ds)" "do_writes (take n (?as @ ?ds)) s"] first [of n s]
      by (cases "n \<le> length (?as @ ?ds)") (auto simp: ws state_simps)
  qed
qed

lemma branch_one_hash: "branch s g x (cs @ ns) \<Longrightarrow> one_hash_per_height ns"
proof -
  assume br: "branch s g x (cs @ ns)"
  have "distinct (map (unat \<circ> height \<circ> header \<circ> snd) (cs @ ns))"
    using branch_heights [OF br] by (simp only: map_map [symmetric] comp_assoc) (metis distinct_upt map_map comp_assoc)
  then have "inj_on (unat \<circ> height \<circ> header \<circ> snd) (set ns)" by (simp only: distinct_map map_append distinct_append)
  then show ?thesis by (fastforce simp: one_hash_per_height_def inj_on_def)
qed

lemma stored_log_fields:
  "get_block (do_writes (stored_log x b w) s) = (get_block s)(x \<mapsto> b)"
  "get_chainwork (do_writes (stored_log x b w) s) = (get_chainwork s)(x \<mapsto> w)"
  "tip (do_writes (stored_log x b w) s) = tip s" "mempool (do_writes (stored_log x b w) s) = mempool s"
  "get_account (do_writes (stored_log x b w) s) = get_account s"
  "get_hash_by_height (do_writes (stored_log x b w) s) = get_hash_by_height s"
  by (simp_all add: stored_log_def state_simps fun_eq_iff)

lemma moved_heights:
  assumes ord: "hash_map_order ord" and reach: "reachable E gen c" "hash_sizes E" "supply_capped E gen"
    and log: "submit_block_log ord E c b = Some (r, stored_log x b w @ commit_log ord ov us ns h x, c')" "cstate c' = cstate c"
    and fin: "finite (dom ov)" and tip: "tip (cstate c) = Some (k, old)" and fresh: "get_block (cstate c) x = None"
    and fp: "fork_paths (do_writes (stored_log x b w) (cstate c)) old x = Some (Inr (us, ns))"
  shows "one_hash_per_height ns"
proof -
  let ?g = "genesis_block_hash E gen" and ?s1 = "do_writes (stored_log x b w) (cstate c)"
  let ?s2 = "do_writes (commit_log ord ov us ns h x) ?s1"
  have "submit_block E c b = Some (r, c'\<lparr>cstate := ?s2\<rparr>)"
    using log by (simp add: submit_writes [OF ord])
  from reachable_inv [OF reachable.submitted [OF reach(1) this] reach(2,3)] have inv2: "chain_inv E gen ?s2" by simp
  have blk: "get_block ?s2 = get_block ?s1" by (simp only: commit_writes [OF ord fin] commit_simps) (simp add: fun_eq_iff commit_simps)
  then have "get_block ?s2 x = Some b" by (simp add: stored_log_fields)
  then obtain bs where "branch ?s2 ?g x bs" using inv2 by (auto simp: chain_inv_def block_tree_def)
  then have new: "branch ?s1 ?g x bs" using branch_cong [OF blk] by simp
  obtain obs where "branch (cstate c) ?g old obs" using reachable_inv [OF reach] tip by (auto simp: chain_inv_def canonical_def)
  then have "branch ?s1 ?g old obs" by (rule branch_mono) (use fresh in \<open>auto simp: stored_log_fields\<close>)
  from fork_paths_split [OF this new] fp new show ?thesis by (auto intro: branch_one_hash)
qed

text \<open>
  C13. What is seen between two writes of a submission, by a reader or by the node after a stop. Until the last
  write the tip is the old one, and no pending transaction is touched; an account has its old value or
  the one it gets, a height leads to its old block, to none or to the one it gets, a block is only added;
  and accounts and heights move only when the block and its work are stored.
\<close>

theorem between_two_writes:
  assumes "hash_map_order ord" "reachable E gen c" "hash_sizes E" "supply_capped E gen"
    and "submit_block_log ord E c b = Some (r, ws, c')" "n < length ws"
  shows "tip (do_writes (take n ws) (cstate c)) = tip (cstate c) \<and>
    mempool (do_writes (take n ws) (cstate c)) = mempool (cstate c) \<and>
    get_account (do_writes (take n ws) (cstate c)) a \<in> {get_account (cstate c) a, get_account (do_writes ws (cstate c)) a} \<and>
    get_hash_by_height (do_writes (take n ws) (cstate c)) k \<in>
      {get_hash_by_height (cstate c) k, None, get_hash_by_height (do_writes ws (cstate c)) k} \<and>
    get_block (do_writes (take n ws) (cstate c)) y \<in> {get_block (cstate c) y, get_block (do_writes ws (cstate c)) y} \<and>
    (n < 2 \<longrightarrow> get_account (do_writes (take n ws) (cstate c)) = get_account (cstate c) \<and>
       get_hash_by_height (do_writes (take n ws) (cstate c)) = get_hash_by_height (cstate c)) \<and>
    (2 \<le> n \<longrightarrow> get_block (do_writes (take n ws) (cstate c)) = get_block (do_writes ws (cstate c)) \<and>
       get_chainwork (do_writes (take n ws) (cstate c)) = get_chainwork (do_writes ws (cstate c)))"
proof -
  have few: "take n (stored_log x b w @ vs) = (if n = 0 then [] else [PutBlock x b])" if "n < 2" for x w vs
    using that by (cases n) (auto simp: stored_log_def)
  have two: "length (stored_log x b w) = 2" for x w by (simp add: stored_log_def)
  from assms(5) show ?thesis
  proof (cases rule: submit_log_cases)
    case nothing
    with assms(6) show ?thesis by simp
  next
    case (stored x w)
    with assms(6) have "n < 2" by (simp add: two)
    with few [of x w "[]"] stored show ?thesis by (auto simp: state_simps stored_log_fields fun_eq_iff)
  next
    case (moved x w us ns ov h old re rq)
    let ?s1 = "do_writes (stored_log x b w) (cstate c)"
    have hts: "one_hash_per_height ns"
      by (rule moved_heights [OF assms(1-4) assms(5) [unfolded moved(1)] moved(9,5,6,2,7)])
    have fin: "do_writes ws (cstate c) = do_writes (commit_log ord ov us ns (height (header b)) x) ?s1" by (simp add: moved(1))
    have last: "get_block (do_writes ws (cstate c)) = get_block ?s1" "get_chainwork (do_writes ws (cstate c)) = get_chainwork ?s1"
      unfolding fin by (simp_all add: commit_writes [OF assms(1) moved(5)] commit_simps fun_eq_iff)
    show ?thesis
    proof (cases "n < 2")
      case True
      with few [OF True, of x w] moved(2) last show ?thesis
        by (auto simp: moved(1) state_simps stored_log_fields fun_eq_iff)
    next
      case False
      then have t: "do_writes (take n ws) (cstate c) = do_writes (take (n - 2) (commit_log ord ov us ns (height (header b)) x)) ?s1"
        by (simp add: moved(1) two)
      have lt: "n - 2 < length (commit_log ord ov us ns (height (header b)) x)" using assms(6) False by (simp add: moved(1) two)
      note part = commit_partial [OF assms(1) moved(5) hts lt, of ?s1]
      show ?thesis unfolding t
        using part(1-4) part(5) [of a] part(6) [of k] False last moved(2) by (auto simp: stored_log_fields fin)
    qed
  qed
qed

section \<open>A stop inside a submission\<close>

text \<open>What a node does after it is started again: any of its steps, in any order.\<close>

inductive carries_on :: "'a env_scheme \<Rightarrow> genesis_config \<Rightarrow> chain \<Rightarrow> chain \<Rightarrow> bool"
  for E :: "'a env_scheme" and gen :: genesis_config where
  here: "carries_on E gen c c"
| reopened: "carries_on E gen c c1 \<Longrightarrow> chain_open E gen (cstate c1) = Inr c2 \<Longrightarrow> carries_on E gen c c2"
| submitted: "carries_on E gen c c1 \<Longrightarrow> submit_block E c1 b = Some (r, c2) \<Longrightarrow> carries_on E gen c c2"
| templated: "carries_on E gen c c1 \<Longrightarrow> work_template E now c1 a txs = Some (r, c2) \<Longrightarrow> carries_on E gen c c2"
| pending_added: "carries_on E gen c c1 \<Longrightarrow> carries_on E gen c (c1\<lparr>cstate := mempool_insert E tx (cstate c1)\<rparr>)"
| pending_dropped: "carries_on E gen c c1 \<Longrightarrow> carries_on E gen c (c1\<lparr>cstate := mempool_remove h (cstate c1)\<rparr>)"

definition key_order :: "overlay \<Rightarrow> (address \<times> account) list" where
  "key_order ov = map (\<lambda>a. (a, the (ov a))) (sorted_list_of_set (dom ov))"

lemma key_order: "hash_map_order key_order"
proof -
  have "map_of (map (\<lambda>a. (a, the (ov a))) xs) k = (if k \<in> set xs then Some (the (ov k)) else None)"
    for ov :: overlay and xs k
    by (induction xs) auto
  then have "map_of (key_order ov) = ov" if "finite (dom ov)" for ov
    using that by (auto simp: key_order_def fun_eq_iff dom_def)
  then show ?thesis by (simp add: hash_map_order_def key_order_def comp_def)
qed

lemma submit_frame:
  assumes "submit_block E c b = Some (r, c')"
  shows "cstate c' = cstate c \<or> (\<exists>x w. get_block (cstate c) x = None \<and> get_block (cstate c) (prev_hash (header b)) \<noteq> None \<and>
    get_chainwork (cstate c) (prev_hash (header b)) \<noteq> None \<and>
    get_block (cstate c') = (get_block (cstate c))(x \<mapsto> b) \<and> get_chainwork (cstate c') = (get_chainwork (cstate c))(x \<mapsto> w) \<and>
    (tip (cstate c') = tip (cstate c) \<or> tip (cstate c') = Some (height (header b), x)))"
proof -
  obtain ws c1 where log: "submit_block_log key_order E c b = Some (r, ws, c1)" and c': "cstate c' = do_writes ws (cstate c1)"
    using assms by (auto simp: submit_writes [OF key_order])
  from log show ?thesis
  proof (cases rule: submit_log_cases)
    case nothing
    with c' show ?thesis by simp
  next
    case (stored x w)
    then show ?thesis by (intro disjI2 exI [of _ x] exI [of _ w]) (simp add: c' stored_log_fields)
  next
    case (moved x w us ns ov k old re rq)
    have "cstate c' = do_writes (commit_log key_order ov us ns (height (header b)) x) (do_writes (stored_log x b w) (cstate c))"
      by (simp add: c' moved(1,9))
    then show ?thesis
      by (intro disjI2 exI [of _ x] exI [of _ w])
        (simp add: moved(2-4) commit_writes [OF key_order moved(5)] commit_simps fun_eq_iff stored_log_fields)
  qed
qed

lemma template_store: "work_template E now c a txs = Some (r, c') \<Longrightarrow> cstate c' = cstate c"
  by (auto simp: work_template_def dest: dataset_frame split: sum.splits option.splits prod.splits)

lemma work_only_stored:
  assumes "reachable E gen c" "hash_sizes E" "supply_capped E gen" "get_block (cstate c) x = None"
  shows "get_chainwork (cstate c) x = None"
  using assms(1,4)
proof (induction rule: reachable.induct)
  case (opened c)
  obtain r s where rs: "init_genesis E gen empty_state = (r, s)" by (cases "init_genesis E gen empty_state")
  with opened show ?case
    by (auto simp: chain_open_def init_genesis_def Let_def empty_state_fields state_simps credit_all_fields
        split: sum.splits unit.splits if_splits)
next
  case (reopened c c')
  then have "c' = \<lparr>cstate = cstate c, cgenesis = gen, dataset_cache = None\<rparr>"
    using chain_open_again [of "cstate c" E gen] chain_inv_tip [OF reachable_inv [OF _ assms(2,3)]] by simp
  with reopened show ?case by simp
next
  case (submitted c b r c')
  from submit_frame [OF submitted.hyps(2)] submitted show ?case by (auto split: if_splits)
next
  case (templated c now a txs r c')
  then show ?case by (simp add: template_store)
qed (simp_all add: state_simps)

text \<open>A block without chain work stays a dead end.\<close>

definition dead_end :: "hash256 \<Rightarrow> block \<Rightarrow> chain_state \<Rightarrow> bool" where
  "dead_end x b s \<longleftrightarrow> get_block s x = Some b \<and> get_chainwork s x = None \<and> (\<exists>k y. tip s = Some (k, y) \<and> y \<noteq> x) \<and>
     (\<forall>y d. get_block s y = Some d \<and> 0 < height (header d) \<longrightarrow> prev_hash (header d) \<noteq> x)"

lemma dead_end_submit:
  assumes "submit_block E c d = Some (r, c')" "dead_end x b (cstate c)"
  shows "dead_end x b (cstate c')"
  using submit_frame [OF assms(1)]
proof (elim disjE exE conjE)
  fix y w
  assume y: "get_block (cstate c) y = None" "get_chainwork (cstate c) (prev_hash (header d)) \<noteq> None"
    "get_block (cstate c') = (get_block (cstate c))(y \<mapsto> d)" "get_chainwork (cstate c') = (get_chainwork (cstate c))(y \<mapsto> w)"
    and t: "tip (cstate c') = tip (cstate c)"
  have "y \<noteq> x" "prev_hash (header d) \<noteq> x" using y(1,2) assms(2) by (auto simp: dead_end_def)
  with y t assms(2) show ?thesis by (auto simp: dead_end_def)
next
  fix y w
  assume y: "get_block (cstate c) y = None" "get_chainwork (cstate c) (prev_hash (header d)) \<noteq> None"
    "get_block (cstate c') = (get_block (cstate c))(y \<mapsto> d)" "get_chainwork (cstate c') = (get_chainwork (cstate c))(y \<mapsto> w)"
    and t: "tip (cstate c') = Some (height (header d), y)"
  have "y \<noteq> x" "prev_hash (header d) \<noteq> x" using y(1,2) assms(2) by (auto simp: dead_end_def)
  with y t assms(2) show ?thesis by (auto simp: dead_end_def)
qed (use assms(2) in simp)

lemma dead_end_mempool: "dead_end x b (mempool_insert E tx s) = dead_end x b s" "dead_end x b (mempool_remove h s) = dead_end x b s"
  by (simp_all add: dead_end_def state_simps)

lemma dead_end_stays:
  assumes "carries_on E gen c c'" "dead_end x b (cstate c)"
  shows "dead_end x b (cstate c')"
  using assms
proof (induction rule: carries_on.induct)
  case (reopened c c1 c2)
  then have "tip (cstate c1) \<noteq> None" by (auto simp: dead_end_def)
  from chain_open_again [OF this, of E gen] reopened show ?case by simp
next
  case (submitted c c1 b' r c2)
  then show ?case using dead_end_submit by blast
next
  case (templated c c1 now a txs r c2)
  then show ?case using template_store by metis
qed (simp_all add: dead_end_mempool)

text \<open>
  C17. A stop between the first two writes of a submission shuts the node off the block for ever. The block is
  stored and its work is not. The node opens again on the old tip, and whatever is submitted after that, the
  block again included, no block on top of it is ever stored and it never becomes the tip.
\<close>

theorem stop_before_work:
  assumes "hash_map_order ord" "reachable E gen c" "hash_sizes E" "supply_capped E gen"
    and "submit_block_log ord E c b = Some (r, ws, c')" "ws \<noteq> []"
    and "carries_on E gen \<lparr>cstate = do_writes (take 1 ws) (cstate c), cgenesis = gen, dataset_cache = None\<rparr> c2"
  shows "\<exists>x. get_block (cstate c) x = None \<and> get_block (cstate c2) x = Some b \<and> get_chainwork (cstate c2) x = None \<and>
    (\<exists>k y. tip (cstate c2) = Some (k, y) \<and> y \<noteq> x) \<and>
    (\<forall>y d. get_block (cstate c2) y = Some d \<and> 0 < height (header d) \<longrightarrow> prev_hash (header d) \<noteq> x)"
proof -
  let ?g = "genesis_block_hash E gen" and ?s = "cstate c"
  note inv = reachable_inv [OF assms(2-4)]
  have dead: "dead_end x b (do_writes (take 1 (stored_log x b w @ vs)) ?s)"
    if x: "get_block ?s x = None" and p: "get_block ?s (prev_hash (header b)) \<noteq> None" for x w vs
  proof -
    obtain k y where tip: "tip ?s = Some (k, y)" "get_block ?s y \<noteq> None"
      using inv branch_stored by (fastforce simp: chain_inv_def canonical_def)
    have par: "prev_hash (header d) \<noteq> x" if d: "get_block ?s z = Some d" "0 < height (header d)" for z d
    proof -
      obtain bs where "branch ?s ?g z bs" using inv d(1) by (auto simp: chain_inv_def block_tree_def)
      then show ?thesis
      proof (cases rule: branch.cases)
        case (grow d' bs')
        with d(1) branch_stored [OF grow(2)] x show ?thesis by auto
      qed (use d in auto)
    qed
    have "take 1 (stored_log x b w @ vs) = [PutBlock x b]" by (simp add: stored_log_def)
    moreover have "prev_hash (header b) \<noteq> x" "y \<noteq> x" "get_chainwork ?s x = None"
      using x p tip(2) work_only_stored [OF assms(2-4)] by auto
    ultimately show ?thesis using tip(1) par by (auto simp del: take_append simp: dead_end_def state_simps)
  qed
  from assms(5) obtain x where "dead_end x b (do_writes (take 1 ws) ?s)" "get_block ?s x = None"
  proof (cases rule: submit_log_cases)
    case (stored x w)
    with dead [of x w "[]"] that show ?thesis by simp
  next
    case (moved x w us ns ov k old re rq)
    with dead [OF moved(2,3), of w "commit_log ord ov us ns (height (header b)) x"] that show ?thesis by simp
  qed (use assms(6) in simp)
  moreover then have "dead_end x b (cstate c2)" by (intro dead_end_stays [OF assms(7)]) simp
  ultimately show ?thesis unfolding dead_end_def by blast
qed

lemma log_moved:
  assumes "submit_block_log ord E c b = Some (Inr (Accepted x h re rq), ws, c')"
  shows "do_writes ws s = set_tip h x (do_writes (butlast ws) s) \<and> cstate c' = cstate c \<and> tip (do_writes (butlast ws) s) = tip s"
  using assms
proof (cases rule: submit_log_cases)
  case (moved y w us ns ov k old re' rq')
  define front where "front = stored_log x b w @ map (\<lambda>(a, acc). PutAccount a acc) (ord ov) @
      map (\<lambda>(x, b). DropHeight (height (header b))) us @ map (\<lambda>(x, b). PutHeight (height (header b)) x) ns"
  have ws: "ws = front @ [PutTip h x]" using moved(1,8) by (simp add: front_def commit_log_def)
  have "\<forall>w \<in> set front. \<forall>s. tip (do_write w s) = tip s" by (auto simp: front_def stored_log_def state_simps)
  from untouched [OF this, of "length front" s] ws moved(9) show ?thesis by simp
qed blast+

text \<open>
  C18. A stop before the last write of a submission that moves the tip. The node opens again on the old tip, but
  every account is that of the new branch, and so is the height index: the tip is behind a branch with more
  work that the node holds, and the accounts are not those of the branch that the tip names.
\<close>

theorem stop_before_tip:
  assumes "hash_map_order ord" "reachable E gen c" "hash_sizes E" "supply_capped E gen"
    and "submit_block_log ord E c b = Some (Inr (Accepted x h re rq), ws, c')" "tx_room E gen (do_writes ws (cstate c))"
    and "canonical E gen (cstate c) obs"
  shows "\<exists>bs. branch (do_writes (butlast ws) (cstate c)) (genesis_block_hash E gen) x bs \<and>
    branch_work gen obs < branch_work gen bs \<and>
    chain_open E gen (do_writes (butlast ws) (cstate c)) =
      Inr \<lparr>cstate = do_writes (butlast ws) (cstate c), cgenesis = gen, dataset_cache = None\<rparr> \<and>
    tip (do_writes (butlast ws) (cstate c)) = tip (cstate c) \<and>
    spec_blocks E gen (map snd bs) (genesis_ledger E gen) = Some (read_ledger (get_account (do_writes (butlast ws) (cstate c)))) \<and>
    (\<forall>k. get_hash_by_height (do_writes (butlast ws) (cstate c)) k =
       (if k = 0 then Some (genesis_block_hash E gen) else if unat k \<le> length bs then Some (fst (bs ! (unat k - 1))) else None))"
proof -
  let ?s = "do_writes (butlast ws) (cstate c)" and ?s' = "do_writes ws (cstate c)" and ?g = "genesis_block_hash E gen"
  note mv = log_moved [OF assms(5), of "cstate c"]
  have s': "?s' = set_tip h x ?s" and c': "cstate c' = cstate c" and tip: "tip ?s = tip (cstate c)" using mv by blast+
  have sub: "submit_block E c b = Some (Inr (Accepted x h re rq), c'\<lparr>cstate := ?s'\<rparr>)"
    using assms(5) c' by (simp add: submit_writes [OF assms(1)])
  have inv: "chain_inv E gen ?s'" using reachable_inv [OF reachable.submitted [OF assms(2) sub] assms(3,4)] by simp
  have "submit_effect E gen (cstate c) b (Inr (Accepted x h re rq)) ?s'" using reachable_submit [OF assms(2-4), of b] sub by simp
  then obtain bs where bs: "canonical E gen ?s' bs" "branch_work gen obs < branch_work gen bs"
    by (rule submit_effect_Accepted) (use canonical_unique [OF assms(7)] in blast)
  have "get_block ?s = get_block ?s'" by (simp add: s' state_simps fun_eq_iff)
  note br = branch_cong [OF this]
  have "get_account ?s' = get_account ?s" "get_hash_by_height ?s' = get_hash_by_height ?s" "tip ?s' = Some (h, x)"
    by (simp_all add: s' state_simps fun_eq_iff)
  moreover note tip
  moreover have "ledger_replays E gen ?s' bs"
    using inv assms(6) canonical_unique [OF bs(1)] by (auto simp: chain_inv_def)
  moreover have "tip (cstate c) \<noteq> None" using chain_inv_tip [OF reachable_inv [OF assms(2-4)]] .
  ultimately show ?thesis
    using bs by (intro exI [of _ bs] conjI)
      (simp_all add: br canonical_def ledger_replays_def chain_open_again)
qed

section \<open>A stop inside genesis\<close>

lemma credit_log_take: "do_writes (take n (credit_log ps s)) s = credit_all (take n ps) s"
proof (induction ps s arbitrary: n rule: credit_all.induct)
  case (2 a am ps s)
  then show ?case by (cases n) (simp_all add: credit_def Let_def)
qed simp

lemma credit_log_length [simp]: "length (credit_log ps s) = length ps"
  by (induction ps s rule: credit_all.induct) simp_all

lemma premine_take: "sum_list (map (unat \<circ> snd) (take n ps)) \<le> sum_list (map (unat \<circ> snd) (ps :: (address \<times> u64) list))"
  using sum_list_append [of "map (unat \<circ> snd) (take n ps)" "map (unat \<circ> snd) (drop n ps)"]
  by (simp only: map_append [symmetric] append_take_drop_id)

text \<open>
  Opening a new store is not repeatable. A node that is stopped before the last write of genesis has no tip, so
  when it is started again it runs genesis again, and the premine entries that were credited before the stop
  are credited a second time.
\<close>

theorem stop_in_genesis:
  assumes "premine_parsed E gen = Inr ps" "2 * premine_total E gen < 2 ^ 64"
    and "n < length (snd (init_genesis_log E gen empty_state))"
  shows "\<exists>c. chain_open E gen (do_writes (take n (snd (init_genesis_log E gen empty_state))) empty_state) = Inr c \<and>
    tip (cstate c) = Some (0, genesis_block_hash E gen) \<and>
    total_supply (read_ledger (get_account (cstate c))) = premine_total E gen + sum_list (map (unat \<circ> snd) (take n ps))"
proof -
  let ?x = "genesis_block_hash E gen" and ?ws = "snd (init_genesis_log E gen empty_state)"
  define front where "front = [PutWork ?x (block_work (initial_difficulty gen)), PutBlock ?x (genesis_block gen), PutHeight 0 ?x]"
  define s where "s = do_writes (take n ?ws) empty_state"
  have ws: "?ws = (credit_log ps empty_state @ front) @ [PutTip 0 ?x]"
    by (simp add: init_genesis_log_def Let_def assms(1) front_def)
  then have "take n ?ws = take n (credit_log ps empty_state @ front)" using assms(3) by simp
  then have s: "s = do_writes (take (n - length ps) front) (credit_all (take n ps) empty_state)"
    unfolding s_def by (simp only: take_writes credit_log_take credit_log_length)
  have acc: "get_account s = get_account (credit_all (take n ps) empty_state)"
    unfolding s by (rule untouched) (simp add: front_def state_simps fun_eq_iff)
  have "tip s = tip (credit_all (take n ps) empty_state)"
    unfolding s by (rule untouched) (simp add: front_def state_simps)
  then have tip: "tip s = None" by (simp add: credit_all_fields empty_state_fields)
  note tot = premine_take [of n ps]
  have total: "premine_total E gen = sum_list (map (unat \<circ> snd) ps)" by (simp add: premine_total_def premine_list_def assms(1))
  have L0: "read_ledger (get_account empty_state) = (\<lambda>a. (0, 0))"
    by (simp add: read_ledger_def fun_eq_iff empty_state_fields default_account_def)
  have L1: "read_ledger (get_account s) = spec_premine (take n ps) (\<lambda>a. (0, 0))"
    using credit_all_refines [of empty_state "take n ps"] tot assms(2) by (simp add: acc L0 total total_supply_def)
  note sup = spec_premine_supply [of "\<lambda>a. (0, 0)" "take n ps"]
  have L2: "read_ledger (get_account (credit_all ps s)) = spec_premine ps (read_ledger (get_account s))"
    using sup tot assms(2) by (intro credit_all_refines) (simp_all add: L1 total total_supply_def)
  have "chain_open E gen s = Inr \<lparr>cstate = set_tip 0 ?x (set_canonical_height 0 ?x (store_block ?x (genesis_block gen)
      (set_chainwork ?x (block_work (initial_difficulty gen)) (credit_all ps s)))), cgenesis = gen, dataset_cache = None\<rparr>"
    by (simp add: chain_open_def tip init_genesis_def Let_def assms(1) split: unit.splits)
  then obtain c where c: "chain_open E gen s = Inr c" "tip (cstate c) = Some (0, ?x)" "get_account (cstate c) = get_account (credit_all ps s)"
    by (simp add: state_simps fun_eq_iff)
  have "total_supply (read_ledger (get_account (cstate c))) = premine_total E gen + sum_list (map (unat \<circ> snd) (take n ps))"
    using spec_premine_supply [of "read_ledger (get_account s)" ps] sup by (simp add: c(3) L1 L2 total total_supply_def)
  with c show ?thesis by (auto simp: s_def)
qed

section \<open>The example, stopped\<close>

lemma reconsider_forward:
  assumes "branch s g old obs" "branch s g x (obs @ ns)" "apply_blocks E gen s (map snd ns) Map.empty = Inr ov"
  shows "reconsider_tip E gen s old x h = Some (Inr [], set_tip h x (index ns (commit_overlay ov s)))"
proof -
  obtain cs us ns' where fp: "fork_paths s old x = Some (Inr (rev us, ns'))" "obs = cs @ us" "obs @ ns = cs @ ns'"
    "us \<noteq> [] \<and> ns' \<noteq> [] \<longrightarrow> hd us \<noteq> hd ns'"
    using fork_paths_split [OF assms(1,2)] by blast
  then have ns': "ns' = us @ ns" by simp
  with fp(4) have "us = []" by (cases us) auto
  with ns' fp(1) assms(3) show ?thesis by (simp add: reconsider_tip_def requeued_def unindex_def)
qed

text \<open>
  Coins from a stop. In the example the block of the second miner is the first on genesis and the node stops
  before its last write. Started again it takes the next block, by the same miner, and has credited the
  reward of the first one twice: the account holds 150 where the branch that the tip names gives 100.
\<close>

theorem stop_creates_coins:
  "\<exists>ws c1 c2. submit_block_log key_order sample_env sample_chain (block_at_b []) =
       Some (Inr (Accepted (sample_id 2 0) 1 False []), ws, c1) \<and>
     submit_block sample_env \<lparr>cstate = do_writes (butlast ws) (cstate sample_chain), cgenesis = sample_gen, dataset_cache = None\<rparr>
       block_c = Some (Inr (Accepted (sample_id 2 1) 2 True []), c2) \<and>
     tip (cstate c2) = Some (2, sample_id 2 1) \<and>
     branch (cstate c2) (genesis_block_hash sample_env sample_gen) (sample_id 2 1) [(sample_id 2 0, block_at_b []), entry_c] \<and>
     balance (get_account (cstate c2) (sample_addr 2)) = 150 \<and>
     (\<exists>L. spec_blocks sample_env sample_gen [block_at_b [], block_c] (genesis_ledger sample_env sample_gen) = Some L \<and>
        fst (L (sample_addr 2)) = 100)"
proof -
  note hyps = sample_env_laws(1) sample_capped
  let ?b = "block_at_b []" and ?x = "sample_id 2 0" and ?y = "sample_id 2 1"
  obtain ds where ds: "generate sample_env 0 (epoch_seed sample_env None) = Some ds" "wf_dataset ds"
    using sample_dataset by blast
  obtain c' where c': "submit_block sample_env sample_chain ?b = Some (Inr (Accepted ?x 1 False []), c')"
    "reachable sample_env sample_gen c'" "canonical sample_env sample_gen (cstate c') [(?x, ?b)]"
    and st: "stores sample_env sample_gen (cstate sample_chain) ?x ?b [(?x, ?b)] (cstate c')"
    using step_first [OF sample_reachable sample_canonical sample_room refl, of "[]" 2] by (auto simp: spec_block_def)
  obtain ws c1 where log: "submit_block_log key_order sample_env sample_chain ?b = Some (Inr (Accepted ?x 1 False []), ws, c1)"
    and s': "cstate c' = do_writes ws (cstate c1)"
    using c'(1) by (auto simp: submit_writes [OF key_order])
  let ?s = "do_writes (butlast ws) (cstate sample_chain)"
  note mv = log_moved [OF log, of "cstate sample_chain"]
  have tip: "tip ?s = Some (0, sample_root)" and set: "cstate c' = set_tip 1 ?x ?s"
    using mv s' by (simp_all add: sample_fields)
  have same: "get_block ?s = get_block (cstate c')" "get_chainwork ?s = get_chainwork (cstate c')"
    "get_account ?s = get_account (cstate c')"
    by (simp_all add: set state_simps fun_eq_iff)
  have blk: "get_block ?s = (get_block (cstate sample_chain))(?x \<mapsto> ?b)" using st by (simp add: same stores_def)
  note inv = reachable_inv [OF c'(2) hyps]
  have "tx_room sample_env sample_gen (cstate c')"
    by (rule tx_room_store [OF sample_room st reachable_inv [OF sample_hyps]]) simp
  then have "ledger_replays sample_env sample_gen (cstate c') [(?x, ?b)]"
    using inv canonical_unique [OF c'(3)] by (auto simp: chain_inv_def)
  then have "read_ledger (get_account (cstate c')) = (\<lambda>a. (0, 0))(sample_addr 7 := (1000, 0), sample_addr 2 := (50, 0))"
    by (simp add: ledger_replays_def spec_block_def sample_genesis_ledger credit_ledger_def reward_early)
  from fun_cong [OF this, of "sample_addr 2"] have acc: "balance (get_account ?s (sample_addr 2)) = 50"
    by (simp add: same read_ledger_def word_unat_eq_iff)
  have root: "get_block ?s sample_root = Some (genesis_block sample_gen)" and fresh: "get_block ?s ?y = None"
    using sample_root_fresh sample_root_fresh [symmetric] by (simp_all add: blk sample_fields)
  have br0: "branch (cstate c') sample_root sample_root []"
    by (rule branch.genesis [where b = "genesis_block sample_gen"]) (simp_all add: root [unfolded same])
  have "map_option unat (get_chainwork ?s sample_root) = Some (branch_work sample_gen [])"
    using inv br0 unfolding same chain_inv_def work_sums_def sample_root_def by blast
  then have w0: "get_chainwork ?s sample_root = Some 1" by (auto simp: word_unat_eq_iff) (simp add: sample_gen_def)
  have w1: "get_chainwork ?s ?x = Some 2"
    using st by (auto simp: same stores_def sample_work word_unat_eq_iff)
  let ?c0 = "\<lparr>cstate = ?s, cgenesis = sample_gen, dataset_cache = None\<rparr>"
  let ?c1 = "\<lparr>cstate = ?s, cgenesis = sample_gen, dataset_cache = Some (0, ds)\<rparr>"
  let ?s2 = "set_chainwork ?y 3 (store_block ?y block_c ?s)"
  have blk2: "get_block ?s2 = (get_block ?s)(?y \<mapsto> block_c)" by (simp add: state_simps fun_eq_iff)
  have br1: "branch ?s2 sample_root sample_root []"
    by (rule branch.genesis [where b = "genesis_block sample_gen"]) (use root sample_root_fresh in \<open>simp_all add: blk2\<close>)
  then have "branch ?s2 sample_root ?x ([] @ [(?x, ?b)])"
    by (intro branch.grow) (simp_all add: blk2 blk)
  then have "branch ?s2 sample_root ?y (([] @ [(?x, ?b)]) @ [(?y, block_c)])"
    by (intro branch.grow) (simp_all add: blk2, simp_all add: block_c_def)
  then have br: "branch ?s2 sample_root ?y ([] @ [(?x, ?b), entry_c])" by (simp add: entry_c_def)
  obtain ov where ov: "apply_blocks sample_env sample_gen ?s2 (map snd [(?x, ?b), entry_c]) Map.empty = Inr ov"
    "balance (get_acc ?s2 ov (sample_addr 2)) = 150"
    by (simp add: entry_c_def block_c_def apply_block_def put_acc_def get_acc_def state_simps reward_early acc sat_add_def)
  have rec: "reconsider_tip sample_env sample_gen ?s2 sample_root ?y 2 =
      Some (Inr [], set_tip 2 ?y (index [(?x, ?b), entry_c] (commit_overlay ov ?s2)))"
    by (rule reconsider_forward [OF br1 br ov(1)])
  let ?c2 = "?c1\<lparr>cstate := set_tip 2 ?y (index [(?x, ?b), entry_c] (commit_overlay ov ?s2))\<rparr>"
  have "header_id sample_env (header block_c) ds = Some ?y"
    unfolding block_c_def by (rule sample_block_id [OF wf_sample_id ds(2)])
  moreover have "dataset_for_height sample_env ?c0 2 = Some (Inr ds, ?c1)"
    using ds(1) epoch_of_zero [of 2] by (simp add: dataset_for_height_def Let_def EPOCH_LENGTH_def)
  ultimately have "submit_block sample_env ?c0 block_c = Some (Inr (Accepted ?y 2 True []), ?c2)"
    using fresh rec sample_root_fresh by (simp add: submit_block_def submit_on_parent_def Let_def has_block_iff block_c_def blk meets_target_one
      early_difficulty w0 w1 tip state_simps block_work_def)
  moreover have "get_account (cstate ?c2) = get_acc ?s2 ov" "tip (cstate ?c2) = Some (2, ?y)" "get_block (cstate ?c2) = get_block ?s2"
    by (simp_all add: commit_simps fun_eq_iff)
  moreover have "branch (cstate ?c2) sample_root ?y [(?x, ?b), entry_c]"
    using br branch_cong [OF calculation(4)] by simp
  moreover note replay_bc [unfolded block_b_def]
  ultimately show ?thesis using log ov(2)
    by (intro exI [of _ ws] exI [of _ c1] exI [of _ ?c2]) (simp add: sample_root_def [symmetric])
qed

text \<open>
  The theorems of this theory applied to the same submission: the first block on genesis.
\<close>

lemma sample_log:
  "\<exists>ws c1 x y. submit_block_log key_order sample_env sample_chain (block_at_b []) =
       Some (Inr (Accepted (sample_id 2 0) 1 False []), x # y # ws, c1) \<and> ws \<noteq> [] \<and>
     tx_room sample_env sample_gen (do_writes (x # y # ws) (cstate sample_chain))"
proof -
  obtain c' where c': "submit_block sample_env sample_chain (block_at_b []) = Some (Inr (Accepted (sample_id 2 0) 1 False []), c')"
    and st: "stores sample_env sample_gen (cstate sample_chain) (sample_id 2 0) (block_at_b []) [(sample_id 2 0, block_at_b [])] (cstate c')"
    using step_first [OF sample_reachable sample_canonical sample_room refl, of "[]" 2] by (auto simp: spec_block_def)
  have room: "tx_room sample_env sample_gen (cstate c')"
    by (rule tx_room_store [OF sample_room st reachable_inv [OF sample_hyps]]) simp
  obtain ws c1 where log: "submit_block_log key_order sample_env sample_chain (block_at_b []) =
      Some (Inr (Accepted (sample_id 2 0) 1 False []), ws, c1)" and s': "cstate c' = do_writes ws (cstate c1)"
    using c' by (auto simp: submit_writes [OF key_order])
  from log have "\<exists>x y vs. ws = x # y # vs \<and> vs \<noteq> []"
  proof (cases rule: submit_log_cases)
    case (moved x w us ns ov k old re rq)
    then show ?thesis by (simp add: stored_log_def commit_log_def)
  qed blast+
  with log room s' log_moved [OF log] show ?thesis by auto
qed

theorem between_two_writes_witness:
  "\<exists>r ws c1. submit_block_log key_order sample_env sample_chain (block_at_b []) = Some (r, ws, c1) \<and>
     get_block (do_writes (take 2 ws) (cstate sample_chain)) = get_block (do_writes ws (cstate sample_chain)) \<and>
     tip (do_writes (take 2 ws) (cstate sample_chain)) = Some (0, sample_root)"
proof -
  obtain ws c1 x y where log: "submit_block_log key_order sample_env sample_chain (block_at_b []) =
      Some (Inr (Accepted (sample_id 2 0) 1 False []), x # y # ws, c1)" "ws \<noteq> []"
    using sample_log by blast
  from between_two_writes [OF key_order sample_hyps log(1), of 2] log show ?thesis
    by (intro exI [of _ "Inr (Accepted (sample_id 2 0) 1 False [])"] exI [of _ "x # y # ws"] exI [of _ c1])
      (simp add: sample_fields)
qed

theorem stop_before_work_witness:
  "\<exists>r ws c1 x. submit_block_log key_order sample_env sample_chain (block_at_b []) = Some (r, ws, c1) \<and>
     get_block (do_writes (take 1 ws) (cstate sample_chain)) x = Some (block_at_b []) \<and>
     get_chainwork (do_writes (take 1 ws) (cstate sample_chain)) x = None"
proof -
  obtain ws c1 x y where log: "submit_block_log key_order sample_env sample_chain (block_at_b []) =
      Some (Inr (Accepted (sample_id 2 0) 1 False []), x # y # ws, c1)"
    using sample_log by blast
  from stop_before_work [OF key_order sample_hyps log _ carries_on.here] log show ?thesis by fastforce
qed

theorem stop_before_tip_witness:
  "\<exists>r ws c1 bs. submit_block_log key_order sample_env sample_chain (block_at_b []) = Some (r, ws, c1) \<and>
     tip (do_writes (butlast ws) (cstate sample_chain)) = Some (0, sample_root) \<and>
     spec_blocks sample_env sample_gen (map snd bs) (genesis_ledger sample_env sample_gen) =
       Some (read_ledger (get_account (do_writes (butlast ws) (cstate sample_chain)))) \<and>
     branch_work sample_gen [] < branch_work sample_gen bs"
proof -
  obtain ws c1 x y where log: "submit_block_log key_order sample_env sample_chain (block_at_b []) =
      Some (Inr (Accepted (sample_id 2 0) 1 False []), x # y # ws, c1)"
    and room: "tx_room sample_env sample_gen (do_writes (x # y # ws) (cstate sample_chain))"
    using sample_log by blast
  from stop_before_tip [OF key_order sample_hyps log room sample_canonical] log sample_fields(2) show ?thesis by metis
qed

theorem stop_in_genesis_witness:
  "\<exists>c. chain_open sample_env sample_gen (do_writes (take 1 (snd (init_genesis_log sample_env sample_gen empty_state))) empty_state) = Inr c \<and>
     premine_total sample_env sample_gen = 1000 \<and> total_supply (read_ledger (get_account (cstate c))) = 2000"
proof -
  have "premine_total sample_env sample_gen = 1000" by (simp add: premine_total_def premine_list_def sample_premine)
  with stop_in_genesis [OF sample_premine, of 1] show ?thesis
    by (auto simp: init_genesis_log_def Let_def sample_premine)
qed

end
