(* ===== verification/Session.thy ===== *)
theory Session
  imports Network
begin

text \<open>
  A whole session of two nodes over one connection: the handshake of \<open>noise.rs\<close> run on both sides,
  then application messages in each direction. With a concrete stand-in for \<open>snow\<close> that has the
  documented behaviour.
\<close>

section \<open>The two sides of the handshake\<close>

lemma finish_handshake_ok:
  "get_remote_static N h = Some k \<Longrightarrow> length k = 32 \<Longrightarrow> into_transport_mode N h = Some t \<Longrightarrow>
     finish_handshake N h s = Inr (t, k, s)"
  by (simp add: finish_handshake_def remote_static_peer_id_def)

text \<open>
  Each side reads what the other wrote: there are two byte strings, the output of the initiator and
  that of the responder, on which both sides end with the other's public key and paired states, having
  read nothing of what comes after.
\<close>

lemma handshake_meets:
  assumes "snow_xx N paired pub" "length a = 32" "length b = 32"
  shows "\<exists>ti tr oi or. (\<forall>x. handshake_initiator N a (or @ x) = (Inr (ti, pub b, x), oi)) \<and>
    (\<forall>y. handshake_responder N b (oi @ y) = (Inr (tr, pub a, y), or)) \<and>
    paired ti tr (2 ^ 64 - 1) \<and> paired tr ti (2 ^ 64 - 1)"
proof -
  have pub: "length (pub a) = 32" "length (pub b) = 32"
    using assms(1) [unfolded snow_xx_def, rule_format, of a b] assms(1) [unfolded snow_xx_def, rule_format, of b a]
      assms(2,3) by blast+
  from assms(1) [unfolded snow_xx_def, rule_format, of a b] assms(2,3) obtain i0 i1 i2 i3 r0 r1 r2 r3 m1 m2 m3 ti tr where
    h: "build_initiator N a = Some i0" "build_responder N b = Some r0"
    "hs_write_message N i0 [] = Some (m1, i1)" "hs_read_message N r0 m1 = Some ([], r1)"
    "hs_write_message N r1 [] = Some (m2, r2)" "hs_read_message N i1 m2 = Some ([], i2)"
    "hs_write_message N i2 [] = Some (m3, i3)" "hs_read_message N r2 m3 = Some ([], r3)"
    "length m1 < 2 ^ 16" "length m2 < 2 ^ 16" "length m3 < 2 ^ 16"
    "get_remote_static N i3 = Some (pub b)" "get_remote_static N r3 = Some (pub a)"
    "into_transport_mode N i3 = Some ti" "into_transport_mode N r3 = Some tr"
    "paired ti tr (2 ^ 64 - 1)" "paired tr ti (2 ^ 64 - 1)"
    by blast
  have "handshake_initiator N a (write_frame m2 @ x) = (Inr (ti, pub b, x), write_frame m1 @ write_frame m3)" for x
    using h(1,3,6,7) frames.unframe_frame [OF h(10), of x] finish_handshake_ok [OF h(12) pub(2) h(14), of x]
    by (simp add: handshake_initiator_def)
  moreover have "handshake_responder N b ((write_frame m1 @ write_frame m3) @ y) =
      (Inr (tr, pub a, y), write_frame m2)" for y
    using h(2,4,5,8) frames.unframe_frame [OF h(9), of "write_frame m3 @ y"] frames.unframe_frame [OF h(11), of y]
      finish_handshake_ok [OF h(13) pub(1) h(15), of y]
    by (simp add: handshake_responder_def)
  ultimately show ?thesis using h(16,17) by blast
qed

section \<open>A stand-in for \<open>snow\<close>\<close>

text \<open>
  Handshake messages carry the public key (here the private key itself), a ciphertext is the plaintext
  with a tag of 16 bytes that depends on the message counter, and each direction has its own counter.
\<close>

definition sample_snow :: "(bytes \<times> bytes option, nat \<times> nat) snow" where
  "sample_snow =
     \<lparr>build_initiator = (\<lambda>k. Some (k, None)), build_responder = (\<lambda>k. Some (k, None)),
      hs_write_message = (\<lambda>(k, r) p. Some (k @ p, (k, r))),
      hs_read_message = (\<lambda>(k, r) m. Some (drop 32 m, (k, Some (take 32 m)))),
      get_remote_static = snd, into_transport_mode = (\<lambda>h. Some (0, 0)),
      write_transport = (\<lambda>(i, j) p. if length p \<le> 65519 then Some (p @ replicate 16 (of_nat i), (i + 1, j)) else None),
      read_transport = (\<lambda>(i, j) c. if drop (length c - 16) c = replicate 16 (of_nat j)
        then Some (take (length c - 16) c, (i, j + 1)) else None)\<rparr>"

definition sample_paired :: "nat \<times> nat \<Rightarrow> nat \<times> nat \<Rightarrow> nat \<Rightarrow> bool" where
  "sample_paired s r k \<longleftrightarrow> fst s = snd r"

lemma sample_snow_laws: "snow_paired sample_snow sample_paired" "snow_xx sample_snow sample_paired (\<lambda>k. k)"
  by (auto simp: snow_paired_def sample_paired_def sample_snow_def snow_xx_def)

lemma sample_snow_halves: "snow_halves sample_snow fst snd"
  by (auto simp: snow_halves_def sample_snow_def)

definition sample_identity :: "u8 \<Rightarrow> node_identity" where
  "sample_identity n = \<lparr>private_key = replicate 32 n, public_key = replicate 32 n\<rparr>"

definition sample_net_env :: net_env where
  "sample_net_env = env.extend sample_env
     (net_env.fields (\<lambda>m. case m of Ping \<Rightarrow> [1] | Pong \<Rightarrow> [2] | _ \<Rightarrow> [0])
        (\<lambda>bs. if bs = [1] then Some Ping else if bs = [2] then Some Pong else None))"

lemma sample_net_env_sendable: "sendable sample_net_env Ping" "sendable sample_net_env Pong"
  "message_frames sample_net_env Ping = 1" "message_frames sample_net_env Pong = 1"
  by (simp_all add: sendable_def message_frames_def framed_message_def sample_net_env_def env.defs net_env.defs
      MAX_MESSAGE_def chunks.simps MAX_NOISE_PLAINTEXT_def)

text \<open>
  C31. A session delivers. For any two node identities the two ends of a connection, of which one has
  opened it, meet in the handshake and each learns the other's public key; any sequence of messages of at
  most 64 MiB that one end then writes is read by the other, complete and in order, however the messages
  fall on the encrypted frames; the same holds in the other direction. The budget is the message counter
  of Noise.
\<close>

theorem session_delivers:
  assumes "snow_xx N paired pub" "snow_paired N paired" "length (private_key ida) = 32" "length (private_key idb) = 32"
    and "public_key ida = pub (private_key ida)" "public_key idb = pub (private_key idb)"
    and "list_all (sendable E) ms" "sum_list (map (message_frames E) ms) < 2 ^ 64"
    and "list_all (sendable E) ns" "sum_list (map (message_frames E) ns) < 2 ^ 64"
  shows "\<exists>ti tr oi or wi wr si sr ei er ri rr.
    secure_connection N ida True (or @ wr) = (Inr (public_key idb, ti, ri), oi) \<and>
    secure_connection N idb False (oi @ wi) = (Inr (public_key ida, tr, rr), or) \<and>
    write_messages N E ti ms = (Inr (), wi, si) \<and> write_messages N E tr ns = (Inr (), wr, sr) \<and>
    read_messages N E (length ms) rr = Inr (ms, \<lparr>er_stream = [], er_transport = er, er_leftover = []\<rparr>) \<and>
    read_messages N E (length ns) ri = Inr (ns, \<lparr>er_stream = [], er_transport = ei, er_leftover = []\<rparr>)"
proof -
  let ?a = "private_key ida" and ?b = "private_key idb"
  obtain ti tr oi or where h: "\<And>x. handshake_initiator N ?a (or @ x) = (Inr (ti, pub ?b, x), oi)"
    "\<And>y. handshake_responder N ?b (oi @ y) = (Inr (tr, pub ?a, y), or)"
    "paired ti tr (2 ^ 64 - 1)" "paired tr ti (2 ^ 64 - 1)"
    using handshake_meets [OF assms(1,3,4)] by blast
  have "sum_list (map (message_frames E) ms) \<le> 2 ^ 64 - 1" "sum_list (map (message_frames E) ns) \<le> 2 ^ 64 - 1"
    using assms(8,10) by simp_all
  from messages_written_read [OF assms(2) h(3) this(1) assms(7), of "[]"]
    messages_written_read [OF assms(2) h(4) this(2) assms(9), of "[]"]
  obtain wi wr si sr ei er where
    "write_messages N E ti ms = (Inr (), wi, si)" "write_messages N E tr ns = (Inr (), wr, sr)"
    "read_messages N E (length ms) \<lparr>er_stream = wi, er_transport = tr, er_leftover = []\<rparr> =
      Inr (ms, \<lparr>er_stream = [], er_transport = er, er_leftover = []\<rparr>)"
    "read_messages N E (length ns) \<lparr>er_stream = wr, er_transport = ti, er_leftover = []\<rparr> =
      Inr (ns, \<lparr>er_stream = [], er_transport = ei, er_leftover = []\<rparr>)"
    by (simp only: append_Nil2) blast
  moreover have "secure_connection N ida True (or @ wr) =
      (Inr (public_key idb, ti, \<lparr>er_stream = wr, er_transport = ti, er_leftover = []\<rparr>), oi)"
    "secure_connection N idb False (oi @ wi) =
      (Inr (public_key ida, tr, \<lparr>er_stream = wi, er_transport = tr, er_leftover = []\<rparr>), or)"
    using h(1,2) assms(5,6) by (simp_all add: secure_connection_def)
  ultimately show ?thesis by blast
qed

theorem session_delivers_witness:
  "\<exists>ti tr oi or wi wr si sr ei er ri rr.
    secure_connection sample_snow (sample_identity 1) True (or @ wr) = (Inr (replicate 32 2, ti, ri), oi) \<and>
    secure_connection sample_snow (sample_identity 2) False (oi @ wi) = (Inr (replicate 32 1, tr, rr), or) \<and>
    write_messages sample_snow sample_net_env ti [Ping, Pong] = (Inr (), wi, si) \<and>
    write_messages sample_snow sample_net_env tr [Pong] = (Inr (), wr, sr) \<and>
    read_messages sample_snow sample_net_env (length [Ping, Pong]) rr =
      Inr ([Ping, Pong], \<lparr>er_stream = [], er_transport = er, er_leftover = []\<rparr>) \<and>
    read_messages sample_snow sample_net_env (length [Pong]) ri =
      Inr ([Pong], \<lparr>er_stream = [], er_transport = ei, er_leftover = []\<rparr>)"
  using session_delivers [OF sample_snow_laws(2,1), of "sample_identity 1" "sample_identity 2" sample_net_env "[Ping, Pong]" "[Pong]"]
  by (simp add: sample_net_env_sendable sample_identity_def)

end
