(* ===== verification/Node_Tasks.thy ===== *)
theory Node_Tasks
  imports Node_Properties
begin

text \<open>
  The handlers of \<open>main.rs\<close> as concurrent tasks. The event loop, the task that announces pending transactions and every
  RPC request run side by side; \<open>submit_block\<close> holds the write lock of the chain, but nothing is held from there
  on. A task has a program counter at each point where another one can come in between: at every \<open>await\<close>, every
  access to the peers, the pending transactions and the orphans. \<open>system_step\<close> interleaves the tasks with each other
  and with the connections.
\<close>

section \<open>Small steps\<close>

text \<open>What a handler does to the shared state under one lock, or in one access to the store.\<close>

datatype action =
    SetHeight u64
  | Broadcast message
  | SendTo socket_addr message
  | Unpend transaction
  | Pend transaction
  | FileOrphan hash256 block

fun act :: "'a env_scheme \<Rightarrow> action \<Rightarrow> app \<Rightarrow> app" where
  "act E (SetHeight h) app = with_net (set_height h) app"
| "act E (Broadcast m) app = with_net (broadcast m) app"
| "act E (SendTo a m) app = with_net (send_to a m) app"
| "act E (Unpend tx) app = with_state (mempool_remove (tx_hash E tx)) app"
| "act E (Pend tx) app = with_state (mempool_insert E tx) app"
| "act E (FileOrphan p b) app = app\<lparr>orphans := buffer_orphan p b (orphans app)\<rparr>"

text \<open>\<open>handle_outcome\<close> as the sequence of its accesses.\<close>

definition outcome_actions :: "block \<Rightarrow> submit_outcome \<Rightarrow> action list" where
  "outcome_actions b oc =
     (case oc of
        Accepted x h reorged requeue \<Rightarrow>
          [SetHeight h, Broadcast (NewBlock b)] @ map Unpend (transactions b) @ map Pend requeue
      | SideBranch x h \<Rightarrow> [Broadcast (NewBlock b)]
      | AlreadyKnown \<Rightarrow> []
      | Orphan missing_parent \<Rightarrow> [FileOrphan missing_parent b, Broadcast (GetBlock missing_parent)])"

text \<open>
  The call of \<open>accept_and_broadcast\<close> on one block: waiting to submit; in \<open>handle_outcome\<close>; at the head of the \<open>while\<close>;
  in the \<open>for\<close> over the children; in \<open>handle_outcome\<close> of a child; done. The last argument is the outcome that is
  returned. Then the other handlers that change shared state: a transaction from a peer or from a client, the question
  of a peer for a block, a tick of the announcing task, the dataset of a request for work; and what is left to do of one.
\<close>

datatype task =
    Begin block
  | Outcome "action list" submit_outcome
  | Queue "hash256 list" submit_outcome
  | Children "block list" "hash256 list" submit_outcome
  | ChildOutcome "action list" submit_outcome "block list" "hash256 list" submit_outcome
  | Finished "chain_error + submit_outcome"
  | Incoming transaction
  | Asked socket_addr hash256
  | Tick
  | Dataset u64
  | Sending "action list"

definition accepted_hash :: "submit_outcome \<Rightarrow> hash256 list" where
  "accepted_hash oc = (case oc of Accepted x h re rq \<Rightarrow> [x] | _ \<Rightarrow> [])"

fun task_step :: "'a env_scheme \<Rightarrow> task \<Rightarrow> app \<Rightarrow> (task \<times> app) option" where
  "task_step E (Begin b) app =
     (case submit_block E (achain app) b of
        None \<Rightarrow> None
      | Some (Inl e, c) \<Rightarrow> Some (Finished (Inl e), app\<lparr>achain := c\<rparr>)
      | Some (Inr oc, c) \<Rightarrow> Some (Outcome (outcome_actions b oc) oc, app\<lparr>achain := c\<rparr>))"
| "task_step E (Outcome (a # as) oc) app = Some (Outcome as oc, act E a app)"
| "task_step E (Outcome [] oc) app =
     Some (case oc of Accepted x h re rq \<Rightarrow> Queue [x] oc | _ \<Rightarrow> Finished (Inr oc), app)"
| "task_step E (Queue [] oc) app = Some (Finished (Inr oc), app)"
| "task_step E (Queue (x # q) oc) app =
     Some (case map_of (orphans app) x of
             None \<Rightarrow> (Queue q oc, app)
           | Some cs \<Rightarrow> (Children cs q oc, app\<lparr>orphans := AList.delete x (orphans app)\<rparr>))"
| "task_step E (Children [] q oc) app = Some (Queue q oc, app)"
| "task_step E (Children (c # cs) q oc) app =
     (case submit_block E (achain app) c of
        None \<Rightarrow> None
      | Some (Inl e, ch) \<Rightarrow> Some (Children cs q oc, app\<lparr>achain := ch\<rparr>)
      | Some (Inr coc, ch) \<Rightarrow> Some (ChildOutcome (outcome_actions c coc) coc cs q oc, app\<lparr>achain := ch\<rparr>))"
| "task_step E (ChildOutcome (a # as) coc cs q oc) app = Some (ChildOutcome as coc cs q oc, act E a app)"
| "task_step E (ChildOutcome [] coc cs q oc) app = Some (Children cs (q @ accepted_hash coc) oc, app)"
| "task_step E (Finished r) app = Some (Finished r, app)"
| "task_step E (Incoming tx) app =
     Some (Sending (if is_signature_valid E tx then [Pend tx, Broadcast (NewTransaction tx)] else []), app)"
| "task_step E (Asked peer_addr x) app =
     Some (Sending [SendTo peer_addr (BlockResponse (get_block (cstate (achain app)) x))], app)"
| "task_step E Tick app =
     Some (Sending (map (\<lambda>tx. Broadcast (NewTransaction tx)) (mempool_all (cstate (achain app)))), app)"
| "task_step E (Dataset h) app =
     (case dataset_for_height E (achain app) h of
        None \<Rightarrow> None
      | Some (r, c) \<Rightarrow> Some (Sending [], app\<lparr>achain := c\<rparr>))"
| "task_step E (Sending (a # as)) app = Some (Sending as, act E a app)"
| "task_step E (Sending []) app = Some (Sending [], app)"

fun fresh_task :: "task \<Rightarrow> bool" where
  "fresh_task (Begin b) = True"
| "fresh_task (Incoming tx) = True"
| "fresh_task (Asked a x) = True"
| "fresh_task Tick = True"
| "fresh_task (Dataset h) = (0 < h)"
| "fresh_task t = False"

text \<open>A task moves, a request or an event starts one, a connection moves.\<close>

inductive system_step :: "'a env_scheme \<Rightarrow> task list \<times> app \<Rightarrow> task list \<times> app \<Rightarrow> bool" for E :: "'a env_scheme" where
  moved: "i < length ts \<Longrightarrow> task_step E (ts ! i) app = Some (t, app') \<Longrightarrow> system_step E (ts, app) (ts[i := t], app')"
| begun: "fresh_task t \<Longrightarrow> system_step E (ts, app) (ts @ [t], app)"
| connection: "net_step (anet app) n \<Longrightarrow> system_step E (ts, app) (ts, app\<lparr>anet := n\<rparr>)"

abbreviation system_run :: "'a env_scheme \<Rightarrow> task list \<times> app \<Rightarrow> task list \<times> app \<Rightarrow> bool" where
  "system_run E \<equiv> (system_step E)\<^sup>*\<^sup>*"

inductive task_run :: "'a env_scheme \<Rightarrow> task \<Rightarrow> app \<Rightarrow> task \<Rightarrow> app \<Rightarrow> bool" for E :: "'a env_scheme" where
  here: "task_run E t app t app"
| there: "task_step E t app = Some (t1, app1) \<Longrightarrow> task_run E t1 app1 t2 app2 \<Longrightarrow> task_run E t app t2 app2"

section \<open>A task that runs alone is the handler\<close>

lemma task_run_trans: "task_run E t app t1 app1 \<Longrightarrow> task_run E t1 app1 t2 app2 \<Longrightarrow> task_run E t app t2 app2"
  by (induction rule: task_run.induct) (auto intro: task_run.there)

lemma task_run_step: "task_step E t app = Some (t1, app1) \<Longrightarrow> task_run E t app t1 app1"
  by (auto intro: task_run.intros)

lemma act_run:
  "task_run E (Outcome as oc) app (Outcome [] oc) (fold (act E) as app)"
  "task_run E (ChildOutcome as coc cs q oc) app (ChildOutcome [] coc cs q oc) (fold (act E) as app)"
  "task_run E (Sending as) app (Sending []) (fold (act E) as app)"
  by (induction as arbitrary: app) (auto intro: task_run.intros)

lemma fold_pend:
  "fold (act E) (map Unpend txs) app = with_state (fold (\<lambda>tx. mempool_remove (tx_hash E tx)) txs) app"
  "fold (act E) (map Pend txs) app = with_state (fold (mempool_insert E) txs) app"
  by (induction txs arbitrary: app) (simp_all add: with_state_def)

lemma fold_outcome: "fold (act E) (outcome_actions b oc) app = handle_outcome E b oc app"
  by (simp add: outcome_actions_def handle_outcome_def fold_pend Let_def with_net_def split: submit_outcome.split)

lemma children_run:
  "retry_children E cs q app = Some (q', app') \<Longrightarrow> task_run E (Children cs q oc) app (Queue q' oc) app'"
proof (induction cs arbitrary: q app)
  case Nil
  then show ?case by (auto intro: task_run_step)
next
  case (Cons c cs)
  obtain r ch where sub: "submit_block E (achain app) c = Some (r, ch)"
    using Cons.prems by (auto split: option.splits)
  show ?case
  proof (cases r)
    case (Inl e)
    then have "task_run E (Children cs q oc) (app\<lparr>achain := ch\<rparr>) (Queue q' oc) app'"
      using Cons.prems by (intro Cons.IH) (simp add: sub)
    with Inl show ?thesis by (auto intro: task_run.there simp: sub)
  next
    case (Inr coc)
    have "(case coc of Accepted x2 h re rq \<Rightarrow> q @ [x2] | _ \<Rightarrow> q) = q @ accepted_hash coc"
      by (simp add: accepted_hash_def split: submit_outcome.split)
    then have "task_run E (Children cs (q @ accepted_hash coc) oc) (handle_outcome E c coc (app\<lparr>achain := ch\<rparr>)) (Queue q' oc) app'"
      using Cons.prems Inr by (intro Cons.IH) (simp add: sub)
    then have "task_run E (ChildOutcome [] coc cs q oc) (handle_outcome E c coc (app\<lparr>achain := ch\<rparr>)) (Queue q' oc) app'"
      by (auto intro: task_run.there)
    from task_run_trans [OF act_run(2) this [folded fold_outcome]]
    have "task_run E (ChildOutcome (outcome_actions c coc) coc cs q oc) (app\<lparr>achain := ch\<rparr>) (Queue q' oc) app'" .
    with Inr show ?thesis by (auto intro: task_run.there simp: sub)
  qed
qed

lemma queue_run:
  assumes "cascade E q app = Some app'"
  shows "task_run E (Queue q oc) app (Finished (Inr oc)) app'"
proof (rule cascade.raw_induct [OF _ assms])
  fix casc E' q app0 y
  assume IH: "\<And>E q app y. casc E q app = Some y \<Longrightarrow> task_run E (Queue q oc) app (Finished (Inr oc)) y"
    and body: "(case q of [] \<Rightarrow> Some app0
      | x # queue' \<Rightarrow>
          (case map_of (orphans app0) x of None \<Rightarrow> casc E' queue' app0
           | Some children \<Rightarrow>
               (case retry_children E' children queue' (app0\<lparr>orphans := AList.delete x (orphans app0)\<rparr>) of
                  None \<Rightarrow> None
                | Some (queue'', app') \<Rightarrow> casc E' queue'' app'))) = Some y"
  show "task_run E' (Queue q oc) app0 (Finished (Inr oc)) y"
  proof (cases q)
    case Nil
    with body show ?thesis by (auto intro: task_run_step)
  next
    case (Cons x q1)
    show ?thesis
    proof (cases "map_of (orphans app0) x")
      case None
      then have "task_run E' (Queue q1 oc) app0 (Finished (Inr oc)) y" using body Cons by (intro IH) simp
      with Cons None show ?thesis by (auto intro: task_run.there)
    next
      case (Some cs)
      let ?app1 = "app0\<lparr>orphans := AList.delete x (orphans app0)\<rparr>"
      obtain q2 app2 where r: "retry_children E' cs q1 ?app1 = Some (q2, app2)" "casc E' q2 app2 = Some y"
        using body Cons Some by (auto split: option.splits)
      from task_run_trans [OF children_run [OF r(1)] IH [OF r(2)]]
      have "task_run E' (Children cs q1 oc) ?app1 (Finished (Inr oc)) y" .
      with Cons Some show ?thesis by (auto intro: task_run.there)
    qed
  qed
qed

lemma handler_run:
  assumes "accept_and_broadcast E b app = Some (r, app')"
  shows "task_run E (Begin b) app (Finished r) app'"
proof -
  obtain s c where sub: "submit_block E (achain app) b = Some (s, c)"
    using assms by (auto simp: accept_and_broadcast_def split: option.splits)
  show ?thesis
  proof (cases s)
    case (Inl e)
    with assms sub show ?thesis by (auto simp: accept_and_broadcast_def intro: task_run_step)
  next
    case (Inr oc)
    let ?app1 = "handle_outcome E b oc (app\<lparr>achain := c\<rparr>)"
    have "task_run E (Begin b) app (Outcome (outcome_actions b oc) oc) (app\<lparr>achain := c\<rparr>)"
      by (rule task_run_step) (simp add: sub Inr)
    from task_run_trans [OF this act_run(1)]
    have start: "task_run E (Begin b) app (Outcome [] oc) ?app1" by (simp add: fold_outcome)
    have "task_run E (Outcome [] oc) ?app1 (Finished r) app'"
    proof (cases oc)
      case (Accepted x h re rq)
      with assms sub Inr have "cascade E [x] ?app1 = Some app'" "r = Inr oc"
        by (auto simp: accept_and_broadcast_def Let_def split: option.splits)
      with queue_run [of E "[x]" ?app1 app' oc] Accepted show ?thesis by (auto intro: task_run.there)
    qed (use assms sub Inr in \<open>auto simp: accept_and_broadcast_def Let_def intro: task_run_step\<close>)
    with start show ?thesis by (rule task_run_trans)
  qed
qed

text \<open>The other handlers, alone.\<close>

lemma other_handlers_run:
  "task_run E (Incoming tx) app (Sending []) (snd (rpc_submit_tx E tx app))"
  "on_event E (NewTransactionEvent tx) app = Some (snd (rpc_submit_tx E tx app))"
  "\<exists>app'. on_event E (GetBlockRequest a x) app = Some app' \<and> task_run E (Asked a x) app (Sending []) app'"
  "task_run E Tick app (Sending []) (rebroadcast app)"
proof -
  have run: "task_run E t app (Sending []) (fold (act E) as app)" if "task_step E t app = Some (Sending as, app)" for t as
    by (rule task_run.there [OF that act_run(3)])
  show "task_run E (Incoming tx) app (Sending []) (snd (rpc_submit_tx E tx app))"
    using run [of "Incoming tx" "if is_signature_valid E tx then [Pend tx, Broadcast (NewTransaction tx)] else []"]
    by (simp add: rpc_submit_tx_def split: if_splits)
  show "on_event E (NewTransactionEvent tx) app = Some (snd (rpc_submit_tx E tx app))"
    by (simp add: on_event_def rpc_submit_tx_def)
  show "\<exists>app'. on_event E (GetBlockRequest a x) app = Some app' \<and> task_run E (Asked a x) app (Sending []) app'"
    using run [of "Asked a x"] by (simp add: on_event_def)
  have "fold (act E) (map (\<lambda>tx. Broadcast (NewTransaction tx)) txs) app = with_net (fold (\<lambda>tx. broadcast (NewTransaction tx)) txs) app"
    for txs and app :: app by (induction txs arbitrary: app) (simp_all add: with_net_def)
  then show "task_run E Tick app (Sending []) (rebroadcast app)" using run [of Tick] by (simp add: rebroadcast_def)
qed

lemma task_run_system: "task_run E t app t' app' \<Longrightarrow> i < length ts \<Longrightarrow> ts ! i = t \<Longrightarrow> system_run E (ts, app) (ts[i := t'], app')"
proof (induction arbitrary: ts rule: task_run.induct)
  case (here t app)
  then show ?case using list_update_id [of ts i] by simp
next
  case (there t app t1 app1 t2 app2)
  have "system_step E (ts, app) (ts[i := t1], app1)" using there by (intro system_step.moved) simp_all
  moreover have "system_run E (ts[i := t1], app1) (ts[i := t1, i := t2], app2)" using there by (intro there.IH) simp_all
  ultimately show ?case by (simp add: converse_rtranclp_into_rtranclp)
qed

section \<open>Every interleaving keeps the invariant\<close>

definition action_ok :: "'a env_scheme \<Rightarrow> action \<Rightarrow> bool" where
  "action_ok E a \<longleftrightarrow> (case a of Pend tx \<Rightarrow> is_signature_valid E tx | FileOrphan p b \<Rightarrow> p = prev_hash (header b) | _ \<Rightarrow> True)"

definition task_ok :: "'a env_scheme \<Rightarrow> task \<Rightarrow> bool" where
  "task_ok E t \<longleftrightarrow> (case t of
     Outcome as oc \<Rightarrow> list_all (action_ok E) as
   | ChildOutcome as coc cs q oc \<Rightarrow> list_all (action_ok E) as
   | Sending as \<Rightarrow> list_all (action_ok E) as
   | Dataset h \<Rightarrow> 0 < h
   | _ \<Rightarrow> True)"

lemma fresh_task_ok: "fresh_task t \<Longrightarrow> task_ok E t"
  by (cases t) (simp_all add: task_ok_def)

lemma act_keeps:
  assumes "node_inv E gen app" "action_ok E a"
  shows "node_inv E gen (act E a app)"
  using assms reachable.pending_added [of E gen "achain app"] reachable.pending_dropped [of E gen "achain app"]
  by (cases a) (auto simp: node_inv_def action_ok_def net_ok_broadcast net_ok_send_to net_ok_set_height orphans_ok_buffer
      pending_signed_insert pending_signed_remove, auto simp: with_state_def)

text \<open>One submission inside a task, as far as the interleavings need it.\<close>

lemma submit_in_task:
  assumes "node_inv E gen app" "hash_sizes E" "supply_capped E gen"
  shows "\<exists>r c. submit_block E (achain app) b = Some (r, c) \<and> node_inv E gen (app\<lparr>achain := c\<rparr>) \<and>
    keeps_blocks (cstate (achain app)) (cstate c) \<and> (\<forall>oc. r = Inr oc \<longrightarrow> list_all (action_ok E) (outcome_actions b oc)) \<and>
    (\<forall>oc. r = Inr oc \<longrightarrow> (\<forall>x \<in> set (accepted_hash oc). get_block (cstate (achain app)) x = None))"
proof -
  have reach: "reachable E gen (achain app)" using assms(1) by (simp add: node_inv_def)
  obtain r c where sub: "submit_block E (achain app) b = Some (r, c)" "reachable E gen c"
    "mempool (cstate c) = mempool (cstate (achain app))" "keeps_blocks (cstate (achain app)) (cstate c)"
    and orph: "\<And>p. r = Inr (Orphan p) \<Longrightarrow> p = prev_hash (header b)"
    and acc: "\<And>x h re rq. r = Inr (Accepted x h re rq) \<Longrightarrow>
       get_block (cstate (achain app)) x = None \<and> list_all (is_signature_valid E) rq"
    using submit_facts [OF reach assms(2,3), of b] by blast
  have "node_inv E gen (app\<lparr>achain := c\<rparr>)"
    using assms(1) sub(2) pending_signed_mempool [OF sub(3), of E] by (simp add: node_inv_def)
  moreover have "list_all (action_ok E) (outcome_actions b oc)" if "r = Inr oc" for oc
    using that orph acc by (cases oc) (auto simp: outcome_actions_def action_ok_def list_all_iff)
  moreover have "get_block (cstate (achain app)) x = None" if "r = Inr oc" "x \<in> set (accepted_hash oc)" for oc x
    using that acc by (cases oc) (auto simp: accepted_hash_def)
  ultimately show ?thesis using sub(1,4) by blast
qed

lemma dataset_in_task:
  assumes "node_inv E gen app" "hash_sizes E" "supply_capped E gen" "0 < h"
  shows "\<exists>r c. dataset_for_height E (achain app) h = Some (r, c) \<and> node_inv E gen (app\<lparr>achain := c\<rparr>)"
proof -
  have reach: "reachable E gen (achain app)" using assms(1) by (simp add: node_inv_def)
  note first = first_epoch_dataset [OF reachable_inv [OF reach assms(2,3)] reachable_first_epoch [OF reach assms(2,3)], of h]
  obtain ds where "generate E 0 (epoch_seed E None) = Some ds" using generate_total [OF assms(2)] by blast
  then obtain r c where d: "dataset_for_height E (achain app) h = Some (r, c)" "\<And>e. r = Inl e \<Longrightarrow> c = achain app"
    using first by (auto split: if_splits)
  show ?thesis
  proof (cases r)
    case (Inl e)
    with d assms(1) show ?thesis by simp
  next
    case (Inr ds)
    with node_step_inv [OF dataset_is_step [OF assms(1-3) _ assms(4)] assms(1-3)] d(1) show ?thesis by simp
  qed
qed

lemma task_step_inv:
  assumes "node_inv E gen app" "hash_sizes E" "supply_capped E gen" "task_ok E t"
  shows "\<exists>t' app'. task_step E t app = Some (t', app') \<and> node_inv E gen app' \<and> task_ok E t'"
proof -
  note acts = assms(1) act_keeps [OF assms(1)]
  show ?thesis
  proof (cases t)
    case (Begin b)
    obtain r c where "submit_block E (achain app) b = Some (r, c)" "node_inv E gen (app\<lparr>achain := c\<rparr>)"
      "\<forall>oc. r = Inr oc \<longrightarrow> list_all (action_ok E) (outcome_actions b oc)" using submit_in_task [OF assms(1-3), of b] by blast
    with Begin show ?thesis by (cases r) (auto simp: task_ok_def)
  next
    case (Outcome as oc)
    with assms(4) acts show ?thesis by (cases as) (auto simp: task_ok_def split: submit_outcome.split)
  next
    case (Queue q oc)
    with assms(1) show ?thesis
      by (cases q) (auto simp: task_ok_def node_inv_def orphans_ok_delete split: option.split)
  next
    case (Children cs q oc)
    show ?thesis
    proof (cases cs)
      case (Cons c cs')
      obtain r ch where "submit_block E (achain app) c = Some (r, ch)" "node_inv E gen (app\<lparr>achain := ch\<rparr>)"
        "\<forall>oc. r = Inr oc \<longrightarrow> list_all (action_ok E) (outcome_actions c oc)" using submit_in_task [OF assms(1-3), of c] by blast
      with Children Cons show ?thesis by (cases r) (auto simp: task_ok_def)
    qed (use Children assms(1) in \<open>simp add: task_ok_def\<close>)
  next
    case (ChildOutcome as coc cs q oc)
    with assms(4) acts show ?thesis by (cases as) (auto simp: task_ok_def)
  next
    case (Dataset h)
    with assms(4) dataset_in_task [OF assms(1-3), of h] show ?thesis by (auto simp: task_ok_def)
  next
    case (Sending as)
    with assms(4) acts show ?thesis by (cases as) (auto simp: task_ok_def)
  qed (use assms(1) in \<open>auto simp: task_ok_def action_ok_def list_all_iff node_inv_def pending_signed_def\<close>)
qed

lemma system_step_inv:
  assumes "system_step E s s'" "hash_sizes E" "supply_capped E gen" "node_inv E gen (snd s)" "list_all (task_ok E) (fst s)"
  shows "node_inv E gen (snd s') \<and> list_all (task_ok E) (fst s')"
  using assms(1)
proof (cases rule: system_step.cases)
  case (moved i ts app t app')
  then have "task_ok E (ts ! i)" using assms(5) by (simp add: list_all_length)
  moreover have "node_inv E gen app" using moved assms(4) by simp
  ultimately have "node_inv E gen app'" "task_ok E t"
    using task_step_inv [OF _ assms(2,3), of app "ts ! i"] moved(4) by auto
  with moved assms(5) show ?thesis using set_update_subset_insert [of ts i t] by (auto simp: list_all_iff)
next
  case (begun t ts app)
  with assms(4,5) fresh_task_ok show ?thesis by simp
next
  case (connection app n ts)
  with assms(4,5) node_step_inv [OF node_step.network_moved [OF connection(3)] _ assms(2,3)] show ?thesis by simp
qed

lemma system_run_inv:
  assumes "system_run E s s'" "hash_sizes E" "supply_capped E gen" "node_inv E gen (snd s)" "list_all (task_ok E) (fst s)"
  shows "node_inv E gen (snd s') \<and> list_all (task_ok E) (fst s')"
  using assms(1)
proof (induction rule: rtranclp_induct)
  case (step s1 s2)
  then show ?case using system_step_inv [OF step.hyps(2) assms(2,3)] by blast
qed (use assms(4,5) in simp)

text \<open>
  C12. Handlers do not disturb each other's safety. However the handlers of any blocks, transactions and questions, the
  announcing task and the connections are interleaved, at every \<open>await\<close> and between any two accesses to what they
  share, the invariant of the node holds at every moment, and no task is stuck. And each handler that runs without
  interruption ends as in theory \<open>Node\<close>: with the result and in the state of \<open>accept_and_broadcast\<close>, of
  \<open>rpc_submit_tx\<close> and the events for transactions and questions, of \<open>rebroadcast\<close>.
\<close>

theorem handlers_interleave_safely:
  assumes "node_run E gen app" "hash_sizes E" "supply_capped E gen"
  shows "(system_run E ([], app) (ts, app') \<longrightarrow> node_inv E gen app' \<and>
      (\<forall>i < length ts. \<exists>t' app''. task_step E (ts ! i) app' = Some (t', app''))) \<and>
    (\<exists>r app''. accept_and_broadcast E b app = Some (r, app'') \<and> task_run E (Begin b) app (Finished r) app'') \<and>
    (\<exists>r app''. rpc_submit_tx E tx app = (r, app'') \<and> on_event E (NewTransactionEvent tx) app = Some app'' \<and>
       task_run E (Incoming tx) app (Sending []) app'') \<and>
    (\<exists>app''. on_event E (GetBlockRequest peer x) app = Some app'' \<and> task_run E (Asked peer x) app (Sending []) app'') \<and>
    task_run E Tick app (Sending []) (rebroadcast app)"
proof -
  have inv: "node_inv E gen app" by (rule node_run_inv [OF assms])
  have "node_inv E gen app' \<and> (\<forall>i < length ts. \<exists>t' app''. task_step E (ts ! i) app' = Some (t', app''))"
    if run: "system_run E ([], app) (ts, app')"
  proof -
    have s: "node_inv E gen app'" "list_all (task_ok E) ts"
      using system_run_inv [OF run assms(2,3)] inv by simp_all
    then show ?thesis using task_step_inv [OF s(1) assms(2,3)] by (meson list_all_length)
  qed
  moreover obtain r app2 where "accept_and_broadcast E b app = Some (r, app2)" using accept_facts [OF inv assms(2,3)] by blast
  ultimately show ?thesis using handler_run other_handlers_run(1,2) [of E tx app] other_handlers_run(3,4)
    by (metis prod.collapse)
qed

theorem handlers_interleave_safely_witness:
  "\<exists>app'. system_run sample_env ([], sample_app) ([Begin block_c], app') \<and> node_inv sample_env sample_gen app' \<and>
     (\<exists>r app''. task_run sample_env (Begin block_c) sample_app (Finished r) app'')"
proof -
  have run: "system_run sample_env ([], sample_app) ([] @ [Begin block_c], sample_app)"
    by (rule r_into_rtranclp, rule system_step.begun) simp
  then have "node_inv sample_env sample_gen sample_app"
    using handlers_interleave_safely [OF sample_app_run sample_env_laws(1) sample_capped, THEN conjunct1, of "[Begin block_c]" sample_app]
    by simp
  moreover have "\<exists>r app''. task_run sample_env (Begin block_c) sample_app (Finished r) app''"
    using handlers_interleave_safely [OF sample_app_run sample_env_laws(1) sample_capped, THEN conjunct2, THEN conjunct1, of block_c]
    by blast
  ultimately show ?thesis using run by auto
qed

section \<open>An orphan that comes too late\<close>

definition waiting :: "block \<Rightarrow> hash256 \<Rightarrow> app \<Rightarrow> bool" where
  "waiting c p app \<longleftrightarrow> (\<exists>bs. map_of (orphans app) p = Some bs \<and> c \<in> set bs)"

text \<open>The hashes whose children a task is going to release.\<close>

definition task_queue :: "task \<Rightarrow> hash256 list" where
  "task_queue t =
     (case t of Outcome as oc \<Rightarrow> accepted_hash oc | Queue q oc \<Rightarrow> q | Children cs q oc \<Rightarrow> q
      | ChildOutcome as coc cs q oc \<Rightarrow> q @ accepted_hash coc | _ \<Rightarrow> [])"

text \<open>The block \<open>c\<close> waits for \<open>p\<close>, which is stored, and no task is going to release it.\<close>

definition forgotten :: "block \<Rightarrow> hash256 \<Rightarrow> task list \<times> app \<Rightarrow> bool" where
  "forgotten c p s \<longleftrightarrow> waiting c p (snd s) \<and> get_block (cstate (achain (snd s))) p \<noteq> None \<and>
     (\<forall>t \<in> set (fst s). p \<notin> set (task_queue t))"

lemma waiting_act:
  "waiting c p app \<Longrightarrow> waiting c p (act E a app)"
  "get_block (cstate (achain (act E a app))) = get_block (cstate (achain app))"
  by (cases a; auto simp: waiting_def buffer_orphan_def update_conv' state_simps split: option.split)+

lemma fresh_queue: "fresh_task t \<Longrightarrow> task_queue t = []"
  by (cases t) (simp_all add: task_queue_def)

lemma task_step_forgotten:
  assumes "node_inv E gen app" "hash_sizes E" "supply_capped E gen" "task_step E t app = Some (t', app')"
    and "waiting c p app" "get_block (cstate (achain app)) p \<noteq> None" "p \<notin> set (task_queue t)"
  shows "waiting c p app' \<and> get_block (cstate (achain app')) p \<noteq> None \<and> p \<notin> set (task_queue t')"
proof -
  have sub: "get_block (cstate ch) p \<noteq> None \<and> (\<forall>oc. r = Inr oc \<longrightarrow> p \<notin> set (accepted_hash oc))"
    if "submit_block E (achain app) b = Some (r, ch)" for b r ch
    using submit_in_task [OF assms(1-3), of b] that assms(6) by (auto simp: keeps_blocks_def)
  note acts = waiting_act(1) [OF assms(5), of E] waiting_act(2) [of E]
  show ?thesis
  proof (cases t)
    case (Begin b)
    with assms(4-7) sub [of b] show ?thesis
      by (auto simp: task_queue_def waiting_def split: option.splits sum.splits)
  next
    case (Outcome as oc)
    with assms(4-7) acts show ?thesis
      by (cases as) (auto simp: task_queue_def accepted_hash_def split: submit_outcome.splits)
  next
    case (Queue q oc)
    with assms(4-7) show ?thesis
      by (cases q) (auto simp: task_queue_def waiting_def map_of_delete_eq split: option.splits)
  next
    case (Children cs q oc)
    with assms(4-7) sub [of "hd cs"] show ?thesis
      by (cases cs) (auto simp: task_queue_def waiting_def split: option.splits sum.splits)
  next
    case (ChildOutcome as coc cs q oc)
    with assms(4-7) acts show ?thesis by (cases as) (auto simp: task_queue_def)
  next
    case (Dataset h)
    with assms(4-7) dataset_state [of E "achain app" h] show ?thesis
      by (auto simp: task_queue_def waiting_def split: option.splits)
  next
    case (Sending as)
    with assms(4-7) acts show ?thesis by (cases as) (auto simp: task_queue_def)
  qed (use assms(4-7) in \<open>auto simp: task_queue_def\<close>)
qed

lemma system_step_forgotten:
  assumes "system_step E s s'" "hash_sizes E" "supply_capped E gen" "node_inv E gen (snd s)" "forgotten c p s"
  shows "forgotten c p s'"
  using assms(1)
proof (cases rule: system_step.cases)
  case (moved i ts app t app')
  then have "p \<notin> set (task_queue (ts ! i))" using assms(5) by (simp add: forgotten_def)
  from task_step_forgotten [OF _ assms(2,3) moved(4) _ _ this] moved assms(4,5)
  have "waiting c p app'" "get_block (cstate (achain app')) p \<noteq> None" "p \<notin> set (task_queue t)"
    by (auto simp: forgotten_def)
  with moved assms(5) set_update_subset_insert [of ts i t] show ?thesis by (auto simp: forgotten_def)
next
  case (begun t ts app)
  with assms(5) fresh_queue show ?thesis by (auto simp: forgotten_def)
next
  case (connection app n ts)
  with assms(5) show ?thesis by (simp add: forgotten_def waiting_def)
qed

lemma system_run_forgotten:
  assumes "system_run E s s'" "hash_sizes E" "supply_capped E gen" "node_inv E gen (snd s)" "list_all (task_ok E) (fst s)"
    and "forgotten c p s"
  shows "forgotten c p s'"
  using assms(1)
proof (induction rule: rtranclp_induct)
  case (step s1 s2)
  with system_run_inv [OF step.hyps(1) assms(2-5)] system_step_forgotten [OF step.hyps(2) assms(2,3)]
  show ?case by blast
qed (rule assms(6))

text \<open>
  C29. A race loses an orphan. One task submits a block whose parent is missing; before it buffers the block,
  another task has the parent accepted and looks for waiting blocks, in vain. Then the first task files
  the block under a parent that is stored, and from there on, on every interleaving of the node with any
  further handlers, nothing ever releases it.
\<close>

theorem race_loses_orphan:
  assumes "node_run E gen app" "hash_sizes E" "supply_capped E gen"
    and "submit_block E (achain app) child = Some (Inr (Orphan p), c)"
    and "accept_and_broadcast E b (app\<lparr>achain := c\<rparr>) = Some (Inr (Accepted p h reorged requeue), app1)"
  shows "\<exists>app2. system_run E ([Begin child, Begin b], app)
      ([Finished (Inr (Orphan p)), Finished (Inr (Accepted p h reorged requeue))], app2) \<and>
    get_block (cstate (achain app2)) p \<noteq> None \<and> waiting child p app2 \<and>
    (\<forall>ts app3. system_run E ([Finished (Inr (Orphan p)), Finished (Inr (Accepted p h reorged requeue))], app2) (ts, app3)
       \<longrightarrow> get_block (cstate (achain app3)) p \<noteq> None \<and> waiting child p app3)"
proof -
  have inv: "node_inv E gen app" by (rule node_run_inv [OF assms(1-3)])
  let ?acts = "outcome_actions child (Orphan p)"
  obtain r c' where "submit_block E (achain app) child = Some (r, c')" "node_inv E gen (app\<lparr>achain := c'\<rparr>)"
    "\<forall>oc. r = Inr oc \<longrightarrow> list_all (action_ok E) (outcome_actions child oc)" using submit_in_task [OF inv assms(2,3), of child] by blast
  then have inv0: "node_inv E gen (app\<lparr>achain := c\<rparr>)" and ok: "list_all (action_ok E) ?acts"
    using assms(4) by simp_all
  have inv1: "node_inv E gen app1" and p1: "get_block (cstate (achain app1)) p \<noteq> None"
    using accept_facts [OF inv0 assms(2,3), of b] assms(5) by auto
  let ?app2 = "handle_outcome E child (Orphan p) app1"
  let ?done = "[Finished (Inr (Orphan p)), Finished (Inr (Accepted p h reorged requeue))]"
  have s1: "system_step E ([Begin child, Begin b], app) ([Outcome ?acts (Orphan p), Begin b], app\<lparr>achain := c\<rparr>)"
    using system_step.moved [of 0 "[Begin child, Begin b]" E app "Outcome ?acts (Orphan p)" "app\<lparr>achain := c\<rparr>"]
    by (simp add: assms(4))
  have s2: "system_run E ([Outcome ?acts (Orphan p), Begin b], app\<lparr>achain := c\<rparr>)
      ([Outcome ?acts (Orphan p), Finished (Inr (Accepted p h reorged requeue))], app1)"
    using task_run_system [OF handler_run [OF assms(5)], of 1 "[Outcome ?acts (Orphan p), Begin b]"] by simp
  have "task_run E (Outcome ?acts (Orphan p)) app1 (Finished (Inr (Orphan p))) ?app2"
    using task_run_trans [OF act_run(1) [of E ?acts "Orphan p" app1] task_run_step] by (simp add: fold_outcome)
  from task_run_system [OF this, of 0 "[Outcome ?acts (Orphan p), Finished (Inr (Accepted p h reorged requeue))]"]
  have s3: "system_run E ([Outcome ?acts (Orphan p), Finished (Inr (Accepted p h reorged requeue))], app1) (?done, ?app2)" by simp
  from s1 s2 s3 have run: "system_run E ([Begin child, Begin b], app) (?done, ?app2)"
    by (meson converse_rtranclp_into_rtranclp rtranclp_trans)
  have "waiting child p ?app2"
    by (auto simp: waiting_def handle_outcome_frame buffer_orphan_def update_conv' split: option.split)
  then have f: "forgotten child p (?done, ?app2)"
    using p1 by (simp add: forgotten_def task_queue_def handle_outcome_frame)
  have "node_inv E gen (fold (act E) as app)" if "list_all (action_ok E) as" "node_inv E gen app" for as app
    using that by (induction as arbitrary: app) (simp_all add: act_keeps)
  from this [OF ok inv1] have inv2: "node_inv E gen (snd (?done, ?app2))" by (simp add: fold_outcome)
  have tasks: "list_all (task_ok E) (fst (?done, ?app2))" by (simp add: task_ok_def)
  from system_run_forgotten [OF _ assms(2,3) inv2 tasks f] run f show ?thesis
    by (intro exI [of _ ?app2]) (auto simp: forgotten_def)
qed

theorem race_loses_orphan_witness:
  "\<exists>app2. system_run sample_env ([Begin block_c, Begin (block_at_b [])], sample_app)
      ([Finished (Inr (Orphan (sample_id 2 0))), Finished (Inr (Accepted (sample_id 2 0) 1 False []))], app2) \<and>
    get_block (cstate (achain app2)) (sample_id 2 0) \<noteq> None \<and> waiting block_c (sample_id 2 0) app2"
proof -
  have blk: "get_block (cstate (achain sample_app)) = get_block (cstate sample_chain)"
    using like_sample_app by (simp add: like_sample_def)
  obtain c1 where c1: "submit_block sample_env (achain sample_app) block_c = Some (Inr (Orphan (sample_id 2 0)), c1)"
    "cstate c1 = cstate (achain sample_app)" "reachable sample_env sample_gen c1"
    using orphan_c [OF like_sample_reach [OF like_sample_app]] sample_root_fresh [symmetric]
    by (auto simp: blk sample_fields)
  have "spec_blocks sample_env sample_gen [block_at_b []] (genesis_ledger sample_env sample_gen) \<noteq> None"
    by (simp add: spec_block_def)
  then obtain c2 where "submit_block sample_env c1 (block_at_b []) = Some (Inr (Accepted (sample_id 2 0) 1 False []), c2)"
    using step_first [OF c1(3), of "[]" 2] like_sample_canonical [OF like_sample_app] c1(2) blk by auto
  then have "accept_and_broadcast sample_env (block_at_b []) (sample_app\<lparr>achain := c1\<rparr>) =
      Some (Inr (Accepted (sample_id 2 0) 1 False []),
        handle_outcome sample_env (block_at_b []) (Accepted (sample_id 2 0) 1 False []) (sample_app\<lparr>achain := c1, achain := c2\<rparr>))"
    by (intro accept_quiet) (simp_all add: sample_app_def)
  from race_loses_orphan [OF sample_app_run sample_env_laws(1) sample_capped c1(1) this] show ?thesis by blast
qed

end
