(* ===== verification/Reorg_Pending.thy ===== *)
theory Reorg_Pending
  imports Pending_Stall
begin

text \<open>
  What an accepted block does to the pending transactions: its own leave, those of the undone branch
  come back, and nothing else changes. A reorganisation over several blocks therefore leaves in the
  pool what the other new blocks have already paid out.
\<close>

section \<open>Nonces only grow\<close>

lemma spec_txs_mono: "spec_txs P txs L = Some L' \<Longrightarrow> snd (L a) \<le> snd (L' a)"
proof (induction txs arbitrary: L)
  case (Cons tx txs)
  then obtain L1 where "spec_tx P tx L = Some L1" "spec_txs P txs L1 = Some L'" by (auto split: option.splits)
  with Cons.IH [of L1] spec_tx_nonce [of P tx L L1 a] show ?case by (auto split: if_splits)
qed simp

lemma spec_txs_used:
  "spec_txs P txs L = Some L' \<Longrightarrow> tx \<in> set txs \<Longrightarrow> unat (account_nonce tx) < snd (L' (to_address P (tx_from tx)))"
proof (induction txs arbitrary: L)
  case (Cons t txs)
  then obtain L1 where L1: "spec_tx P t L = Some L1" "spec_txs P txs L1 = Some L'" by (auto split: option.splits)
  show ?case
  proof (cases "tx = t")
    case True
    with spec_tx_nonce [OF L1(1), of "to_address P (tx_from tx)"]
      spec_txs_mono [OF L1(2), of "to_address P (tx_from tx)"] show ?thesis by simp
  next
    case False
    then show ?thesis using Cons.IH [OF L1(2)] Cons.prems(2) by simp
  qed
qed simp

lemma snd_credit_ledger [simp]: "snd (credit_ledger a v L b) = snd (L b)"
  by (simp add: credit_ledger_def)

lemma spec_block_cases:
  "spec_block P gen b L = Some L' \<Longrightarrow> \<exists>L1. spec_txs P (transactions b) L = Some L1 \<and> (\<forall>a. snd (L' a) = snd (L1 a))"
  by (auto simp: spec_block_def)

lemma spec_blocks_mono: "spec_blocks P gen ks L = Some L' \<Longrightarrow> snd (L a) \<le> snd (L' a)"
proof (induction ks arbitrary: L)
  case (Cons k ks)
  then obtain L1 where L1: "spec_block P gen k L = Some L1" "spec_blocks P gen ks L1 = Some L'" by (auto split: option.splits)
  obtain L2 where "spec_txs P (transactions k) L = Some L2" "\<forall>a. snd (L1 a) = snd (L2 a)"
    using spec_block_cases [OF L1(1)] by blast
  with spec_txs_mono [of P "transactions k" L L2 a] Cons.IH [OF L1(2)] show ?case by (metis le_trans)
qed simp

lemma spec_blocks_used:
  "spec_blocks P gen ks L = Some L' \<Longrightarrow> k \<in> set ks \<Longrightarrow> tx \<in> set (transactions k) \<Longrightarrow>
     unat (account_nonce tx) < snd (L' (to_address P (tx_from tx)))"
proof (induction ks arbitrary: L)
  case (Cons m ks)
  then obtain L1 where L1: "spec_block P gen m L = Some L1" "spec_blocks P gen ks L1 = Some L'" by (auto split: option.splits)
  obtain L2 where L2: "spec_txs P (transactions m) L = Some L2" "\<forall>a. snd (L1 a) = snd (L2 a)"
    using spec_block_cases [OF L1(1)] by blast
  show ?case
  proof (cases "k = m")
    case True
    with spec_txs_used [OF L2(1)] L2(2) spec_blocks_mono [OF L1(2)] Cons.prems(3) show ?thesis
      by (metis order_less_le_trans)
  next
    case False
    then show ?thesis using Cons.IH [OF L1(2)] Cons.prems by simp
  qed
qed simp

section \<open>The pool after an accepted block\<close>

lemma pending_removed:
  assumes "mempool_ok E s"
  shows "mempool_ok E (fold (\<lambda>tx. mempool_remove (tx_hash E tx)) txs s) \<and>
    set (mempool_all (fold (\<lambda>tx. mempool_remove (tx_hash E tx)) txs s)) =
      {t \<in> set (mempool_all s). tx_hash E t \<notin> tx_hash E ` set txs}"
  using assms
proof (induction txs arbitrary: s)
  case (Cons tx txs)
  from Cons.IH [OF mempool_ok_remove [OF Cons.prems, of "tx_hash E tx"]]
    pending_transactions_by_hash [OF Cons.prems, of tx "tx_hash E tx"]
  show ?case by auto
qed simp

lemma pending_requeued:
  assumes "mempool_ok E s" "t \<in> set (mempool_all s)" "tx_hash E t \<notin> tx_hash E ` set txs"
  shows "t \<in> set (mempool_all (fold (mempool_insert E) txs s))"
  using assms
proof (induction txs arbitrary: s)
  case (Cons tx txs)
  have "t \<in> set (mempool_all (mempool_insert E tx s))"
    using pending_transactions_by_hash [OF Cons.prems(1), of tx] Cons.prems(2,3) by auto
  with Cons.IH [OF mempool_ok_insert [OF Cons.prems(1)]] Cons.prems(3) show ?case by simp
qed simp

lemma accepted_pool:
  assumes "node_inv E gen app" "hash_sizes E" "supply_capped E gen"
    and "submit_block E (achain app) b = Some (Inr (Accepted x h re rq), c)"
    and "t \<in> set (mempool_all (cstate (achain app)))" "tx_hash E t \<notin> tx_hash E ` set (transactions b)"
    and "tx_hash E t \<notin> tx_hash E ` set rq"
  shows "t \<in> set (mempool_all (cstate (achain (handle_outcome E b (Accepted x h re rq) (app\<lparr>achain := c\<rparr>)))))"
proof -
  have reach: "reachable E gen (achain app)" using assms(1) by (simp add: node_inv_def)
  have mem: "mempool (cstate c) = mempool (cstate (achain app))"
    using submit_facts [OF reach assms(2,3), of b] assms(4) by auto
  then have ok: "mempool_ok E (cstate c)" and t: "t \<in> set (mempool_all (cstate c))"
    using reachable_all [OF reach assms(2,3)] assms(5) by (simp_all add: mempool_ok_def mempool_all_def)
  let ?s = "fold (\<lambda>tx. mempool_remove (tx_hash E tx)) (transactions b) (cstate c)"
  have "mempool_ok E ?s" "t \<in> set (mempool_all ?s)"
    using pending_removed [OF ok, of "transactions b"] t assms(6) by auto
  from pending_requeued [OF this assms(7)] show ?thesis by (simp add: handle_outcome_def Let_def)
qed

text \<open>
  Mined, but still pending. Only the transactions of the block that is submitted leave the pool. When it
  moves the tip over several blocks, a pending transaction that an earlier one of them contains stays;
  its nonce is used up on the new branch, so from then on the pending transactions replay on no accounts
  of the node, and every block mined from its template is refused.
\<close>

theorem reorg_leaves_mined_pending:
  assumes "node_run E gen app" "hash_sizes E" "supply_capped E gen"
    and "accept_and_broadcast E b app = Some (Inr (Accepted x h reorged requeue), app')" "map_of (orphans app) x = None"
    and "canonical E gen (cstate (achain app')) bs" "tx_room E gen (cstate (achain app'))"
    and "(y, k) \<in> set bs" "tx \<in> set (transactions k)" "tx \<in> set (mempool_all (cstate (achain app)))"
    and "tx_hash E tx \<notin> tx_hash E ` set (transactions b)" "tx_hash E tx \<notin> tx_hash E ` set requeue"
  shows "tx \<in> set (mempool_all (cstate (achain app'))) \<and>
    spec_txs E (mempool_all (cstate (achain app'))) (read_ledger (get_account (cstate (achain app')))) = None"
proof -
  have inv: "node_inv E gen app" by (rule node_run_inv [OF assms(1-3)])
  obtain c where sub: "submit_block E (achain app) b = Some (Inr (Accepted x h reorged requeue), c)"
    using assms(4) by (auto simp: accept_and_broadcast_def Let_def split: option.splits sum.splits submit_outcome.splits)
  from accept_quiet [OF this] assms(4,5)
  have app': "app' = handle_outcome E b (Accepted x h reorged requeue) (app\<lparr>achain := c\<rparr>)" by simp
  have "tx \<in> set (mempool_all (cstate (achain app')))"
    unfolding app' by (rule accepted_pool [OF inv assms(2,3) sub assms(10-12)])
  moreover have "chain_inv E gen (cstate (achain app'))"
    using node_run_inv [OF accept_run [OF assms(1,4)] assms(2,3)] reachable_inv [OF _ assms(2,3)]
    by (simp add: node_inv_def)
  from canonical_replays [OF this assms(6,7)]
  have "unat (account_nonce tx) < snd (read_ledger (get_account (cstate (achain app'))) (to_address E (tx_from tx)))"
    by (rule spec_blocks_used) (use assms(8,9) in force)+
  ultimately show ?thesis using stale_nonce_unreplayable by blast
qed

lemma replay_bc_paid: "spec_blocks sample_env sample_gen [block_at_b [sample_tx 0], block_c]
    (genesis_ledger sample_env sample_gen) \<noteq> None"
  by (simp add: block_c_def spec_block_def spec_tx_def Let_def sample_sender sample_tx_fields sample_genesis_ledger)

theorem reorg_leaves_mined_pending_witness:
  "\<exists>app app'. node_run sample_env sample_gen app \<and>
     accept_and_broadcast sample_env block_c app = Some (Inr (Accepted (sample_id 2 1) 2 True []), app') \<and>
     sample_tx 0 \<in> set (mempool_all (cstate (achain app'))) \<and>
     spec_txs sample_env (mempool_all (cstate (achain app'))) (read_ledger (get_account (cstate (achain app')))) = None"
proof -
  let ?app = "posted (sample_tx 0) sample_app"
  have "like_sample ?app" by (rule like_sample_posted [OF like_sample_app sample_tx_valid])
  moreover have "orphans ?app = []" by (simp add: posted_valid [OF sample_tx_valid] sample_app_def)
  ultimately obtain app2 c where run: "node_run sample_env sample_gen app2" and o2: "map_of (orphans app2) (sample_id 2 1) = None"
    and mem: "mempool (cstate (achain app2)) = mempool (cstate (achain ?app))"
    and sub: "submit_block sample_env (achain app2) block_c = Some (Inr (Accepted (sample_id 2 1) 2 True []), c)"
    and can: "canonical sample_env sample_gen (cstate c) [(sample_id 2 0, block_at_b [sample_tx 0]), entry_c]"
      "tx_room sample_env sample_gen (cstate c)"
    using sample_forked [of ?app "[sample_tx 0]", OF _ _ _ _ replay_bc_paid] by (auto simp: sample_tx_valid)
  let ?app3 = "handle_outcome sample_env block_c (Accepted (sample_id 2 1) 2 True []) (app2\<lparr>achain := c\<rparr>)"
  have acc: "accept_and_broadcast sample_env block_c app2 = Some (Inr (Accepted (sample_id 2 1) 2 True []), ?app3)"
    by (rule accept_quiet [OF sub]) (simp add: o2)
  have "transactions block_c = []" by (simp add: block_c_def)
  then have ch: "achain ?app3 = c" by (simp add: achain_handled)
  have "mempool_all (cstate (achain app2)) = [sample_tx 0]"
    using posted_sample_pending [of 0] mem by (simp add: mempool_all_def)
  with reorg_leaves_mined_pending [OF run sample_env_laws(1) sample_capped acc o2, of
      "[(sample_id 2 0, block_at_b [sample_tx 0]), entry_c]" "sample_id 2 0" "block_at_b [sample_tx 0]" "sample_tx 0"] can
  have "sample_tx 0 \<in> set (mempool_all (cstate (achain ?app3))) \<and>
      spec_txs sample_env (mempool_all (cstate (achain ?app3))) (read_ledger (get_account (cstate (achain ?app3)))) = None"
    by (simp add: ch \<open>transactions block_c = []\<close>)
  with run acc show ?thesis by blast
qed

end
