(* ===== verification/Gossip.thy ===== *)
theory Gossip
  imports Reorg_Pending Node_Properties
begin

text \<open>
  Two nodes that are connected to each other. Each is a node of theory \<open>Node\<close> with everything else that may
  happen to it; what one writes on the connection the other reads, in order. A transaction that is passed on
  whenever it is received never stops travelling between them, and it comes back after it was mined.
\<close>

section \<open>What a handler adds to the queues\<close>

definition greets :: "message \<Rightarrow> bool" where
  "greets m = (case m of Handshake v name h \<Rightarrow> True | _ \<Rightarrow> False)"

lemma greets_simps [simp]:
  "greets (Handshake v name h)" "\<not> greets (NewBlock b)" "\<not> greets (NewTransaction tx)" "\<not> greets (GetBlock x)"
  "\<not> greets (BlockResponse r)" "\<not> greets Ping" "\<not> greets Pong"
  by (simp_all add: greets_def)

definition net_grows :: "network \<Rightarrow> network \<Rightarrow> bool" where
  "net_grows n n' \<longleftrightarrow> peers n' = peers n \<and> events n' = events n \<and> net_name n' = net_name n \<and>
     length (conns n') = length (conns n) \<and>
     (\<forall>i < length (conns n). \<exists>ms. conns n' ! i = (conns n ! i)\<lparr>out_queue := out_queue (conns n ! i) @ ms\<rparr> \<and>
        list_all (\<lambda>m. \<not> greets m) ms)"

lemma net_growsD:
  "net_grows n n' \<Longrightarrow> i < length (conns n) \<Longrightarrow>
     \<exists>ms. conns n' ! i = (conns n ! i)\<lparr>out_queue := out_queue (conns n ! i) @ ms\<rparr> \<and> list_all (\<lambda>m. \<not> greets m) ms"
  by (simp add: net_grows_def)

lemma net_grows_refl [simp]: "net_grows n n"
  by (auto simp: net_grows_def intro!: exI [of _ "[]"])

lemma net_grows_trans [trans]:
  assumes "net_grows n n'" "net_grows n' n''"
  shows "net_grows n n''"
proof -
  have "\<exists>ms. conns n'' ! i = (conns n ! i)\<lparr>out_queue := out_queue (conns n ! i) @ ms\<rparr> \<and> list_all (\<lambda>m. \<not> greets m) ms"
    if i: "i < length (conns n)" for i
  proof -
    obtain ms where ms: "conns n' ! i = (conns n ! i)\<lparr>out_queue := out_queue (conns n ! i) @ ms\<rparr>" "list_all (\<lambda>m. \<not> greets m) ms"
      using assms(1) i by (auto simp: net_grows_def)
    obtain ms' where "conns n'' ! i = (conns n' ! i)\<lparr>out_queue := out_queue (conns n' ! i) @ ms'\<rparr>" "list_all (\<lambda>m. \<not> greets m) ms'"
      using assms i by (auto simp: net_grows_def)
    with ms show ?thesis by (intro exI [of _ "ms @ ms'"]) simp
  qed
  with assms show ?thesis by (simp add: net_grows_def)
qed

lemma net_grows_enqueue:
  assumes "peers n' = peers n" "events n' = events n" "net_name n' = net_name n" "length (conns n') = length (conns n)"
    and "\<And>i. i < length (conns n) \<Longrightarrow> conns n' ! i = conns n ! i \<or> conns n' ! i = enqueue m (conns n ! i)" "\<not> greets m"
  shows "net_grows n n'"
proof -
  have "\<exists>ms. conns n' ! i = (conns n ! i)\<lparr>out_queue := out_queue (conns n ! i) @ ms\<rparr> \<and> list_all (\<lambda>m. \<not> greets m) ms"
    if i: "i < length (conns n)" for i
  proof (cases "conns n' ! i = conns n ! i")
    case True
    then show ?thesis by (intro exI [of _ "[]"]) simp
  next
    case False
    with assms(5) [OF i] assms(6) show ?thesis by (intro exI [of _ "[m]"]) (simp add: enqueue_def split: if_splits)
  qed
  with assms(1-4) show ?thesis by (simp add: net_grows_def)
qed

lemma net_grows_send: "\<not> greets m \<Longrightarrow> net_grows n (send_to a m n)"
  by (rule net_grows_enqueue [where m = m]) (auto simp: send_to_nth)

lemma net_grows_broadcast: "net_ok name n \<Longrightarrow> \<not> greets m \<Longrightarrow> net_grows n (broadcast m n)"
  by (rule net_grows_enqueue [where m = m]) (auto simp: broadcast_nth)

lemma net_grows_height: "net_grows n (set_height h n)"
  by (auto simp: net_grows_def set_height_def intro!: exI [of _ "[]"])

lemma net_ok_grows:
  assumes "net_grows n n'" "net_ok name n"
  shows "net_ok name n'"
proof (rule net_ok_conns [OF assms(2)])
  show "conn_addr (conns n' ! i) = conn_addr (conns n ! i) \<and> conn_ok name (conns n' ! i)" if i: "i < length (conns n)" for i
  proof -
    obtain ms where "conns n' ! i = (conns n ! i)\<lparr>out_queue := out_queue (conns n ! i) @ ms\<rparr>"
      using net_growsD [OF assms(1) i] by blast
    with net_ok_nth [OF assms(2) i] show ?thesis by (simp add: conn_ok_def split: phase.splits)
  qed
qed (use assms net_ok_distinct [OF assms(2)] in \<open>simp_all add: net_grows_def\<close>)

lemma outcome_grows:
  assumes "net_ok name (anet app)"
  shows "net_grows (anet app) (anet (handle_outcome E b oc app))"
proof (cases oc)
  case (Accepted x h re rq)
  have "net_grows (anet app) (broadcast (NewBlock b) (set_height h (anet app)))"
    by (rule net_grows_trans [OF net_grows_height net_grows_broadcast [OF net_ok_grows [OF net_grows_height assms]]]) simp
  then show ?thesis by (simp add: Accepted handle_outcome_def Let_def)
qed (use net_grows_broadcast [OF assms] in \<open>simp_all add: handle_outcome_def\<close>)

lemma children_grow:
  "retry_children E cs q app = Some (q', app') \<Longrightarrow> net_ok name (anet app) \<Longrightarrow> net_grows (anet app) (anet app')"
proof (induction cs arbitrary: q app)
  case (Cons c cs)
  obtain r ch where sub: "submit_block E (achain app) c = Some (r, ch)"
    using Cons.prems(1) by (auto split: option.splits)
  show ?case
  proof (cases r)
    case (Inl e)
    with Cons.prems sub Cons.IH [of q "app\<lparr>achain := ch\<rparr>"] show ?thesis by simp
  next
    case (Inr oc)
    have g: "net_grows (anet app) (anet (handle_outcome E c oc (app\<lparr>achain := ch\<rparr>)))"
      using outcome_grows [of name "app\<lparr>achain := ch\<rparr>"] Cons.prems(2) by simp
    have "net_grows (anet (handle_outcome E c oc (app\<lparr>achain := ch\<rparr>))) (anet app')"
      using Cons.prems(1) sub Inr by (intro Cons.IH [OF _ net_ok_grows [OF g Cons.prems(2)]]) auto
    with g show ?thesis by (rule net_grows_trans)
  qed
qed simp

lemma cascade_grows:
  assumes "cascade E q app = Some app'"
  shows "net_ok name (anet app) \<longrightarrow> net_grows (anet app) (anet app')"
proof (rule cascade.raw_induct [OF _ assms])
  fix casc E' q app0 y
  assume IH: "\<And>E q app y. casc E q app = Some y \<Longrightarrow> net_ok name (anet app) \<longrightarrow> net_grows (anet app) (anet y)"
    and body: "(case q of [] \<Rightarrow> Some app0
      | x # queue' \<Rightarrow>
          (case map_of (orphans app0) x of None \<Rightarrow> casc E' queue' app0
           | Some children \<Rightarrow>
               (case retry_children E' children queue' (app0\<lparr>orphans := AList.delete x (orphans app0)\<rparr>) of
                  None \<Rightarrow> None
                | Some (queue'', app') \<Rightarrow> casc E' queue'' app'))) = Some y"
  show "net_ok name (anet app0) \<longrightarrow> net_grows (anet app0) (anet y)"
  proof (cases q)
    case (Cons x q1)
    show ?thesis
    proof (cases "map_of (orphans app0) x")
      case None
      with body Cons IH show ?thesis by simp
    next
      case (Some cs)
      let ?app1 = "app0\<lparr>orphans := AList.delete x (orphans app0)\<rparr>"
      obtain q2 app2 where r: "retry_children E' cs q1 ?app1 = Some (q2, app2)" "casc E' q2 app2 = Some y"
        using body Cons Some by (auto split: option.splits)
      show ?thesis
      proof
        assume ok: "net_ok name (anet app0)"
        have g: "net_grows (anet app0) (anet app2)" using children_grow [OF r(1)] ok by simp
        with IH [OF r(2)] net_ok_grows [OF g ok] show "net_grows (anet app0) (anet y)"
          using net_grows_trans by blast
      qed
    qed
  qed (use body in simp)
qed

lemma accept_grows:
  assumes "accept_and_broadcast E b app = Some (r, app')" "net_ok name (anet app)"
  shows "net_grows (anet app) (anet app')"
proof -
  obtain s c where sub: "submit_block E (achain app) b = Some (s, c)"
    using assms(1) by (auto simp: accept_and_broadcast_def split: option.splits)
  show ?thesis
  proof (cases s)
    case (Inl e)
    with assms(1) sub show ?thesis by (auto simp: accept_and_broadcast_def)
  next
    case (Inr oc)
    have g: "net_grows (anet app) (anet (handle_outcome E b oc (app\<lparr>achain := c\<rparr>)))"
      using outcome_grows [of name "app\<lparr>achain := c\<rparr>"] assms(2) by simp
    note ok = net_ok_grows [OF g assms(2)]
    show ?thesis
    proof (cases oc)
      case (Accepted x h re rq)
      with assms(1) sub Inr have "cascade E [x] (handle_outcome E b oc (app\<lparr>achain := c\<rparr>)) = Some app'"
        by (auto simp: accept_and_broadcast_def Let_def split: option.splits)
      from cascade_grows [OF this, of name] ok net_grows_trans [OF g] show ?thesis by blast
    qed (use assms(1) sub Inr g in \<open>auto simp: accept_and_broadcast_def Let_def\<close>)
  qed
qed

lemma event_grows:
  assumes "on_event E ev app = Some app'" "net_ok name (anet app)"
  shows "net_grows (anet app) (anet app')"
  using assms accept_grows [OF _ assms(2), of E]
  by (auto simp: on_event_def net_grows_broadcast net_grows_send split: network_event.splits option.splits if_splits)

lemma rebroadcast_grows:
  assumes "net_ok name (anet app)"
  shows "net_grows (anet app) (anet (rebroadcast app))"
proof -
  have "net_grows n (fold (\<lambda>tx. broadcast (NewTransaction tx)) txs n)" if "net_ok name n" for txs n
    using that
  proof (induction txs arbitrary: n)
    case (Cons tx txs)
    show ?case
      using net_grows_trans [OF net_grows_broadcast [OF Cons.prems] Cons.IH [OF net_ok_broadcast [OF Cons.prems]]] by simp
  qed simp
  with assms show ?thesis by (simp add: rebroadcast_def)
qed

section \<open>Two connected nodes\<close>

text \<open>
  The ends of the connection are entries of the connection tables of the two nodes. The field \<open>wire\<close> of a
  connection holds all that was written to it, so each node counts how much of the other's it has read.
\<close>

record node_pair =
  near :: app
  far :: app
  near_conn :: nat
  far_conn :: nat
  near_read :: nat
  far_read :: nat

definition turn :: "node_pair \<Rightarrow> node_pair" where
  "turn p = \<lparr>near = far p, far = near p, near_conn = far_conn p, far_conn = near_conn p, near_read = far_read p, far_read = near_read p\<rparr>"

abbreviation link_of :: "app \<Rightarrow> nat \<Rightarrow> conn" where
  "link_of app i \<equiv> conns (anet app) ! i"

text \<open>
  What the first node does for the connection: write to it, read from it, and take its next event. And what else it
  may do: hear any message of another peer, announce its pending transactions again, and serve requests.
\<close>

inductive link_moves :: "'a env_scheme \<Rightarrow> node_pair \<Rightarrow> node_pair \<Rightarrow> bool" for E :: "'a env_scheme" where
  writes: "link_moves E p (p\<lparr>near := with_net (write_round (near_conn p) True) (near p)\<rparr>)"
| reads: "near_read p < length (wire (link_of (far p) (far_conn p))) \<Longrightarrow>
    link_moves E p (p\<lparr>near := with_net (read_round (near_conn p) (Inr (wire (link_of (far p) (far_conn p)) ! near_read p))) (near p),
      near_read := Suc (near_read p)\<rparr>)"
| takes: "events (anet (near p)) = ev # evs \<Longrightarrow> on_event E ev (with_net (\<lambda>n. n\<lparr>events := evs\<rparr>) (near p)) = Some app \<Longrightarrow>
    link_moves E p (p\<lparr>near := app\<rparr>)"

inductive near_moves :: "'a env_scheme \<Rightarrow> node_pair \<Rightarrow> node_pair \<Rightarrow> bool" for E :: "'a env_scheme" where
  connection: "link_moves E p p' \<Longrightarrow> near_moves E p p'"
| hears: "k < length (conns (anet (near p))) \<Longrightarrow> conn_phase (link_of (near p) k) = Running \<Longrightarrow>
    (\<And>v nm h. m = Handshake v nm h \<Longrightarrow> nm = net_name (anet (near p))) \<Longrightarrow>
    near_moves E p (p\<lparr>near := with_net (read_round k (Inr m)) (near p)\<rparr>)"
| announces: "near_moves E p (p\<lparr>near := rebroadcast (near p)\<rparr>)"
| gives_work: "rpc_get_work E now query (near p) = Some (r, app) \<Longrightarrow> near_moves E p (p\<lparr>near := app\<rparr>)"
| gets_block: "rpc_submit_block E b (near p) = Some (r, app) \<Longrightarrow> near_moves E p (p\<lparr>near := app\<rparr>)"
| gets_tx: "rpc_submit_tx E tx (near p) = (r, app) \<Longrightarrow> near_moves E p (p\<lparr>near := app\<rparr>)"

text \<open>The two nodes with everything around them, and the two nodes and their connection alone.\<close>

definition pair_step :: "'a env_scheme \<Rightarrow> node_pair \<Rightarrow> node_pair \<Rightarrow> bool" where
  "pair_step E p p' \<longleftrightarrow> near_moves E p p' \<or> near_moves E (turn p) (turn p')"

definition link_step :: "'a env_scheme \<Rightarrow> node_pair \<Rightarrow> node_pair \<Rightarrow> bool" where
  "link_step E p p' \<longleftrightarrow> link_moves E p p' \<or> link_moves E (turn p) (turn p')"

lemma link_step_pair: "link_step E p p' \<Longrightarrow> pair_step E p p'"
  by (auto simp: link_step_def pair_step_def intro: near_moves.connection)

text \<open>What one node has put on the connection: what it has written and what it has queued.\<close>

definition travel :: "app \<Rightarrow> nat \<Rightarrow> message list" where
  "travel app i = wire (link_of app i) @ out_queue (link_of app i)"

definition names_ok :: "string \<Rightarrow> message list \<Rightarrow> bool" where
  "names_ok name ms \<longleftrightarrow> list_all (\<lambda>m. case m of Handshake v nm h \<Rightarrow> nm = name | _ \<Rightarrow> True) ms"

definition side_ok :: "string \<Rightarrow> app \<Rightarrow> nat \<Rightarrow> bool" where
  "side_ok name app i \<longleftrightarrow> net_ok name (anet app) \<and> i \<in> snd ` set (peers (anet app)) \<and>
     conn_phase (link_of app i) = Running \<and> rx_open (link_of app i) \<and> names_ok name (travel app i)"

definition linked :: "string \<Rightarrow> node_pair \<Rightarrow> bool" where
  "linked name p \<longleftrightarrow> side_ok name (near p) (near_conn p) \<and> side_ok name (far p) (far_conn p) \<and>
     near_read p \<le> length (wire (link_of (far p) (far_conn p))) \<and>
     far_read p \<le> length (wire (link_of (near p) (near_conn p)))"

text \<open>The copies of a transaction that are on their way: on the connection, or received and not handled.\<close>

definition sent_copies :: "transaction \<Rightarrow> app \<Rightarrow> nat \<Rightarrow> nat \<Rightarrow> nat" where
  "sent_copies tx app i n = count_list (drop n (travel app i)) (NewTransaction tx)"

definition got_copies :: "transaction \<Rightarrow> app \<Rightarrow> nat" where
  "got_copies tx app = count_list (events (anet app)) (NewTransactionEvent tx)"

definition copies :: "transaction \<Rightarrow> node_pair \<Rightarrow> nat" where
  "copies tx p = sent_copies tx (near p) (near_conn p) (far_read p) + got_copies tx (near p) +
     (sent_copies tx (far p) (far_conn p) (near_read p) + got_copies tx (far p))"

section \<open>One node moves\<close>

lemma side_index: "side_ok name app i \<Longrightarrow> i < length (conns (anet app))"
  by (auto simp: side_ok_def net_ok_def)

lemma names_ok_append [simp]: "names_ok name (xs @ ys) \<longleftrightarrow> names_ok name xs \<and> names_ok name ys"
  by (simp add: names_ok_def)

lemma grown_side:
  assumes "net_grows (anet app) (anet app')" "side_ok name app i"
  shows "side_ok name app' i \<and> wire (link_of app' i) = wire (link_of app i) \<and> got_copies tx app' = got_copies tx app \<and>
    (\<exists>ms. travel app' i = travel app i @ ms)"
proof -
  obtain ms where ms: "link_of app' i = (link_of app i)\<lparr>out_queue := out_queue (link_of app i) @ ms\<rparr>" "list_all (\<lambda>m. \<not> greets m) ms"
    using net_growsD [OF assms(1) side_index [OF assms(2)]] by blast
  then have tr: "travel app' i = travel app i @ ms" by (simp add: travel_def)
  have "names_ok name ms" using ms(2) by (auto simp: names_ok_def list_all_iff greets_def split: message.splits)
  with assms(2) net_ok_grows [OF assms(1)] ms tr assms(1) show ?thesis
    by (auto simp: side_ok_def got_copies_def net_grows_def)
qed

lemma sent_more: "travel app' i = travel app i @ ms \<Longrightarrow> sent_copies tx app i n \<le> sent_copies tx app' i n"
  by (simp add: sent_copies_def)

lemma wrote_side:
  assumes "side_ok name app i"
  shows "side_ok name (with_net (write_round i True) app) i \<and> travel (with_net (write_round i True) app) i = travel app i \<and>
    got_copies tx (with_net (write_round i True) app) = got_copies tx app \<and>
    (\<exists>ms. wire (link_of (with_net (write_round i True) app) i) = wire (link_of app i) @ ms)"
proof -
  have i: "i < length (conns (anet app))" "i \<in> set (map snd (peers (anet app)))"
    using side_index [OF assms] assms by (simp_all add: side_ok_def)
  have "net_step (anet app) (write_round i True (anet app))"
    using assms i(1) by (intro net_step.wrote) (simp_all add: side_ok_def)
  then have ok: "net_ok name (write_round i True (anet app))" using assms net_ok_step by (auto simp: side_ok_def)
  show ?thesis
    using assms i ok by (cases "out_queue (link_of app i)")
      (auto simp: side_ok_def travel_def write_round_def update_conn_nth got_copies_def)
qed

lemma emitted_side:
  assumes "side_ok name app i"
  shows "side_ok name (with_net (emit_event ev) app) i \<and> travel (with_net (emit_event ev) app) i = travel app i \<and>
    wire (link_of (with_net (emit_event ev) app) i) = wire (link_of app i) \<and>
    got_copies tx (with_net (emit_event ev) app) = got_copies tx app + (if ev = NewTransactionEvent tx then 1 else 0)"
  using assms by (auto simp: side_ok_def travel_def got_copies_def net_ok_def) (simp_all add: emit_event_def)

lemma read_side:
  assumes "side_ok name app i" "names_ok name [m]"
  shows "side_ok name (with_net (read_round k (Inr m)) app) i \<and>
    wire (link_of (with_net (read_round k (Inr m)) app) i) = wire (link_of app i) \<and>
    got_copies tx (with_net (read_round k (Inr m)) app) = got_copies tx app + (if m = NewTransaction tx then 1 else 0) \<and>
    (\<exists>ms. travel (with_net (read_round k (Inr m)) app) i = travel app i @ ms)"
proof -
  have emits: ?thesis if "with_net (read_round k (Inr m)) app = with_net (emit_event ev) app"
      "ev = NewTransactionEvent tx \<longleftrightarrow> m = NewTransaction tx" for ev
    using emitted_side [OF assms(1), of ev tx] that by auto
  have grows: ?thesis if "net_grows (anet app) (anet (with_net (read_round k (Inr m)) app))" "m \<noteq> NewTransaction tx"
    using grown_side [OF that(1) assms(1), of tx] that(2) by simp
  show ?thesis
  proof (cases m)
    case (Handshake v nm h)
    then show ?thesis using assms
      by (intro grows) (simp_all add: read_round_def handle_message_def Let_def names_ok_def side_ok_def net_ok_def)
  next
    case (NewBlock b)
    then show ?thesis by (intro emits [of "NewBlockEvent b"]) (simp_all add: read_round_def handle_message_def Let_def with_net_def)
  next
    case (NewTransaction t)
    then show ?thesis by (intro emits [of "NewTransactionEvent t"]) (simp_all add: read_round_def handle_message_def Let_def with_net_def)
  next
    case (GetBlock x)
    then show ?thesis by (intro emits [of "GetBlockRequest (conn_addr (link_of app k)) x"])
        (simp_all add: read_round_def handle_message_def Let_def with_net_def)
  next
    case (BlockResponse r)
    then show ?thesis by (intro emits [of "BlockResponseEvent r"]) (simp_all add: read_round_def handle_message_def Let_def with_net_def)
  next
    case Ping
    then show ?thesis by (intro grows) (simp_all add: read_round_def handle_message_def Let_def net_grows_send)
  next
    case Pong
    then show ?thesis by (intro grows) (simp_all add: read_round_def handle_message_def Let_def)
  qed
qed

text \<open>Taking an event: if it is the transaction, a new copy goes out.\<close>

lemma took_side:
  assumes "side_ok name app i" "events (anet app) = ev # evs" "is_signature_valid E tx"
    and "on_event E ev (with_net (\<lambda>n. n\<lparr>events := evs\<rparr>) app) = Some app'"
  shows "side_ok name app' i \<and> wire (link_of app' i) = wire (link_of app i) \<and>
    (\<exists>ms. travel app' i = travel app i @ ms \<and>
       got_copies tx app \<le> count_list ms (NewTransaction tx) + got_copies tx app')"
proof -
  let ?app0 = "with_net (\<lambda>n. n\<lparr>events := evs\<rparr>) app"
  have side: "side_ok name ?app0 i" using assms(1) by (simp add: side_ok_def net_ok_def travel_def)
  have got: "got_copies tx app = (if ev = NewTransactionEvent tx then 1 else 0) + got_copies tx ?app0"
    using assms(2) by (simp add: got_copies_def)
  have g: "net_grows (anet ?app0) (anet app')" using event_grows [OF assms(4)] side by (auto simp: side_ok_def)
  obtain ms where ms: "side_ok name app' i" "wire (link_of app' i) = wire (link_of ?app0 i)"
    "got_copies tx app' = got_copies tx ?app0" "travel app' i = travel ?app0 i @ ms"
    using grown_side [OF g side] by blast
  have "1 \<le> count_list ms (NewTransaction tx)" if ev: "ev = NewTransactionEvent tx"
  proof -
    have app': "app' = with_net (broadcast (NewTransaction tx)) (with_state (mempool_insert E tx) ?app0)"
      using assms(3,4) ev by (simp add: on_event_def)
    have "i < length (conns (anet ?app0))" using side_index [OF side] .
    then have "out_queue (link_of app' i) = out_queue (link_of ?app0 i) @ [NewTransaction tx]"
      using side broadcast_nth [of name "anet ?app0" i "NewTransaction tx"] by (simp add: app' side_ok_def enqueue_def)
    with ms(2,4) have "ms = [NewTransaction tx]" by (simp add: travel_def)
    then show ?thesis by simp
  qed
  with ms got show ?thesis by (auto simp: travel_def)
qed

section \<open>The pair moves\<close>

text \<open>One lemma for every move: what the first node has sent only grows, and no copy is lost.\<close>

lemma near_changed:
  assumes "linked name p" "side_ok name app (near_conn p)"
    and "wire (link_of app (near_conn p)) = wire (link_of (near p) (near_conn p)) @ ws"
    and "travel app (near_conn p) = travel (near p) (near_conn p) @ ms"
    and "got_copies tx (near p) \<le> count_list ms (NewTransaction tx) + got_copies tx app"
  shows "linked name (p\<lparr>near := app\<rparr>) \<and> copies tx p \<le> copies tx (p\<lparr>near := app\<rparr>)"
proof -
  have "far_read p \<le> length (travel (near p) (near_conn p))" using assms(1) by (simp add: linked_def travel_def)
  then have "sent_copies tx app (near_conn p) (far_read p) =
      sent_copies tx (near p) (near_conn p) (far_read p) + count_list ms (NewTransaction tx)"
    by (simp add: sent_copies_def assms(4))
  with assms show ?thesis by (simp add: linked_def copies_def)
qed

lemma near_grown:
  assumes "linked name p" "net_grows (anet (near p)) (anet app)"
  shows "linked name (p\<lparr>near := app\<rparr>) \<and> copies tx p \<le> copies tx (p\<lparr>near := app\<rparr>)"
proof -
  have side: "side_ok name (near p) (near_conn p)" using assms(1) by (simp add: linked_def)
  from grown_side [OF assms(2) side, of tx] obtain ms where "side_ok name app (near_conn p)"
    "wire (link_of app (near_conn p)) = wire (link_of (near p) (near_conn p))" "got_copies tx app = got_copies tx (near p)"
    "travel app (near_conn p) = travel (near p) (near_conn p) @ ms"
    by blast
  then show ?thesis by (intro near_changed [OF assms(1), where ws = "[]"]) simp_all
qed

lemma near_reads:
  assumes "linked name p" "near_read p < length (wire (link_of (far p) (far_conn p)))"
    and p': "p' = p\<lparr>near := with_net (read_round (near_conn p) (Inr (wire (link_of (far p) (far_conn p)) ! near_read p))) (near p),
      near_read := Suc (near_read p)\<rparr>"
  shows "linked name p' \<and> copies tx p \<le> copies tx p'"
proof -
  let ?m = "wire (link_of (far p) (far_conn p)) ! near_read p" and ?t = "travel (far p) (far_conn p)"
  have "?m \<in> set ?t" using assms(2) by (simp add: travel_def)
  then have "names_ok name [?m]" using assms(1) by (auto simp: linked_def side_ok_def names_ok_def list_all_iff)
  from read_side [OF _ this, of "near p" "near_conn p" "near_conn p" tx] obtain ms where side:
    "side_ok name (near p') (near_conn p)" "wire (link_of (near p') (near_conn p)) = wire (link_of (near p) (near_conn p))"
    "got_copies tx (near p') = got_copies tx (near p) + (if ?m = NewTransaction tx then 1 else 0)"
    "travel (near p') (near_conn p) = travel (near p) (near_conn p) @ ms"
    using assms(1) by (auto simp: linked_def p')
  have "drop (near_read p) ?t = ?m # drop (Suc (near_read p)) ?t"
    using assms(2) Cons_nth_drop_Suc [of "near_read p" ?t] by (simp add: travel_def nth_append)
  then have "sent_copies tx (far p) (far_conn p) (near_read p) =
      (if ?m = NewTransaction tx then 1 else 0) + sent_copies tx (far p) (far_conn p) (Suc (near_read p))"
    by (simp add: sent_copies_def)
  with side sent_more [OF side(4), of tx "far_read p"] assms(1,2) show ?thesis
    by (simp add: linked_def copies_def p')
qed

lemma link_moves_keep:
  assumes "link_moves E p p'" "linked name p" "is_signature_valid E tx"
  shows "linked name p' \<and> copies tx p \<le> copies tx p'"
proof -
  have side: "side_ok name (near p) (near_conn p)" using assms(2) by (simp add: linked_def)
  from assms(1) show ?thesis
  proof (cases rule: link_moves.cases)
    case writes
    from wrote_side [OF side, of tx] show ?thesis
      unfolding writes by (elim conjE exE, intro near_changed [OF assms(2), where ms = "[]"]) simp_all
  next
    case reads
    from near_reads [OF assms(2) reads(2,1)] show ?thesis .
  next
    case (takes ev evs app)
    from took_side [OF side takes(2) assms(3) takes(3)] show ?thesis
      unfolding takes(1) by (elim conjE exE, intro near_changed [OF assms(2), where ws = "[]"]) simp_all
  qed
qed

lemma near_moves_keep:
  assumes "near_moves E p p'" "linked name p" "is_signature_valid E tx"
  shows "linked name p' \<and> copies tx p \<le> copies tx p'"
proof -
  have side: "side_ok name (near p) (near_conn p)" and ok: "net_ok name (anet (near p))"
    using assms(2) by (simp_all add: linked_def side_ok_def)
  from assms(1) show ?thesis
  proof (cases rule: near_moves.cases)
    case connection
    then show ?thesis by (rule link_moves_keep [OF _ assms(2,3)])
  next
    case (hears k m)
    have "names_ok name [m]" using hears(4) side by (simp add: names_ok_def side_ok_def net_ok_def split: message.split)
    from read_side [OF side this, of k tx] show ?thesis
      unfolding hears(1) by (elim conjE exE, intro near_changed [OF assms(2), where ws = "[]"]) simp_all
  next
    case announces
    show ?thesis unfolding announces by (rule near_grown [OF assms(2) rebroadcast_grows [OF ok]])
  next
    case (gives_work now query r app)
    have "anet app = anet (near p)" using gives_work(2) by (rule rpc_get_work_cases) simp_all
    then show ?thesis unfolding gives_work(1) by (intro near_grown [OF assms(2)]) simp
  next
    case (gets_block b r app)
    obtain r' where "accept_and_broadcast E b (near p) = Some (r', app)"
      using gets_block(2) by (auto simp: rpc_submit_block_def split: option.splits sum.splits)
    from accept_grows [OF this ok] show ?thesis unfolding gets_block(1) by (rule near_grown [OF assms(2)])
  next
    case (gets_tx t r app)
    have "net_grows (anet (near p)) (anet app)"
      using gets_tx(2) net_grows_broadcast [OF ok] by (auto simp: rpc_submit_tx_def split: if_splits)
    then show ?thesis unfolding gets_tx(1) by (rule near_grown [OF assms(2)])
  qed
qed

lemma turn_simps [simp]: "turn (turn p) = p" "linked name (turn p) = linked name p" "copies tx (turn p) = copies tx p"
  by (auto simp: turn_def linked_def copies_def)

lemma pair_step_keeps:
  assumes "pair_step E p p'" "linked name p" "is_signature_valid E tx"
  shows "linked name p' \<and> copies tx p \<le> copies tx p'"
  using assms(1) near_moves_keep [OF _ assms(2,3), of p'] near_moves_keep [of E "turn p" "turn p'" name tx] assms(2,3)
  by (auto simp: pair_step_def)

text \<open>
  C33. A transaction travels for ever. While two nodes stay connected, whatever both of them do, take from other
  peers and are asked, the copies of a validly signed transaction that are on their way between them or wait
  to be handled never become fewer: a node passes on what it receives whether it has it already or not.
\<close>

theorem gossip_never_ends:
  assumes "(pair_step E)\<^sup>*\<^sup>* p p'" "linked name p" "is_signature_valid E tx"
  shows "linked name p' \<and> copies tx p \<le> copies tx p'"
  using assms(1)
proof (induction rule: rtranclp_induct)
  case (step q r)
  with pair_step_keeps [OF step.hyps(2) _ assms(3)] show ?case by (meson le_trans)
qed (use assms(2) in simp)

section \<open>A copy arrives\<close>

text \<open>Both nodes are runs of a node: every move is one or two steps of it.\<close>

definition pair_run :: "'a env_scheme \<Rightarrow> genesis_config \<Rightarrow> node_pair \<Rightarrow> bool" where
  "pair_run E gen p \<longleftrightarrow> node_run E gen (near p) \<and> node_run E gen (far p)"

lemma moved_net_run: "node_run E gen app \<Longrightarrow> net_step (anet app) n \<Longrightarrow> node_run E gen (app\<lparr>anet := n\<rparr>)"
  by (rule node_run.stepped [OF _ node_step.network_moved])

lemma link_moves_run:
  assumes "link_moves E p p'" "linked name p" "node_run E gen (near p)"
  shows "node_run E gen (near p') \<and> far p' = far p"
proof -
  have side: "near_conn p < length (conns (anet (near p)))" "conn_phase (link_of (near p) (near_conn p)) = Running"
    "rx_open (link_of (near p) (near_conn p))"
    using assms(2) side_index by (auto simp: linked_def side_ok_def)
  from assms(1) show ?thesis
  proof (cases rule: link_moves.cases)
    case writes
    then show ?thesis using moved_net_run [OF assms(3) net_step.wrote [OF side]] by (simp add: with_net_def)
  next
    case reads
    then show ?thesis using moved_net_run [OF assms(3) net_step.received [OF side(1,2)]] by (simp add: with_net_def)
  next
    case (takes ev evs app)
    have "node_run E gen (with_net (\<lambda>n. n\<lparr>events := evs\<rparr>) (near p))"
      using moved_net_run [OF assms(3) net_step.event_taken [OF takes(2)]] by (simp add: with_net_def)
    from node_run.stepped [OF this node_step.event [OF takes(3)]] show ?thesis by (simp add: takes(1))
  qed
qed

lemma near_moves_run:
  assumes "near_moves E p p'" "linked name p" "node_run E gen (near p)"
  shows "node_run E gen (near p') \<and> far p' = far p"
proof -
  from assms(1) show ?thesis
  proof (cases rule: near_moves.cases)
    case connection
    then show ?thesis by (rule link_moves_run [OF _ assms(2,3)])
  next
    case (hears k m)
    then show ?thesis using moved_net_run [OF assms(3) net_step.received [OF hears(2,3)]] by (simp add: with_net_def)
  next
    case announces
    then show ?thesis using node_run.stepped [OF assms(3) node_step.tick] by simp
  next
    case (gives_work now query r app)
    then show ?thesis using node_run.stepped [OF assms(3) node_step.work_asked [OF gives_work(2)]] by simp
  next
    case (gets_block b r app)
    then show ?thesis using node_run.stepped [OF assms(3) node_step.block_posted [OF gets_block(2)]] by simp
  next
    case (gets_tx t r app)
    then show ?thesis using node_run.stepped [OF assms(3) node_step.tx_posted [OF gets_tx(2)]] by simp
  qed
qed

lemma pair_step_run:
  assumes "pair_step E p p'" "linked name p" "pair_run E gen p"
  shows "pair_run E gen p'"
proof -
  consider "near_moves E p p'" | "near_moves E (turn p) (turn p')" using assms(1) by (auto simp: pair_step_def)
  then show ?thesis
  proof cases
    case 1
    with near_moves_run [OF 1 assms(2), of gen] assms(3) show ?thesis by (simp add: pair_run_def)
  next
    case 2
    with near_moves_run [OF 2, of name gen] assms(2,3) show ?thesis by (simp add: pair_run_def) (simp add: turn_def)
  qed
qed

lemma pair_steps_keep:
  assumes "(pair_step E)\<^sup>*\<^sup>* p p'" "linked name p" "pair_run E gen p" "is_signature_valid E tx"
  shows "linked name p' \<and> pair_run E gen p' \<and> copies tx p \<le> copies tx p'"
  using assms(1)
proof (induction rule: rtranclp_induct)
  case (step q r)
  with pair_step_keeps [OF step.hyps(2) _ assms(4)] pair_step_run [OF step.hyps(2)] show ?case by (meson le_trans)
qed (use assms(2,3) in simp)

lemma link_steps_pair: "(link_step E)\<^sup>*\<^sup>* p p' \<Longrightarrow> (pair_step E)\<^sup>*\<^sup>* p p'"
  by (induction rule: rtranclp_induct) (auto intro: rtranclp.rtrancl_into_rtrancl link_step_pair)

lemma turned_steps:
  assumes "(link_step E)\<^sup>*\<^sup>* p p'"
  shows "(link_step E)\<^sup>*\<^sup>* (turn p) (turn p')"
  using assms
proof (induction rule: rtranclp_induct)
  case (step q r)
  from step.hyps(2) have "link_step E (turn q) (turn r)" by (auto simp: link_step_def)
  with step.IH show ?case by simp
qed simp

definition is_pending :: "transaction \<Rightarrow> app \<Rightarrow> bool" where
  "is_pending tx app \<longleftrightarrow> tx \<in> set (mempool_all (cstate (achain app)))"

text \<open>A copy that a node has received: the events before it are handled, then the transaction is pending.\<close>

lemma received_arrives:
  assumes hyps: "hash_sizes E" "supply_capped E gen" "is_signature_valid E tx"
  shows "linked name p \<Longrightarrow> pair_run E gen p \<Longrightarrow> NewTransactionEvent tx \<in> set (events (anet (near p))) \<Longrightarrow>
    \<exists>p'. (link_step E)\<^sup>*\<^sup>* p p' \<and> is_pending tx (near p')"
proof (induction "length (events (anet (near p)))" arbitrary: p)
  case (Suc n)
  then obtain ev evs where ev: "events (anet (near p)) = ev # evs" by (cases "events (anet (near p))") auto
  let ?app = "with_net (\<lambda>n. n\<lparr>events := evs\<rparr>) (near p)"
  have inv: "node_inv E gen (near p)" using node_run_inv [OF _ hyps(1,2)] Suc.prems(2) by (simp add: pair_run_def)
  then have inv0: "node_inv E gen ?app" by (simp add: node_inv_def)
  obtain app where app: "on_event E ev ?app = Some app" using on_event_total [OF inv0 hyps(1,2)] by blast
  have step: "link_step E p (p\<lparr>near := app\<rparr>)"
    using link_moves.takes [OF ev app] by (simp add: link_step_def)
  show ?case
  proof (cases "ev = NewTransactionEvent tx")
    case True
    then have app': "app = with_net (broadcast (NewTransaction tx)) (with_state (mempool_insert E tx) ?app)"
      using app hyps(3) by (simp add: on_event_def)
    have "mempool_ok E (cstate (achain (near p)))"
      using reachable_all [OF _ hyps(1,2)] inv by (simp add: node_inv_def)
    then have "is_pending tx app"
      using pending_transactions_by_hash [of E "cstate (achain (near p))" tx] by (simp add: is_pending_def app')
    with step show ?thesis by (intro exI [of _ "p\<lparr>near := app\<rparr>"]) auto
  next
    case False
    have "events (anet app) = evs"
      using event_grows [OF app, of "network_name gen"] inv0 by (simp add: node_inv_def net_grows_def)
    then have "\<exists>p'. (link_step E)\<^sup>*\<^sup>* (p\<lparr>near := app\<rparr>) p' \<and> is_pending tx (near p')"
      using Suc.hyps(2) Suc.prems ev False pair_step_keeps [OF link_step_pair [OF step] Suc.prems(1) hyps(3)] pair_step_run [OF link_step_pair [OF step] Suc.prems(1,2)]
      by (intro Suc.hyps(1)) auto
    with step show ?thesis by (meson converse_rtranclp_into_rtranclp)
  qed
qed simp

text \<open>A copy that is on the wire is read, after what was written before it.\<close>

lemma written_arrives:
  assumes hyps: "hash_sizes E" "supply_capped E gen" "is_signature_valid E tx"
  shows "linked name p \<Longrightarrow> pair_run E gen p \<Longrightarrow> near_read p \<le> q \<Longrightarrow> q < length (wire (link_of (far p) (far_conn p))) \<Longrightarrow>
    wire (link_of (far p) (far_conn p)) ! q = NewTransaction tx \<Longrightarrow>
    \<exists>p'. (link_step E)\<^sup>*\<^sup>* p p' \<and> is_pending tx (near p')"
proof (induction "q - near_read p" arbitrary: p)
  case (0 p)
  let ?m = "wire (link_of (far p) (far_conn p)) ! near_read p"
  let ?p = "p\<lparr>near := with_net (read_round (near_conn p) (Inr ?m)) (near p), near_read := Suc (near_read p)\<rparr>"
  have q: "near_read p < length (wire (link_of (far p) (far_conn p)))" "?m = NewTransaction tx" using 0 by simp_all
  have step: "link_step E p ?p" using link_moves.reads [OF q(1), of E] by (simp add: link_step_def)
  have "names_ok name [?m]" by (simp add: q(2) names_ok_def)
  from read_side [OF _ this, of "near p" "near_conn p" "near_conn p" tx]
  have "got_copies tx (near ?p) = got_copies tx (near p) + 1" using 0 q(2) by (simp add: linked_def)
  then have "0 < count_list (events (anet (near ?p))) (NewTransactionEvent tx)" by (simp add: got_copies_def)
  then have "NewTransactionEvent tx \<in> set (events (anet (near ?p)))" using count_notin by fastforce
  from received_arrives [OF hyps _ _ this] pair_step_keeps [OF link_step_pair [OF step] 0(2) hyps(3)] pair_step_run [OF link_step_pair [OF step] 0(2,3)]
  obtain p' where "(link_step E)\<^sup>*\<^sup>* ?p p'" "is_pending tx (near p')" by blast
  with step show ?case by (meson converse_rtranclp_into_rtranclp)
next
  case (Suc n p)
  let ?p = "p\<lparr>near := with_net (read_round (near_conn p) (Inr (wire (link_of (far p) (far_conn p)) ! near_read p))) (near p),
      near_read := Suc (near_read p)\<rparr>"
  have step: "link_step E p ?p" using link_moves.reads [of p E] Suc.hyps(2) Suc.prems(4) by (simp add: link_step_def)
  have "\<exists>p'. (link_step E)\<^sup>*\<^sup>* ?p p' \<and> is_pending tx (near p')"
    using Suc.prems Suc.hyps(2) pair_step_keeps [OF link_step_pair [OF step] Suc.prems(1) hyps(3)] pair_step_run [OF link_step_pair [OF step] Suc.prems(1,2)]
    by (intro Suc.hyps(1)) auto
  with step show ?case by (meson converse_rtranclp_into_rtranclp)
qed

text \<open>A copy that is queued is written first.\<close>

lemma sent_arrives:
  assumes hyps: "hash_sizes E" "supply_capped E gen" "is_signature_valid E tx"
  shows "linked name p \<Longrightarrow> pair_run E gen p \<Longrightarrow> 0 < sent_copies tx (far p) (far_conn p) (near_read p) \<Longrightarrow>
    \<exists>p'. (link_step E)\<^sup>*\<^sup>* p p' \<and> is_pending tx (near p')"
proof (induction "length (out_queue (link_of (far p) (far_conn p)))" arbitrary: p)
  case (0 p)
  let ?w = "wire (link_of (far p) (far_conn p))"
  have "NewTransaction tx \<in> set (drop (near_read p) ?w)"
    using 0 count_notin by (fastforce simp: sent_copies_def travel_def)
  then obtain i where "i < length ?w - near_read p" "?w ! (near_read p + i) = NewTransaction tx"
    by (auto simp: in_set_conv_nth)
  then show ?case using 0 by (intro written_arrives [OF hyps, where q = "near_read p + i"]) auto
next
  case (Suc n p)
  let ?far = "with_net (write_round (far_conn p) True) (far p)" and ?i = "far_conn p"
  let ?p = "p\<lparr>far := ?far\<rparr>"
  have "link_moves E (turn p) (turn ?p)" using link_moves.writes [of E "turn p"] by (simp add: turn_def)
  then have step: "link_step E p ?p" by (simp add: link_step_def)
  have side: "side_ok name (far p) ?i" using Suc.prems(1) by (simp add: linked_def)
  have "length (out_queue (link_of ?far ?i)) = n"
    using Suc.hyps(2) side_index [OF side] by (cases "out_queue (link_of (far p) ?i)") (auto simp: write_round_def update_conn_nth)
  moreover have "0 < sent_copies tx ?far ?i (near_read p)"
    using Suc.prems(3) wrote_side [OF side, of tx] by (simp add: sent_copies_def)
  ultimately have "\<exists>p'. (link_step E)\<^sup>*\<^sup>* ?p p' \<and> is_pending tx (near p')"
    using pair_step_keeps [OF link_step_pair [OF step] Suc.prems(1) hyps(3)] pair_step_run [OF link_step_pair [OF step] Suc.prems(1,2)] by (intro Suc.hyps(1)) auto
  with step show ?case by (meson converse_rtranclp_into_rtranclp)
qed

lemma copy_arrives:
  assumes hyps: "hash_sizes E" "supply_capped E gen" "is_signature_valid E tx" and p: "linked name p" "pair_run E gen p" "0 < copies tx p"
  shows "\<exists>p'. (link_step E)\<^sup>*\<^sup>* p p' \<and> (is_pending tx (near p') \<or> is_pending tx (far p'))"
proof -
  have one: "\<exists>p'. (link_step E)\<^sup>*\<^sup>* q p' \<and> is_pending tx (near p')"
    if "linked name q" "pair_run E gen q" "0 < got_copies tx (near q) \<or> 0 < sent_copies tx (far q) (far_conn q) (near_read q)" for q
  proof (cases "0 < got_copies tx (near q)")
    case True
    then have "NewTransactionEvent tx \<in> set (events (anet (near q)))" using count_notin by (fastforce simp: got_copies_def)
    from received_arrives [OF hyps that(1,2) this] show ?thesis .
  next
    case False
    then have "0 < sent_copies tx (far q) (far_conn q) (near_read q)" using that(3) by linarith
    from sent_arrives [OF hyps that(1,2) this] show ?thesis .
  qed
  show ?thesis
  proof (cases "0 < got_copies tx (near p) \<or> 0 < sent_copies tx (far p) (far_conn p) (near_read p)")
    case True
    obtain p' where "(link_step E)\<^sup>*\<^sup>* p p'" "is_pending tx (near p')" using one [OF p(1,2) True] by (elim exE conjE)
    then show ?thesis by (intro exI [of _ p'] conjI disjI1)
  next
    case False
    then have far: "0 < got_copies tx (near (turn p)) \<or> 0 < sent_copies tx (far (turn p)) (far_conn (turn p)) (near_read (turn p))"
      using p(3) by (simp add: copies_def turn_def) linarith
    have t: "linked name (turn p)" "pair_run E gen (turn p)" using p(1,2) by (simp, simp add: pair_run_def turn_def)
    obtain p' where p': "(link_step E)\<^sup>*\<^sup>* (turn p) p'" "is_pending tx (near p')" using one [OF t far] by (elim exE conjE)
    from turned_steps [OF p'(1)] have "(link_step E)\<^sup>*\<^sup>* p (turn p')" by simp
    moreover have "is_pending tx (far (turn p'))" using p'(2) by (simp add: turn_def)
    ultimately show ?thesis by (intro exI [of _ "turn p'"] conjI disjI2)
  qed
qed

lemma mined_unreplayable:
  assumes "node_run E gen app" "hash_sizes E" "supply_capped E gen" "is_pending tx app"
    and "tx_room E gen (cstate (achain app))" "canonical E gen (cstate (achain app)) obs" "(y, b) \<in> set obs" "tx \<in> set (transactions b)"
  shows "spec_txs E (mempool_all (cstate (achain app))) (read_ledger (get_account (cstate (achain app)))) = None"
proof -
  have reach: "reachable E gen (achain app)" using node_run_inv [OF assms(1-3)] by (simp add: node_inv_def)
  note rep = canonical_replays [OF reachable_inv [OF reach assms(2,3)] assms(6,5)]
  have "b \<in> set (map snd obs)" using assms(7) by force
  from spec_blocks_used [OF rep this assms(8)] assms(4) show ?thesis
    by (intro stale_nonce_unreplayable) (simp_all add: is_pending_def)
qed

text \<open>
  C27. A mined transaction comes back. Two nodes stay connected and a transaction has been passed on once. After
  whatever they did in the meantime, with any other peers and requests, no one has to send the transaction
  again: by what travels on their connection alone, written, read and handled, it becomes pending on one of
  them. If that node has it in a block of its canonical branch by then, its pending transactions replay no
  more, which is what stalls the mining from its templates for ever.
\<close>

theorem mined_transaction_comes_back:
  assumes "hash_sizes E" "supply_capped E gen" "is_signature_valid E tx" "linked name p" "pair_run E gen p"
    and "0 < copies tx p" "(pair_step E)\<^sup>*\<^sup>* p p1"
  shows "\<exists>p2 app. (link_step E)\<^sup>*\<^sup>* p1 p2 \<and> app \<in> {near p2, far p2} \<and> node_run E gen app \<and> is_pending tx app \<and>
    (\<forall>obs y b. tx_room E gen (cstate (achain app)) \<and> canonical E gen (cstate (achain app)) obs \<and> (y, b) \<in> set obs \<and>
       tx \<in> set (transactions b) \<longrightarrow>
       spec_txs E (mempool_all (cstate (achain app))) (read_ledger (get_account (cstate (achain app)))) = None)"
proof -
  have p1: "linked name p1" "pair_run E gen p1" "0 < copies tx p1"
    using pair_steps_keep [OF assms(7,4,5,3)] assms(6) by auto
  obtain p2 where p2: "(link_step E)\<^sup>*\<^sup>* p1 p2" "is_pending tx (near p2) \<or> is_pending tx (far p2)"
    using copy_arrives [OF assms(1-3) p1] by blast
  have "pair_run E gen p2" using pair_steps_keep [OF link_steps_pair [OF p2(1)] p1(1,2) assms(3)] by blast
  with p2 obtain app where "app \<in> {near p2, far p2}" "node_run E gen app" "is_pending tx app"
    by (auto simp: pair_run_def)
  with p2(1) mined_unreplayable [OF _ assms(1,2)] show ?thesis by blast
qed

section \<open>The example as a pair\<close>

definition sample_end :: "socket_addr \<Rightarrow> app" where
  "sample_end a = with_net (greet_peer 0 True) (with_net (register_peer a) sample_app)"

definition sample_pair :: node_pair where
  "sample_pair = \<lparr>near = posted (sample_tx 0) (sample_end ''f''), far = sample_end ''n'', near_conn = 0, far_conn = 0,
     near_read = 0, far_read = 0\<rparr>"

lemma sample_end_net: "anet (sample_end a) =
    \<lparr>peers = [(a, 0)], conns = [\<lparr>conn_addr = a, conn_phase = Running, out_queue = [], rx_open = True,
       wire = [Handshake PROTOCOL_VERSION ''s'' 0]\<rparr>], events = [PeerConnected a], net_name = ''s'', my_height = 0\<rparr>"
  by (simp add: sample_end_def sample_app_def register_peer_def new_network_def set_height_def greet_peer_def update_conn_def
      emit_event_def)

lemma sample_end_run: "node_run sample_env sample_gen (sample_end a)"
proof -
  let ?app = "with_net (register_peer a) sample_app"
  have "node_run sample_env sample_gen ?app"
    using moved_net_run [OF sample_app_run net_step.registered] by (simp add: with_net_def)
  moreover have "net_step (anet ?app) (greet_peer 0 True (anet ?app))"
    by (rule net_step.greeted) (simp_all add: sample_app_def register_peer_def new_network_def set_height_def emit_event_def)
  ultimately show ?thesis using moved_net_run by (fastforce simp: sample_end_def with_net_def)
qed

lemma sample_pair_ok:
  "linked ''s'' sample_pair" "pair_run sample_env sample_gen sample_pair" "copies (sample_tx 0) sample_pair = 1"
proof -
  have net: "anet (posted (sample_tx 0) (sample_end a)) = broadcast (NewTransaction (sample_tx 0)) (anet (sample_end a))" for a
    by (simp add: posted_valid [OF sample_tx_valid])
  note eval = sample_pair_def net sample_end_net broadcast_def chan_send_def update_conn_def
  show "linked ''s'' sample_pair"
    by (simp add: linked_def side_ok_def net_ok_def conn_ok_def names_ok_def travel_def eval)
  show "pair_run sample_env sample_gen sample_pair"
    by (simp add: pair_run_def sample_pair_def posted_run sample_end_run)
  show "copies (sample_tx 0) sample_pair = 1"
    by (simp add: copies_def sent_copies_def got_copies_def travel_def eval)
qed

theorem gossip_never_ends_witness:
  "\<exists>p. pair_step sample_env sample_pair p \<and> linked ''s'' p \<and> 1 \<le> copies (sample_tx 0) p"
proof -
  let ?p = "sample_pair\<lparr>near := rebroadcast (near sample_pair)\<rparr>"
  have step: "pair_step sample_env sample_pair ?p" by (simp add: pair_step_def near_moves.announces)
  from gossip_never_ends [OF r_into_rtranclp [of "pair_step sample_env", OF step] sample_pair_ok(1) sample_tx_valid [of 0]]
    sample_pair_ok(3) have "linked ''s'' ?p \<and> 1 \<le> copies (sample_tx 0) ?p" by simp
  with step show ?thesis by blast
qed

theorem mined_transaction_comes_back_witness:
  "\<exists>p app. (link_step sample_env)\<^sup>*\<^sup>* sample_pair p \<and> app \<in> {near p, far p} \<and> node_run sample_env sample_gen app \<and>
     is_pending (sample_tx 0) app"
proof -
  have "0 < copies (sample_tx 0) sample_pair" by (simp add: sample_pair_ok(3))
  from mined_transaction_comes_back [OF sample_env_laws(1) sample_capped sample_tx_valid sample_pair_ok(1,2) this rtranclp.rtrancl_refl]
  show ?thesis by blast
qed

end
