(* ===== verification/Catch_Up.thy ===== *)
theory Catch_Up
  imports Gossip Consensus
begin

text \<open>
  How a node that is behind gets the blocks that it has missed. Blocks arrive in any order; one whose parent
  is missing is buffered and its parent asked for. Here two nodes are compared: \<open>late\<close>, whose canonical branch
  is \<open>obs\<close>, and \<open>ahead\<close>, whose canonical branch goes on with the blocks \<open>ms\<close>.
\<close>

section \<open>Stored blocks are filed under their own hash\<close>

lemma submit_on_parent_blocks:
  assumes "submit_on_parent E c b x p = Some (r, c')" "get_block (cstate c') y = Some k"
  shows "get_block (cstate c) y = Some k \<or> y = x \<and> k = b"
proof -
  have tip: "get_block s' = get_block s" if "reconsider_tip E gen s old new h = Some (r', s')" for gen s old new h r' s'
    using that by (auto simp: reconsider_tip_def Let_def commit_simps fun_eq_iff split: option.splits sum.splits)
  show ?thesis
    using assms tip
    by (auto simp: submit_on_parent_def Let_def state_simps split: if_splits sum.splits option.splits prod.splits)
qed

lemma submit_block_blocks:
  assumes "submit_block E c b = Some (r, c')" "get_block (cstate c') y = Some k" "get_block (cstate c) y = None"
  shows "k = b \<and> 0 < height (header b) \<and>
    (\<exists>ds c1. dataset_for_height E c (height (header b)) = Some (Inr ds, c1) \<and> header_id E (header b) ds = Some y)"
  using assms
  by (auto simp: submit_block_def Let_def dest!: dataset_state submit_on_parent_blocks
      split: if_splits sum.splits option.splits prod.splits)

text \<open>On every run the dataset of all stored blocks but genesis is the one of epoch 0.\<close>

definition filed_by_id :: "'a env_scheme \<Rightarrow> genesis_config \<Rightarrow> chain_state \<Rightarrow> bool" where
  "filed_by_id E gen s \<longleftrightarrow> (\<forall>x b. get_block s x = Some b \<longrightarrow> x \<noteq> genesis_block_hash E gen \<longrightarrow>
     0 < height (header b) \<and> (\<forall>ds. generate E 0 (epoch_seed E None) = Some ds \<longrightarrow> header_id E (header b) ds = Some x))"

lemma reachable_filed:
  assumes "reachable E gen c" "hash_sizes E" "supply_capped E gen"
  shows "filed_by_id E gen (cstate c)"
  using assms(1)
proof (induction rule: reachable.induct)
  case (opened c)
  obtain r s where rs: "init_genesis E gen empty_state = (r, s)" by (cases "init_genesis E gen empty_state")
  with opened have s: "cstate c = s" "init_genesis E gen empty_state = (Inr (), s)"
    by (auto simp: chain_open_def empty_state_fields split: sum.splits unit.splits)
  from s(2) have "get_block s x = (if x = genesis_block_hash E gen then Some (genesis_block gen) else None)" for x
    by (auto simp: init_genesis_def Let_def state_simps credit_all_fields empty_state_fields split: sum.splits)
  then show ?case by (simp add: filed_by_id_def s(1))
next
  case (reopened c c')
  then have "c' = \<lparr>cstate = cstate c, cgenesis = gen, dataset_cache = None\<rparr>"
    using chain_open_again [of "cstate c" E gen] chain_inv_tip [OF reachable_inv [OF _ assms(2,3)]] by simp
  with reopened.IH show ?case by simp
next
  case (submitted c b r c')
  note reach = submitted.hyps(1) assms(2,3)
  note ep = first_epoch_dataset [OF reachable_inv [OF reach] reachable_first_epoch [OF reach]]
  show ?case
    unfolding filed_by_id_def
  proof (intro allI impI)
    fix x k assume k: "get_block (cstate c') x = Some k" "x \<noteq> genesis_block_hash E gen"
    show "0 < height (header k) \<and> (\<forall>ds. generate E 0 (epoch_seed E None) = Some ds \<longrightarrow> header_id E (header k) ds = Some x)"
    proof (cases "get_block (cstate c) x")
      case None
      from submit_block_blocks [OF submitted.hyps(2) k(1) None] show ?thesis
        by (auto simp: ep split: if_splits option.splits)
    next
      case (Some k')
      have "keeps_blocks (cstate c) (cstate c')" using submit_facts [OF reach, of b] submitted.hyps(2) by auto
      with Some k(1) have "k' = k" by (simp add: keeps_blocks_def)
      with Some submitted.IH k(2) show ?thesis by (simp add: filed_by_id_def)
    qed
  qed
next
  case (templated c now a txs r c')
  then show ?case using template_mempool by metis
qed (simp_all add: filed_by_id_def state_simps)

section \<open>The blocks of the longer chain\<close>

text \<open>The difficulty due on a block depends on the branch it ends only, not on what else is stored.\<close>

lemma ancestor_agree:
  assumes "get_block s g = get_block t g"
  shows "branch s g x bs \<Longrightarrow> branch t g x bs \<Longrightarrow> get_block s x = Some p \<Longrightarrow> n \<le> length bs \<Longrightarrow>
    block_ancestor s p n = block_ancestor t p n"
proof (induction n arbitrary: x p bs)
  case (Suc n)
  then obtain b cs where bs: "bs = cs @ [(x, b)]" "branch s g (prev_hash (header b)) cs" "get_block s x = Some b"
    by (cases rule: branch.cases [OF Suc.prems(1)]) auto
  have t: "branch t g (prev_hash (header b)) cs" using Suc.prems(2) by (simp add: bs(1) branch_snoc)
  obtain q where q: "get_block s (prev_hash (header b)) = Some q" using branch_stored [OF bs(2)] by blast
  have "get_block t (prev_hash (header b)) = Some q"
  proof (cases "cs = []")
    case True
    with bs(2) q assms show ?thesis by (simp add: branch_Nil)
  next
    case False
    then have "cs ! (length cs - 1) = (prev_hash (header b), snd (last cs))"
      using branch_last [OF bs(2)] by (simp add: last_conv_nth prod_eq_iff)
    with False branch_nth [OF bs(2) _ this] branch_nth [OF t _ this] q show ?thesis by simp
  qed
  with Suc.IH [OF bs(2) t q] Suc.prems(3,4) bs q show ?case by simp
qed simp

lemma difficulty_agree:
  assumes "get_block s g = get_block t g" "branch s g x bs" "branch t g x bs" "get_block s x = Some p"
  shows "difficulty_due gen s p = difficulty_due gen t p"
proof (cases "height (header p) + 1 \<le> max (retarget_window gen) 1")
  case False
  then have "height (header p) + 1 \<noteq> 0" by auto
  then have "unat (height (header p) + 1) = Suc (length bs)"
    using branch_height [OF assms(2,4)] unatSuc [of "height (header p)"] by (simp add: add.commute)
  then have "unat (max (retarget_window gen) 1) \<le> length bs" using False by (simp add: word_le_nat_alt)
  from ancestor_agree [OF assms(1-4) this] show ?thesis
    by (simp add: difficulty_due_def expected_difficulty_after_def Let_def split: option.split)
qed (simp add: difficulty_due_def expected_difficulty_after_def Let_def)

text \<open>What makes a block of a canonical branch acceptable on top of the blocks below it.\<close>

definition sound_block :: "'a env_scheme \<Rightarrow> genesis_config \<Rightarrow> dataset \<Rightarrow> hash256 \<Rightarrow> block \<Rightarrow> bool" where
  "sound_block E gen ds x b \<longleftrightarrow> header_id E (header b) ds = Some x \<and> 0 < height (header b) \<and>
     height (header b) < EPOCH_LENGTH \<and> 0 < difficulty (header b) \<and> tx_root (header b) = compute_tx_root E b \<and>
     meets_target x (target_for_difficulty (difficulty (header b))) \<and> list_all (is_signature_valid E) (transactions b)"

definition good_branch :: "'a env_scheme \<Rightarrow> genesis_config \<Rightarrow> dataset \<Rightarrow> chain_state \<Rightarrow> block_chain \<Rightarrow> bool" where
  "good_branch E gen ds t bs \<longleftrightarrow> generate E 0 (epoch_seed E None) = Some ds \<and>
     get_block t (genesis_block_hash E gen) = Some (genesis_block gen) \<and>
     (\<exists>y. branch t (genesis_block_hash E gen) y bs) \<and> replays E gen bs \<and> tx_count (map snd bs) < 2 ^ 64 \<and>
     (\<forall>(x, b) \<in> set bs. sound_block E gen ds x b \<and>
        (\<exists>p. get_block t (prev_hash (header b)) = Some p \<and> difficulty_due gen t p = Inr (difficulty (header b))))"

lemma reachable_difficulty:
  assumes "reachable E gen c" "hash_sizes E" "supply_capped E gen" "0 < initial_difficulty gen"
    and "expected_difficulty_after c p = Inr d"
  shows "0 < d"
  using assms(4,5) reachable_gen [OF assms(1-3)]
  by (auto simp: expected_difficulty_after_def Let_def next_difficulty_def word_gt_0 max_def split: if_splits option.splits)

lemma reachable_good_branch:
  assumes reach: "reachable E gen c" "hash_sizes E" "supply_capped E gen" and pos: "0 < initial_difficulty gen"
    and room: "tx_room E gen (cstate c)" and can: "canonical E gen (cstate c) bs"
  obtains ds where "good_branch E gen ds (cstate c) bs"
proof -
  let ?g = "genesis_block_hash E gen"
  have inv: "chain_inv E gen (cstate c)" by (rule reachable_inv [OF reach])
  then have tree: "block_tree E gen (cstate c)" by (simp add: chain_inv_def)
  obtain y where br: "branch (cstate c) ?g y bs" using can by (auto simp: canonical_def)
  obtain ds where ds: "generate E 0 (epoch_seed E None) = Some ds" "wf_dataset ds"
    using generate_total [OF reach(2), of 0 "epoch_seed E None"] by blast
  have "sound_block E gen ds x b \<and> (\<exists>p. get_block (cstate c) (prev_hash (header b)) = Some p \<and>
      difficulty_due gen (cstate c) p = Inr (difficulty (header b)))" if "(x, b) \<in> set bs" for x b
  proof -
    from that obtain n where n: "n < length bs" "bs ! n = (x, b)" unfolding in_set_conv_nth by blast
    have blk: "get_block (cstate c) x = Some b" "unat (height (header b)) = Suc n" using branch_nth [OF br n] by simp_all
    have "x \<noteq> ?g" using tree blk by (auto simp: block_tree_def)
    with tree blk have chk: "checked E gen (cstate c) x b" by (simp add: block_tree_def)
    then obtain p where p: "get_block (cstate c) (prev_hash (header b)) = Some p"
      "difficulty_due gen (cstate c) p = Inr (difficulty (header b))" by (auto simp: checked_def)
    have "0 < difficulty (header b)"
      using reachable_difficulty [OF reach pos] p(2) reachable_gen [OF reach] difficulty_due_chain [of c p] by simp
    moreover have "height (header b) < EPOCH_LENGTH" using reachable_first_epoch [OF reach] blk(1) by (auto simp: first_epoch_def)
    ultimately show ?thesis
      using chk p reachable_filed [OF reach] blk(1) ds(1) \<open>x \<noteq> ?g\<close> by (auto simp: sound_block_def checked_def filed_by_id_def)
  qed
  moreover have "tx_count (map snd bs) < 2 ^ 64" using room br by (auto simp: tx_room_def)
  ultimately have "good_branch E gen ds (cstate c) bs"
    using ds(1) tree br canonical_heaviest(1) [OF reach room can] by (auto simp: good_branch_def block_tree_def)
  then show thesis by (rule that)
qed

lemma replays_prefix: "replays E gen (as @ bs) \<Longrightarrow> replays E gen as"
  by (auto simp: replays_def spec_blocks_append split: option.splits)

lemma good_branch_prefix:
  assumes "good_branch E gen ds t (as @ bs)"
  shows "good_branch E gen ds t as"
proof -
  obtain y where "branch t (genesis_block_hash E gen) y (as @ bs)" using assms by (auto simp: good_branch_def)
  from branch_take [OF this, of "length as"] assms replays_prefix [of E gen as bs] show ?thesis
    by (auto simp: good_branch_def)
qed

section \<open>One block is handed to a node\<close>

text \<open>A node on a given branch. What waits and what is pending does not matter.\<close>

definition on_branch :: "'a env_scheme \<Rightarrow> genesis_config \<Rightarrow> app \<Rightarrow> block_chain \<Rightarrow> bool" where
  "on_branch E gen app obs \<longleftrightarrow> node_inv E gen app \<and> canonical E gen (cstate (achain app)) obs \<and>
     tx_room E gen (cstate (achain app))"

lemma canonical_cong:
  assumes "get_block s' = get_block s" "tip s' = tip s" "get_hash_by_height s' = get_hash_by_height s"
  shows "canonical E gen s' obs \<longleftrightarrow> canonical E gen s obs" "tx_room E gen s' \<longleftrightarrow> tx_room E gen s"
  using branch_cong [OF assms(1)] by (simp_all add: canonical_def tx_room_def assms)

lemma mempool_fold_heights:
  "get_hash_by_height (fold (\<lambda>tx. mempool_remove (tx_hash E tx)) txs s) = get_hash_by_height s"
  "get_hash_by_height (fold (mempool_insert E) txs s) = get_hash_by_height s"
  by (induction txs arbitrary: s) (simp_all add: state_simps [abs_def] fun_eq_iff)

lemma handled_branch:
  "canonical E gen (cstate (achain (handle_outcome E b oc app))) obs \<longleftrightarrow> canonical E gen (cstate (achain app)) obs"
  "tx_room E gen (cstate (achain (handle_outcome E b oc app))) \<longleftrightarrow> tx_room E gen (cstate (achain app))"
proof -
  have "get_hash_by_height (cstate (achain (handle_outcome E b oc app))) = get_hash_by_height (cstate (achain app))"
    by (simp add: handle_outcome_def Let_def mempool_fold_heights split: submit_outcome.split)
  note canonical_cong [OF handle_outcome_frame(1,2) this]
  then show "canonical E gen (cstate (achain (handle_outcome E b oc app))) obs \<longleftrightarrow> canonical E gen (cstate (achain app)) obs"
    "tx_room E gen (cstate (achain (handle_outcome E b oc app))) \<longleftrightarrow> tx_room E gen (cstate (achain app))"
    by blast+
qed

lemma on_branchD:
  assumes "on_branch E gen app obs"
  shows "node_inv E gen app" "reachable E gen (achain app)" "canonical E gen (cstate (achain app)) obs"
    "tx_room E gen (cstate (achain app))" "net_ok (network_name gen) (anet app)" "orphans_ok (orphans app)"
    "pending_signed E (cstate (achain app))"
  using assms by (simp_all add: on_branch_def node_inv_def)

text \<open>The same block again, and a block whose parent has not arrived, whatever is stored.\<close>

lemma submit_checked_block:
  assumes "reachable E gen c" "hash_sizes E" "supply_capped E gen"
    and "generate E 0 (epoch_seed E None) = Some ds" "sound_block E gen ds x b"
  shows "get_block (cstate c) x \<noteq> None \<Longrightarrow> submit_block E c b = Some (Inr AlreadyKnown, c\<lparr>dataset_cache := Some (0, ds)\<rparr>)"
    and "get_block (cstate c) x = None \<Longrightarrow> get_block (cstate c) (prev_hash (header b)) = None \<Longrightarrow>
      submit_block E c b = Some (Inr (Orphan (prev_hash (header b))), c\<lparr>dataset_cache := Some (0, ds)\<rparr>)"
proof -
  have "dataset_for_height E c (height (header b)) = Some (Inr ds, c\<lparr>dataset_cache := Some (0, ds)\<rparr>)"
    using first_epoch_dataset [OF reachable_inv [OF assms(1-3)] reachable_first_epoch [OF assms(1-3)]] assms(4,5)
    by (simp add: sound_block_def)
  then show "get_block (cstate c) x \<noteq> None \<Longrightarrow> submit_block E c b = Some (Inr AlreadyKnown, c\<lparr>dataset_cache := Some (0, ds)\<rparr>)"
    "get_block (cstate c) x = None \<Longrightarrow> get_block (cstate c) (prev_hash (header b)) = None \<Longrightarrow>
      submit_block E c b = Some (Inr (Orphan (prev_hash (header b))), c\<lparr>dataset_cache := Some (0, ds)\<rparr>)"
    using assms(5) by (auto simp: submit_block_def Let_def sound_block_def has_block_iff)
qed

text \<open>What a block of a good branch asks of its parent, the parent has wherever it is stored on the same branch.\<close>

lemma parent_agrees:
  assumes reach: "reachable E gen c" "hash_sizes E" "supply_capped E gen"
    and br: "branch (cstate c) (genesis_block_hash E gen) x0 obs" and good: "good_branch E gen ds t (obs @ [(x, b)])"
  shows "prev_hash (header b) = x0 \<and> unat (height (header b)) = Suc (length obs) \<and>
    (\<exists>p. get_block (cstate c) x0 = Some p \<and> height (header p) + 1 = height (header b) \<and>
       expected_difficulty_after c p = Inr (difficulty (header b)))"
proof -
  let ?g = "genesis_block_hash E gen" and ?s = "cstate c"
  obtain p where p: "get_block ?s x0 = Some p" "unat (height (header p)) = length obs" using branch_stored [OF br] by blast
  obtain y where "branch t ?g y (obs @ [(x, b)])" using good by (auto simp: good_branch_def)
  then have tb: "branch t ?g (prev_hash (header b)) obs" "unat (height (header b)) = Suc (length obs)"
    by (auto simp: branch_snoc)
  have x0: "prev_hash (header b) = x0" using branch_last [OF tb(1)] branch_last [OF br] by simp
  obtain q where q: "get_block t x0 = Some q" "difficulty_due gen t q = Inr (difficulty (header b))"
    using good by (auto simp: good_branch_def x0)
  have root: "get_block ?s ?g = get_block t ?g"
    using good reachable_inv [OF reach] by (simp add: good_branch_def chain_inv_def block_tree_def)
  have "q = p"
  proof (cases "obs = []")
    case True
    with tb br x0 q(1) p(1) root show ?thesis by (simp add: branch_Nil)
  next
    case False
    then have "obs ! (length obs - 1) = (x0, snd (last obs))"
      using branch_last [OF br] by (simp add: last_conv_nth prod_eq_iff)
    with False branch_nth [OF br _ this] branch_nth [OF tb(1) _ this] p(1) q(1) show ?thesis by simp
  qed
  with difficulty_agree [OF root br _ p(1)] tb(1) x0 q(2)
  have "expected_difficulty_after c p = Inr (difficulty (header b))"
    using reachable_gen [OF reach] difficulty_due_chain [of c p] by simp
  moreover have "height (header p) + 1 = height (header b)"
    using arg_cong [OF tb(2) [folded p(2)], of "of_nat :: nat \<Rightarrow> u64"] by (simp add: add.commute)
  ultimately show ?thesis using p(1) x0 tb(2) by blast
qed

text \<open>The next block of a good branch is accepted on top of the blocks below it.\<close>

lemma accept_next:
  assumes at: "on_branch E gen app obs" and hyps: "hash_sizes E" "supply_capped E gen"
    and good: "good_branch E gen ds t (obs @ [(x, b)])" and fresh: "get_block (cstate (achain app)) x = None"
  shows "\<exists>c h. submit_block E (achain app) b = Some (Inr (Accepted x h False []), c) \<and>
    on_branch E gen (handle_outcome E b (Accepted x h False []) (app\<lparr>achain := c\<rparr>)) (obs @ [(x, b)]) \<and>
    get_block (cstate c) = (get_block (cstate (achain app)))(x \<mapsto> b)"
proof -
  let ?s = "cstate (achain app)"
  note d = on_branchD [OF at] note reach = d(2) hyps
  have inv: "chain_inv E gen ?s" by (rule reachable_inv [OF reach])
  obtain h x0 where tip: "tip ?s = Some (h, x0)" "branch ?s (genesis_block_hash E gen) x0 obs" "unat h = length obs"
    using d(3) by (auto simp: canonical_def)
  obtain p where p: "prev_hash (header b) = x0" "get_block ?s x0 = Some p" "height (header p) + 1 = height (header b)"
    "expected_difficulty_after (achain app) p = Inr (difficulty (header b))"
    using parent_agrees [OF reach tip(2) good] by blast
  have "height (header p) = h" using branch_height [OF tip(2) p(2)] tip(3) by (simp add: word_unat_eq_iff)
  with p(3) have hb: "height (header b) = h + 1" by simp
  have sound: "sound_block E gen ds x b" and ds: "generate E 0 (epoch_seed E None) = Some ds"
    using good by (auto simp: good_branch_def)
  have "tx_count (map snd obs @ [b]) < 2 ^ 64" "spec_blocks E gen (map snd obs @ [b]) (genesis_ledger E gen) \<noteq> None"
    using good by (simp_all add: good_branch_def replays_def)
  then obtain c where c: "submit_block E (achain app) b = Some (Inr (Accepted x (h + 1) False []), c)"
    "reachable E gen c" "canonical E gen (cstate c) (obs @ [(x, b)])" "stores E gen ?s x b (obs @ [(x, b)]) (cstate c)"
    using extend_tip [OF reach d(3) tip(1) ds _ fresh p(1) hb _ p(2,4)] sound d(4) hb
    by (auto simp: sound_block_def)
  have room: "tx_room E gen (cstate c)" by (rule tx_room_store [OF d(4) c(4) inv]) (use good in \<open>simp add: good_branch_def\<close>)
  have mem: "mempool (cstate c) = mempool ?s" using c(4) by (simp add: stores_def)
  have "node_inv E gen (handle_outcome E b (Accepted x (h + 1) False []) (app\<lparr>achain := c\<rparr>))"
    by (rule handle_outcome_inv [OF c(2) d(5,6)]) (use d(7) pending_signed_mempool [OF mem, of E] in auto)
  then have "on_branch E gen (handle_outcome E b (Accepted x (h + 1) False []) (app\<lparr>achain := c\<rparr>)) (obs @ [(x, b)])"
    using c(3) room by (simp add: on_branch_def handled_branch)
  with c show ?thesis by (auto simp: stores_def)
qed

section \<open>The blocks that wait\<close>

text \<open>Of the missing blocks, each that has arrived waits under its parent, and nothing else waits there.\<close>

fun filed :: "(hash256 \<times> block list) list \<Rightarrow> block_chain \<Rightarrow> bool" where
  "filed os [] = True"
| "filed os [m] = (map_of os (fst m) = None)"
| "filed os (m # n # ms) =
     ((\<forall>cs. map_of os (fst m) = Some cs \<longrightarrow> cs \<noteq> [] \<and> set cs \<subseteq> {snd n}) \<and> filed os (n # ms))"

definition waiting ::
    "'a env_scheme \<Rightarrow> genesis_config \<Rightarrow> dataset \<Rightarrow> chain_state \<Rightarrow> app \<Rightarrow> block_chain \<Rightarrow> block_chain \<Rightarrow> block set \<Rightarrow> bool" where
  "waiting E gen ds t app obs ms A \<longleftrightarrow> good_branch E gen ds t (obs @ ms) \<and>
     (\<forall>x \<in> fst ` set ms. get_block (cstate (achain app)) x = None) \<and> filed (orphans app) ms \<and>
     (\<forall>(y, c) \<in> set ms. c \<in> A \<longrightarrow> map_of (orphans app) (prev_hash (header c)) \<noteq> None) \<and>
     (ms \<noteq> [] \<longrightarrow> snd (hd ms) \<notin> A)"

definition catching ::
    "'a env_scheme \<Rightarrow> genesis_config \<Rightarrow> dataset \<Rightarrow> chain_state \<Rightarrow> app \<Rightarrow> block_chain \<Rightarrow> block_chain \<Rightarrow> block set \<Rightarrow> bool" where
  "catching E gen ds t app obs ms A \<longleftrightarrow> on_branch E gen app obs \<and> waiting E gen ds t app obs ms A"

lemmas catching_defs = catching_def waiting_def

lemma filed_cong: "(\<And>x. x \<in> fst ` set ms \<Longrightarrow> map_of os' x = map_of os x) \<Longrightarrow> filed os' ms = filed os ms"
  by (induction os ms rule: filed.induct) simp_all

lemma filed_tl: "filed os (m # ms) \<Longrightarrow> filed os ms"
  by (cases ms) simp_all

lemma filed_buffer:
  "filed os (as @ (x, b) # cs) \<Longrightarrow> as \<noteq> [] \<Longrightarrow> distinct (map fst (as @ (x, b) # cs)) \<Longrightarrow>
     filed (buffer_orphan (fst (last as)) b os) (as @ (x, b) # cs)"
proof (induction as)
  case (Cons m as)
  let ?os' = "\<lambda>k. buffer_orphan k b os"
  have other: "map_of (?os' k) y = map_of os y" if "y \<noteq> k" for k y
    using that by (simp add: buffer_orphan_def update_conv')
  show ?case
  proof (cases as)
    case Nil
    have "filed (?os' (fst m)) ((x, b) # cs) = filed os ((x, b) # cs)"
      by (rule filed_cong) (use Cons.prems(3) Nil in \<open>auto intro!: other\<close>)
    with Cons.prems(1) Nil show ?thesis
      by (auto simp: buffer_orphan_def update_conv' split: option.splits)
  next
    case (Cons n as')
    with Cons.IH Cons.prems have "filed (?os' (fst (last as))) (as @ (x, b) # cs)" by simp
    moreover have "fst m \<noteq> fst (last as)" using Cons Cons.prems(3) by auto
    ultimately show ?thesis using Cons.prems(1) by (simp add: Cons other)
  qed
qed simp

lemma good_branch_parent:
  assumes "good_branch E gen ds t (as @ (y, c) # ms)"
  shows "prev_hash (header c) = (if as = [] then genesis_block_hash E gen else fst (last as))"
proof -
  obtain z where "branch t (genesis_block_hash E gen) z (as @ (y, c) # ms)" using assms by (auto simp: good_branch_def)
  from branch_last [OF branch_prefix [OF this, of "length as"]] show ?thesis by simp
qed

lemma good_branch_distinct:
  assumes "good_branch E gen ds t bs"
  shows "distinct (map fst bs)" "distinct (map snd bs)"
proof -
  obtain z where br: "branch t (genesis_block_hash E gen) z bs" using assms by (auto simp: good_branch_def)
  show "distinct (map fst bs)" by (rule branch_distinct [OF br])
  have "distinct (map (unat \<circ> height \<circ> header) (map snd bs))" by (simp only: branch_heights [OF br] distinct_upt)
  then show "distinct (map snd bs)" unfolding distinct_map [of _ "map snd bs"] by blast
qed

lemma cached_branch:
  assumes "on_branch E gen app obs" "reachable E gen c" "cstate c = cstate (achain app)"
  shows "on_branch E gen (app\<lparr>achain := c\<rparr>) obs"
  using assms by (simp add: on_branch_def node_inv_def)

lemma unfiled_branch:
  "on_branch E gen app obs \<Longrightarrow> on_branch E gen (app\<lparr>orphans := AList.delete x (orphans app)\<rparr>) obs"
  by (simp add: on_branch_def node_inv_def orphans_ok_delete)

lemma retry_copies:
  assumes "on_branch E gen app obs" "hash_sizes E" "supply_capped E gen" "generate E 0 (epoch_seed E None) = Some ds"
    and "sound_block E gen ds x b" "get_block (cstate (achain app)) x \<noteq> None" "set cs \<subseteq> {b}"
  shows "\<exists>c. retry_children E cs q app = Some (q, app\<lparr>achain := c\<rparr>) \<and> on_branch E gen (app\<lparr>achain := c\<rparr>) obs \<and>
    cstate c = cstate (achain app)"
  using assms(1,6,7)
proof (induction cs arbitrary: app)
  case Nil
  then show ?case by (intro exI [of _ "achain app"]) simp
next
  case (Cons c cs)
  let ?ch = "(achain app)\<lparr>dataset_cache := Some (0, ds)\<rparr>"
  have sub: "submit_block E (achain app) b = Some (Inr AlreadyKnown, ?ch)"
    by (rule submit_checked_block(1) [OF on_branchD(2) [OF Cons.prems(1)] assms(2-5) Cons.prems(2)])
  have "on_branch E gen (app\<lparr>achain := ?ch\<rparr>) obs"
    by (rule cached_branch [OF Cons.prems(1) reachable.submitted [OF on_branchD(2) [OF Cons.prems(1)] sub]]) simp
  from Cons.IH [OF this] Cons.prems sub show ?case by (auto simp: handle_outcome_def)
qed

text \<open>The cascade goes on as far as the blocks that have arrived follow each other.\<close>

lemma cascade_catches:
  assumes hyps: "hash_sizes E" "supply_capped E gen"
  shows "on_branch E gen app (obs @ [(x, b)]) \<Longrightarrow> good_branch E gen ds t (obs @ (x, b) # ms) \<Longrightarrow>
    \<forall>y \<in> fst ` set ms. get_block (cstate (achain app)) y = None \<Longrightarrow> filed (orphans app) ((x, b) # ms) \<Longrightarrow>
    \<forall>(y, c) \<in> set ms. c \<in> A \<longrightarrow> map_of (orphans app) (prev_hash (header c)) \<noteq> None \<Longrightarrow>
    \<exists>app' us vs. cascade E [x] app = Some app' \<and> ms = us @ vs \<and> catching E gen ds t app' (obs @ (x, b) # us) vs A"
proof (induction ms arbitrary: app obs x b)
  case Nil
  then have "cascade E [x] app = Some app" by (simp add: cascade.simps)
  with Nil show ?case by (simp add: catching_defs)
next
  case (Cons m ms)
  obtain y c where m: "m = (y, c)" by (cases m)
  have par: "prev_hash (header c) = x" using good_branch_parent [of E gen ds t "obs @ [(x, b)]" y c ms] Cons.prems(2) m by simp
  have good: "good_branch E gen ds t ((obs @ [(x, b)]) @ [(y, c)])"
    using good_branch_prefix [of E gen ds t "(obs @ [(x, b)]) @ [(y, c)]" ms] Cons.prems(2) m by simp
  then have ds: "generate E 0 (epoch_seed E None) = Some ds" "sound_block E gen ds y c" by (auto simp: good_branch_def)
  note dist = good_branch_distinct [OF Cons.prems(2)]
  show ?case
  proof (cases "map_of (orphans app) x")
    case None
    then have "cascade E [x] app = Some app" by (simp add: cascade.simps)
    moreover have "catching E gen ds t app (obs @ [(x, b)]) (m # ms) A"
      using Cons.prems filed_tl [OF Cons.prems(4)] par None by (auto simp: catching_defs m)
    ultimately show ?thesis by (intro exI [of _ app] exI [of _ "[]"] exI [of _ "m # ms"]) simp
  next
    case (Some cs)
    then obtain cs' where cs: "cs = c # cs'" "set cs' \<subseteq> {c}" using Cons.prems(4) m by (cases cs) auto
    let ?app0 = "app\<lparr>orphans := AList.delete x (orphans app)\<rparr>"
    have at0: "on_branch E gen ?app0 (obs @ [(x, b)])" by (rule unfiled_branch [OF Cons.prems(1)])
    obtain c1 h where c1: "submit_block E (achain app) c = Some (Inr (Accepted y h False []), c1)"
      "on_branch E gen (handle_outcome E c (Accepted y h False []) (?app0\<lparr>achain := c1\<rparr>)) ((obs @ [(x, b)]) @ [(y, c)])"
      "get_block (cstate c1) = (get_block (cstate (achain app)))(y \<mapsto> c)"
      using accept_next [OF at0 hyps good] Cons.prems(3) m by auto
    let ?app1 = "handle_outcome E c (Accepted y h False []) (?app0\<lparr>achain := c1\<rparr>)"
    have f1: "get_block (cstate (achain ?app1)) = get_block (cstate c1)" "orphans ?app1 = AList.delete x (orphans app)"
      by (simp_all add: handle_outcome_frame)
    then have "get_block (cstate (achain ?app1)) y \<noteq> None" by (simp add: c1(3))
    from retry_copies [OF c1(2) hyps ds this cs(2), of "[y]"] obtain c2 where
      c2: "retry_children E cs' [y] ?app1 = Some ([y], ?app1\<lparr>achain := c2\<rparr>)" "cstate c2 = cstate (achain ?app1)"
      "on_branch E gen (?app1\<lparr>achain := c2\<rparr>) ((obs @ [(x, b)]) @ [(y, c)])" by blast
    let ?app2 = "?app1\<lparr>achain := c2\<rparr>"
    have "retry_children E cs [] ?app0 = Some ([y], ?app2)" using c1(1) c2(1) by (simp add: cs(1))
    then have step: "cascade E [x] app = cascade E [y] ?app2"
      by (subst cascade.simps) (simp add: Some)
    have keys: "map_of (orphans ?app1) z = (if z = x then None else map_of (orphans app) z)" for z
      by (simp add: f1 map_of_delete_eq)
    have fresh: "\<forall>z \<in> fst ` set ms. get_block (cstate (achain ?app2)) z = None"
      using Cons.prems(3) dist(1) m by (auto simp: c2(2) f1(1) c1(3))
    have "filed (orphans ?app2) ((y, c) # ms) = filed (orphans app) ((y, c) # ms)"
      by (rule filed_cong) (use dist(1) m in \<open>auto simp: keys\<close>)
    then have fl: "filed (orphans ?app2) ((y, c) # ms)" using filed_tl [OF Cons.prems(4)] m by simp
    have "map_of (orphans ?app2) (prev_hash (header d)) \<noteq> None" if zd: "(z, d) \<in> set ms" "d \<in> A" for z d
    proof -
      from zd(1) obtain as bs where ms: "ms = as @ (z, d) # bs" by (meson split_list)
      have "prev_hash (header d) \<in> insert y (fst ` set as)"
        using good_branch_parent [of E gen ds t "obs @ (x, b) # (y, c) # as" z d bs] Cons.prems(2) m
        by (cases as rule: rev_cases) (simp_all add: ms)
      then have "prev_hash (header d) \<noteq> x" using dist(1) m by (auto simp: ms)
      with zd Cons.prems(5) show ?thesis by (auto simp: keys)
    qed
    then have wait: "\<forall>(z, d) \<in> set ms. d \<in> A \<longrightarrow> map_of (orphans ?app2) (prev_hash (header d)) \<noteq> None" by blast
    from Cons.IH [OF c2(3) _ fresh fl wait] Cons.prems(2) m obtain app' us vs where
      "cascade E [y] ?app2 = Some app'" "ms = us @ vs" "catching E gen ds t app' ((obs @ [(x, b)]) @ (y, c) # us) vs A"
      by auto
    with step m show ?thesis by (intro exI [of _ app'] exI [of _ "m # us"] exI [of _ vs]) simp
  qed
qed

section \<open>Blocks in any order\<close>

text \<open>A block of the branch that the node has, one that is due, and one whose parent is missing.\<close>

lemma catchingD:
  assumes "catching E gen ds t app obs ms A"
  shows "on_branch E gen app obs" "good_branch E gen ds t (obs @ ms)"
    "\<forall>x \<in> fst ` set ms. get_block (cstate (achain app)) x = None" "filed (orphans app) ms"
    "\<forall>(y, c) \<in> set ms. c \<in> A \<longrightarrow> map_of (orphans app) (prev_hash (header c)) \<noteq> None"
    "ms \<noteq> [] \<longrightarrow> snd (hd ms) \<notin> A"
  using assms by (simp_all add: catching_defs)

lemma waitingD:
  assumes "waiting E gen ds t app obs ms A"
  shows "good_branch E gen ds t (obs @ ms)"
    "\<forall>x \<in> fst ` set ms. get_block (cstate (achain app)) x = None" "filed (orphans app) ms"
    "\<forall>(y, c) \<in> set ms. c \<in> A \<longrightarrow> map_of (orphans app) (prev_hash (header c)) \<noteq> None"
    "ms \<noteq> [] \<longrightarrow> snd (hd ms) \<notin> A"
  using assms by (simp_all add: waiting_def)

lemma known_block_again:
  assumes hyps: "hash_sizes E" "supply_capped E gen"
    and inv: "catching E gen ds t app obs ms A" and old: "(x, b) \<in> set obs"
  shows "\<exists>r app'. accept_and_broadcast E b app = Some (r, app') \<and> catching E gen ds t app' obs ms (insert b A)"
proof -
  note at = catchingD(1) [OF inv] and good = catchingD(2) [OF inv] and fresh = catchingD(3) [OF inv]
    and fl = catchingD(4) [OF inv] and wait = catchingD(5) [OF inv] and first = catchingD(6) [OF inv]
  note reach = on_branchD(2) [OF at] hyps and dist = good_branch_distinct [OF good]
  have ds: "generate E 0 (epoch_seed E None) = Some ds" "sound_block E gen ds x b"
    using good old by (auto simp: good_branch_def)
  obtain n where n: "n < length obs" "obs ! n = (x, b)" using old unfolding in_set_conv_nth by blast
  obtain y where "branch (cstate (achain app)) (genesis_block_hash E gen) y obs"
    using on_branchD(3) [OF at] by (auto simp: canonical_def)
  then have "get_block (cstate (achain app)) x \<noteq> None" using branch_nth [OF _ n] by simp
  from submit_checked_block(1) [OF reach ds this]
  have sub: "submit_block E (achain app) b = Some (Inr AlreadyKnown, (achain app)\<lparr>dataset_cache := Some (0, ds)\<rparr>)" .
  have "on_branch E gen (app\<lparr>achain := (achain app)\<lparr>dataset_cache := Some (0, ds)\<rparr>\<rparr>) obs"
    by (rule cached_branch [OF at reachable.submitted [OF reach(1) sub]]) simp
  moreover have new: "c \<noteq> b" if "(y, c) \<in> set ms" for y c using dist(2) old that by force
  moreover have "ms \<noteq> [] \<longrightarrow> snd (hd ms) \<noteq> b" using new [of "fst (hd ms)" "snd (hd ms)"] by simp
  moreover have "\<forall>(y, c) \<in> set ms. c \<noteq> b" using new by blast
  ultimately have "catching E gen ds t (app\<lparr>achain := (achain app)\<lparr>dataset_cache := Some (0, ds)\<rparr>\<rparr>) obs ms (insert b A)"
    using good fresh fl wait first by (auto simp: catching_defs)
  with sub show ?thesis
    by (intro exI [of _ "Inr AlreadyKnown"] exI [of _ "app\<lparr>achain := (achain app)\<lparr>dataset_cache := Some (0, ds)\<rparr>\<rparr>"])
      (simp add: accept_and_broadcast_def handle_outcome_def)
qed

lemma accept_due:
  assumes hyps: "hash_sizes E" "supply_capped E gen"
    and inv: "catching E gen ds t app obs ms A" and due: "ms = (x, b) # ms'"
  shows "\<exists>r app' us vs. accept_and_broadcast E b app = Some (r, app') \<and> ms' = us @ vs \<and>
    catching E gen ds t app' (obs @ (x, b) # us) vs (insert b A)"
proof -
  note at = catchingD(1) [OF inv] and good = catchingD(2) [OF inv] and fresh = catchingD(3) [OF inv]
    and fl = catchingD(4) [OF inv] and wait = catchingD(5) [OF inv] and first = catchingD(6) [OF inv]
  note reach = on_branchD(2) [OF at] hyps and dist = good_branch_distinct [OF good]
  obtain c h where c: "submit_block E (achain app) b = Some (Inr (Accepted x h False []), c)"
    "on_branch E gen (handle_outcome E b (Accepted x h False []) (app\<lparr>achain := c\<rparr>)) (obs @ [(x, b)])"
    "get_block (cstate c) = (get_block (cstate (achain app)))(x \<mapsto> b)"
    using accept_next [OF at hyps _, of ds t x b] good_branch_prefix [of E gen ds t "obs @ [(x, b)]" ms'] good fresh due by auto
  let ?app1 = "handle_outcome E b (Accepted x h False []) (app\<lparr>achain := c\<rparr>)"
  have fresh1: "\<forall>y \<in> fst ` set ms'. get_block (cstate (achain ?app1)) y = None"
    using fresh dist(1) due by (auto simp: handle_outcome_frame c(3))
  have "(y, b) \<notin> set ms'" for y using dist(2) due by force
  then have wait1: "\<forall>(y, d) \<in> set ms'. d \<in> insert b A \<longrightarrow> map_of (orphans ?app1) (prev_hash (header d)) \<noteq> None"
    using wait due by (auto simp: handle_outcome_frame)
  have "filed (orphans ?app1) ((x, b) # ms')" "good_branch E gen ds t (obs @ (x, b) # ms')"
    using fl good due by (simp_all add: handle_outcome_frame)
  from cascade_catches [OF hyps c(2) this(2) fresh1 this(1) wait1] obtain app' us vs where
    "cascade E [x] ?app1 = Some app'" "ms' = us @ vs" "catching E gen ds t app' (obs @ (x, b) # us) vs (insert b A)"
    by blast
  with c(1) due show ?thesis
    by (intro exI [of _ "Inr (Accepted x h False [])"] exI [of _ app'] exI [of _ us] exI [of _ vs])
      (simp add: accept_and_broadcast_def Let_def)
qed

lemma orphan_waits:
  assumes hyps: "hash_sizes E" "supply_capped E gen"
    and at: "on_branch E gen app ws" and inv: "waiting E gen ds t app obs ms A" and later: "ms = m # as @ (x, b) # cs"
  shows "\<exists>r app'. accept_and_broadcast E b app = Some (r, app') \<and> on_branch E gen app' ws \<and>
    waiting E gen ds t app' obs ms (insert b A) \<and> cstate (achain app') = cstate (achain app) \<and>
    anet app' = broadcast (GetBlock (fst (last (m # as)))) (anet app)"
proof -
  note good = waitingD(1) [OF inv] and fresh = waitingD(2) [OF inv]
    and fl = waitingD(3) [OF inv] and wait = waitingD(4) [OF inv] and first = waitingD(5) [OF inv]
  note reach = on_branchD(2) [OF at] hyps and dist = good_branch_distinct [OF good]
  have ds: "generate E 0 (epoch_seed E None) = Some ds" "sound_block E gen ds x b"
    using good later by (auto simp: good_branch_def)
  define p where "p = fst (last (m # as))"
  have par: "prev_hash (header b) = p"
    using good_branch_parent [of E gen ds t "obs @ m # as" x b cs] good by (simp add: p_def later split: if_splits)
  have "last (m # as) \<in> set (m # as)" by (rule last_in_set) simp
  then have "p \<in> fst ` set ms" by (auto simp: later p_def simp del: last.simps)
  then have "get_block (cstate (achain app)) x = None" "get_block (cstate (achain app)) (prev_hash (header b)) = None"
    using fresh later by (auto simp: par)
  from submit_checked_block(2) [OF reach ds this]
  have sub: "submit_block E (achain app) b = Some (Inr (Orphan p), (achain app)\<lparr>dataset_cache := Some (0, ds)\<rparr>)"
    by (simp add: par)
  let ?ch = "(achain app)\<lparr>dataset_cache := Some (0, ds)\<rparr>"
  let ?app1 = "handle_outcome E b (Orphan p) (app\<lparr>achain := ?ch\<rparr>)"
  have "on_branch E gen (app\<lparr>achain := ?ch\<rparr>) ws" by (rule cached_branch [OF at reachable.submitted [OF reach(1) sub]]) simp
  note d = on_branchD [OF this]
  have "node_inv E gen ?app1"
    using handle_outcome_inv [of E gen ?ch app "Orphan p" b] d(2,5-7) on_branchD(6) [OF at] by (simp add: par)
  then have "on_branch E gen ?app1 ws" using on_branchD(3,4) [OF at] by (simp add: on_branch_def handled_branch)
  moreover have os: "orphans ?app1 = buffer_orphan p b (orphans app)" by (simp add: handle_outcome_frame)
  have "filed (orphans ?app1) ms"
    unfolding os unfolding later
    using filed_buffer [of "orphans app" "m # as" x b cs] fl dist(1) by (simp add: later p_def)
  moreover have "\<forall>(y, e) \<in> set ms. e \<in> insert b A \<longrightarrow> map_of (orphans ?app1) (prev_hash (header e)) \<noteq> None"
    using wait par by (auto simp: os buffer_orphan_def update_conv')
  moreover have "snd (hd ms) \<notin> insert b A" using first dist(2) by (auto simp: later)
  ultimately have "on_branch E gen ?app1 ws \<and> waiting E gen ds t ?app1 obs ms (insert b A)"
    using good fresh by (simp add: waiting_def handle_outcome_frame)
  moreover have "anet ?app1 = broadcast (GetBlock p) (anet app)" "cstate (achain ?app1) = cstate (achain app)"
    by (simp_all add: handle_outcome_def with_net_def)
  ultimately show ?thesis using sub unfolding p_def [symmetric]
    by (intro exI [of _ "Inr (Orphan p)"] exI [of _ ?app1]) (simp add: accept_and_broadcast_def Let_def)
qed

lemma accept_waits:
  assumes hyps: "hash_sizes E" "supply_capped E gen"
    and inv: "catching E gen ds t app obs ms A" and later: "ms = m # as @ (x, b) # cs"
  shows "\<exists>r app'. accept_and_broadcast E b app = Some (r, app') \<and> catching E gen ds t app' obs ms (insert b A) \<and>
    anet app' = broadcast (GetBlock (fst (last (m # as)))) (anet app)"
  using orphan_waits [OF hyps, of app obs ds t obs ms A m as x b cs] inv later by (auto simp: catching_def)

lemma accept_catches:
  assumes hyps: "hash_sizes E" "supply_capped E gen"
    and inv: "catching E gen ds t app obs ms A" and b: "b \<in> snd ` set (obs @ ms)"
  shows "\<exists>r app' us vs. accept_and_broadcast E b app = Some (r, app') \<and> ms = us @ vs \<and>
    catching E gen ds t app' (obs @ us) vs (insert b A)"
proof -
  obtain x where x: "(x, b) \<in> set (obs @ ms)" using b by (metis imageE prod.collapse)
  then consider (old) "(x, b) \<in> set obs" | (due) ms' where "ms = (x, b) # ms'"
    | (later) m as cs where "ms = m # as @ (x, b) # cs"
    by (cases ms) (auto dest!: split_list)
  then show ?thesis
  proof cases
    case old
    from known_block_again [OF hyps inv this] show ?thesis by (metis append_Nil append_Nil2)
  next
    case (due ms')
    from accept_due [OF hyps inv this] due show ?thesis by (metis append_Cons)
  next
    case (later m as cs)
    from accept_waits [OF hyps inv this] show ?thesis by (metis append_Nil append_Nil2)
  qed
qed

text \<open>The loop of the event task over the events it is handed, and the blocks they carry.\<close>

fun event_loop :: "'a env_scheme \<Rightarrow> network_event list \<Rightarrow> app \<Rightarrow> app option" where
  "event_loop E [] app = Some app"
| "event_loop E (ev # evs) app = (case on_event E ev app of None \<Rightarrow> None | Some app' \<Rightarrow> event_loop E evs app')"

fun block_of :: "network_event \<Rightarrow> block option" where
  "block_of (NewBlockEvent b) = Some b"
| "block_of (BlockResponseEvent r) = r"
| "block_of ev = None"

definition carried :: "network_event list \<Rightarrow> block set" where
  "carried evs = {b. \<exists>ev \<in> set evs. block_of ev = Some b}"

lemma carried_simps [simp]: "carried [] = {}" "carried (ev # evs) = set_option (block_of ev) \<union> carried evs"
  by (auto simp: carried_def elem_set)

lemma event_accepts:
  "block_of ev = Some b \<Longrightarrow> accept_and_broadcast E b app = Some (r, app') \<Longrightarrow> on_event E ev app = Some app'"
  by (cases ev) (auto simp: on_event_def)

lemma on_branch_pending:
  assumes "on_branch E gen app obs" "is_signature_valid E tx"
  shows "on_branch E gen (with_net (broadcast m) (with_state (mempool_insert E tx) app)) obs"
  using assms node_inv_pending [of E gen app tx m]
    canonical_cong [of "mempool_insert E tx (cstate (achain app))" "cstate (achain app)" E gen]
  by (simp add: on_branch_def state_simps [abs_def] fun_eq_iff)

lemma other_event:
  assumes "block_of ev = None" "on_branch E gen app obs"
  shows "\<exists>app'. on_event E ev app = Some app' \<and> on_branch E gen app' obs \<and> orphans app' = orphans app \<and>
    get_block (cstate (achain app')) = get_block (cstate (achain app))"
proof (cases ev)
  case (NewTransactionEvent tx)
  then show ?thesis
    using assms(2) on_branch_pending [OF assms(2), of tx "NewTransaction tx"]
    by (cases "is_signature_valid E tx") (auto simp: on_event_def state_simps fun_eq_iff)
next
  case (GetBlockRequest a x)
  then show ?thesis using assms(2)
    by (simp add: on_event_def on_branch_def node_inv_def net_ok_send_to with_net_def)
qed (use assms in \<open>auto simp: on_event_def\<close>)

lemma event_catches:
  assumes hyps: "hash_sizes E" "supply_capped E gen"
    and inv: "catching E gen ds t app obs ms A" and b: "set_option (block_of ev) \<subseteq> snd ` set (obs @ ms)"
  shows "\<exists>app' us vs. on_event E ev app = Some app' \<and> ms = us @ vs \<and>
    catching E gen ds t app' (obs @ us) vs (A \<union> set_option (block_of ev))"
proof (cases "block_of ev")
  case None
  from other_event [OF None, of E gen app obs] inv obtain app' where
    "on_event E ev app = Some app'" "on_branch E gen app' obs" "orphans app' = orphans app"
    "get_block (cstate (achain app')) = get_block (cstate (achain app))"
    by (auto simp: catching_defs)
  with inv None show ?thesis by (intro exI [of _ app'] exI [of _ "[]"] exI [of _ ms]) (simp add: catching_defs)
next
  case (Some b')
  then have "b' \<in> snd ` set (obs @ ms)" using b by simp
  from accept_catches [OF hyps inv this] obtain r app' us vs where
    "accept_and_broadcast E b' app = Some (r, app')" "ms = us @ vs" "catching E gen ds t app' (obs @ us) vs (insert b' A)"
    by blast
  with event_accepts [OF Some this(1)] Some show ?thesis by auto
qed

lemma loop_catches:
  assumes hyps: "hash_sizes E" "supply_capped E gen"
  shows "catching E gen ds t app obs ms A \<Longrightarrow> carried evs \<subseteq> snd ` set (obs @ ms) \<Longrightarrow>
    \<exists>app' us vs. event_loop E evs app = Some app' \<and> ms = us @ vs \<and> catching E gen ds t app' (obs @ us) vs (A \<union> carried evs)"
proof (induction evs arbitrary: app obs ms A)
  case (Cons ev evs)
  then obtain app1 us vs where e: "on_event E ev app = Some app1" "ms = us @ vs"
    "catching E gen ds t app1 (obs @ us) vs (A \<union> set_option (block_of ev))"
    using event_catches [OF hyps Cons.prems(1), of ev] by auto
  from Cons.IH [OF e(3)] Cons.prems(2) e(2) obtain app2 us2 vs2 where
    "event_loop E evs app1 = Some app2" "vs = us2 @ vs2"
    "catching E gen ds t app2 ((obs @ us) @ us2) vs2 (A \<union> set_option (block_of ev) \<union> carried evs)"
    by auto
  with e show ?case by (intro exI [of _ app2] exI [of _ "us @ us2"] exI [of _ vs2]) (simp add: Un_assoc)
next
  case Nil
  then show ?case by (intro exI [of _ app] exI [of _ "[]"] exI [of _ ms]) simp
qed

lemma same_canonical:
  assumes "reachable E gen c1" "reachable E gen c2" "hash_sizes E" "supply_capped E gen"
    and "canonical E gen (cstate c1) bs" "canonical E gen (cstate c2) bs" "tx_room E gen (cstate c1)" "tx_room E gen (cstate c2)"
  shows "tip (cstate c1) = tip (cstate c2) \<and> get_block_by_height (cstate c1) = get_block_by_height (cstate c2) \<and>
    get_account (cstate c1) = get_account (cstate c2)"
proof -
  have "get_account (cstate c1) = get_account (cstate c2)"
    by (rule read_ledger_inject) (use canonical_heaviest(3) [OF assms(1,3,4,7,5)] canonical_heaviest(3) [OF assms(2-4,8,6)] in simp)
  moreover obtain h1 x1 h2 x2 where t: "tip (cstate c1) = Some (h1, x1)" "branch (cstate c1) (genesis_block_hash E gen) x1 bs"
    "unat h1 = length bs" "tip (cstate c2) = Some (h2, x2)" "branch (cstate c2) (genesis_block_hash E gen) x2 bs" "unat h2 = length bs"
    using assms(5,6) by (auto simp: canonical_def)
  have "x1 = x2" using branch_last [OF t(2)] branch_last [OF t(5)] by simp
  moreover have "h1 = h2" using t(3,6) by (simp add: word_unat_eq_iff)
  ultimately show ?thesis
    using canonical_blocks [OF reachable_inv [OF assms(1,3,4)] assms(5)] canonical_blocks [OF reachable_inv [OF assms(2-4)] assms(6)]
    by (simp add: fun_eq_iff t(1,4))
qed

text \<open>A node that has missed the blocks \<open>ms\<close> of another, and on which nothing waits for them yet.\<close>

definition behind :: "'a env_scheme \<Rightarrow> genesis_config \<Rightarrow> app \<Rightarrow> app \<Rightarrow> block_chain \<Rightarrow> block_chain \<Rightarrow> bool" where
  "behind E gen late ahead obs ms \<longleftrightarrow> canonical E gen (cstate (achain late)) obs \<and>
     canonical E gen (cstate (achain ahead)) (obs @ ms) \<and>
     (\<forall>x \<in> fst ` set ms. get_block (cstate (achain late)) x = None \<and> map_of (orphans late) x = None)"

lemma unfiled: "\<forall>x \<in> fst ` set ms. map_of os x = None \<Longrightarrow> filed os ms"
  by (induction os ms rule: filed.induct) simp_all

lemma behind_catching:
  assumes "node_run E gen late" "node_run E gen ahead" "hash_sizes E" "supply_capped E gen" "0 < initial_difficulty gen"
    and "tx_room E gen (cstate (achain late))" "tx_room E gen (cstate (achain ahead))" "behind E gen late ahead obs ms"
  obtains ds where "catching E gen ds (cstate (achain ahead)) late obs ms {}"
proof -
  have inv: "node_inv E gen late" "node_inv E gen ahead"
    using node_run_inv [OF assms(1,3,4)] node_run_inv [OF assms(2-4)] by simp_all
  then have "reachable E gen (achain ahead)" by (simp add: node_inv_def)
  then obtain ds where "good_branch E gen ds (cstate (achain ahead)) (obs @ ms)"
    using reachable_good_branch [OF _ assms(3-5,7), of "obs @ ms"] assms(8) by (auto simp: behind_def)
  with inv assms(6,8) show thesis
    by (intro that [of ds]) (simp add: catching_defs on_branch_def behind_def unfiled)
qed

text \<open>
  C7. Missed blocks may come in any order. Take a node whose canonical branch is a part of the one of another
  node, which has not stored the further blocks of that branch and on which nothing waits for them. Whatever
  events it handles, if the blocks among them are blocks of the other's branch, in any order and any number of
  times, and each missing one is among them, it ends with the other's tip, blocks by height and accounts.
\<close>

theorem catches_up_in_any_order:
  assumes "node_run E gen late" "node_run E gen ahead" "hash_sizes E" "supply_capped E gen" "0 < initial_difficulty gen"
    and "tx_room E gen (cstate (achain late))" "tx_room E gen (cstate (achain ahead))" "behind E gen late ahead obs ms"
    and "snd ` set ms \<subseteq> carried evs" "carried evs \<subseteq> snd ` set (obs @ ms)"
  shows "\<exists>app. event_loop E evs late = Some app \<and> canonical E gen (cstate (achain app)) (obs @ ms) \<and>
    tip (cstate (achain app)) = tip (cstate (achain ahead)) \<and>
    get_block_by_height (cstate (achain app)) = get_block_by_height (cstate (achain ahead)) \<and>
    get_account (cstate (achain app)) = get_account (cstate (achain ahead))"
proof -
  obtain ds where "catching E gen ds (cstate (achain ahead)) late obs ms {}" by (rule behind_catching [OF assms(1-8)])
  from loop_catches [OF assms(3,4) this assms(10)] obtain app us vs where
    loop: "event_loop E evs late = Some app" "ms = us @ vs" "catching E gen ds (cstate (achain ahead)) app (obs @ us) vs (carried evs)"
    by auto
  have "vs = []"
  proof (rule ccontr)
    assume "vs \<noteq> []"
    then have "snd (hd vs) \<in> snd ` set ms" using loop(2) by (cases vs) auto
    with assms(9) loop(3) \<open>vs \<noteq> []\<close> show False by (auto simp: catching_defs)
  qed
  then have at: "on_branch E gen app (obs @ ms)" using loop(2,3) by (simp add: catching_defs)
  have "reachable E gen (achain ahead)" using node_run_inv [OF assms(2-4)] by (simp add: node_inv_def)
  from same_canonical [OF on_branchD(2) [OF at] this assms(3,4) on_branchD(3) [OF at] _ on_branchD(4) [OF at] assms(7)]
    loop(1) on_branchD(3) [OF at] assms(8) show ?thesis by (auto simp: behind_def)
qed

text \<open>The example: a node that has genesis alone gets the heavy branch, last block first, between other events.\<close>

lemma sample_behind:
  assumes "canonical sample_env sample_gen (cstate (achain app)) [(sample_id 2 0, block_at_b []), entry_c]"
    and "get_block (cstate (achain app0)) = get_block (cstate sample_chain)" "orphans app0 = []"
    and "canonical sample_env sample_gen (cstate (achain app0)) []"
  shows "behind sample_env sample_gen app0 app [] [(sample_id 2 0, block_at_b []), (sample_id 2 1, block_c)]"
  using assms sample_root_fresh [symmetric] by (simp add: behind_def entry_c_def sample_fields)

lemma sample_difficulty: "0 < initial_difficulty sample_gen"
  by (simp add: sample_gen_def)

theorem catches_up_in_any_order_witness:
  "\<exists>app0 app1 app. node_run sample_env sample_gen app0 \<and> node_run sample_env sample_gen app1 \<and>
     canonical sample_env sample_gen (cstate (achain app0)) [] \<and>
     event_loop sample_env [NewBlockEvent block_c, PeerConnected ''f'', BlockResponseEvent (Some (block_at_b []))] app0 = Some app \<and>
     canonical sample_env sample_gen (cstate (achain app)) [(sample_id 2 0, block_at_b []), (sample_id 2 1, block_c)] \<and>
     tip (cstate (achain app)) = tip (cstate (achain app1))"
proof -
  obtain app1 where app1: "node_run sample_env sample_gen app1" "tx_room sample_env sample_gen (cstate (achain app1))"
    "canonical sample_env sample_gen (cstate (achain app1)) [(sample_id 2 0, block_at_b []), entry_c]"
    using light_first by blast
  let ?evs = "[NewBlockEvent block_c, PeerConnected ''f'', BlockResponseEvent (Some (block_at_b []))]"
  have can: "canonical sample_env sample_gen (cstate (achain sample_app)) []" "tx_room sample_env sample_gen (cstate (achain sample_app))"
    by (rule like_sample_canonical [OF like_sample_app])+
  have b: "behind sample_env sample_gen sample_app app1 [] [(sample_id 2 0, block_at_b []), (sample_id 2 1, block_c)]"
    by (rule sample_behind [OF app1(3) _ _ can(1)]) (simp_all add: sample_app_def)
  from catches_up_in_any_order [OF sample_app_run app1(1) sample_env_laws(1) sample_capped sample_difficulty can(2) app1(2) b, of ?evs]
    sample_app_run app1(1) can(1) show ?thesis by auto
qed

end
