(* ===== verification/Sync_Pair.thy ===== *)
theory Sync_Pair
  imports Catch_Up
begin

text \<open>
  Two connected nodes of theory \<open>Gossip\<close>, one of which is behind. It hears of the tip of the other, asks for the
  parent, and for the parent of that one, until a parent is known. Message by message, over the queues, the
  writers and the readers of the connection, the missing blocks arrive, last first.
\<close>

section \<open>One end of the connection\<close>

text \<open>What has been written to the connection, what is queued on it, and the events that wait.\<close>

definition port :: "string \<Rightarrow> app \<Rightarrow> nat \<Rightarrow> message list \<Rightarrow> message list \<Rightarrow> network_event list \<Rightarrow> bool" where
  "port name app i w q evs \<longleftrightarrow> side_ok name app i \<and> wire (link_of app i) = w \<and> out_queue (link_of app i) = q \<and>
     events (anet app) = evs"

lemma port_side: "port name app i w q evs \<Longrightarrow> side_ok name app i"
  by (simp add: port_def)

lemma port_write:
  assumes "port name app i w (m # q) evs"
  shows "port name (with_net (write_round i True) app) i (w @ [m]) q evs"
  using assms wrote_side [OF port_side [OF assms]] side_index [OF port_side [OF assms]]
  by (auto simp: port_def write_round_def update_conn_nth)

lemma port_read:
  assumes "port name app i w q evs"
  shows "port name (with_net (read_round i (Inr (GetBlock x))) app) i w q (evs @ [GetBlockRequest (conn_addr (link_of app i)) x])"
    "port name (with_net (read_round i (Inr (BlockResponse r))) app) i w q (evs @ [BlockResponseEvent r])"
  using assms read_side [OF port_side [OF assms], of "GetBlock x"] read_side [OF port_side [OF assms], of "BlockResponse r"]
  by (auto simp: port_def names_ok_def read_round_def handle_message_def Let_def emit_event_def)

lemma port_take: "port name app i w q (ev # evs) \<Longrightarrow> port name (with_net (\<lambda>n. n\<lparr>events := evs\<rparr>) app) i w q evs"
  by (auto simp: port_def side_ok_def net_ok_def travel_def)

lemma port_enqueue:
  assumes "port name app i w q evs" "net_grows (anet app) (anet app')" "conns (anet app') ! i = enqueue m (link_of app i)"
  shows "port name app' i w (q @ [m]) evs"
  using assms(1,3) grown_side [OF assms(2) port_side [OF assms(1)]] assms(2)
  by (auto simp: port_def enqueue_def side_ok_def net_grows_def)

lemma port_broadcast:
  assumes "port name app i w q evs" "anet app' = broadcast m (anet app)" "\<not> greets m"
  shows "port name app' i w (q @ [m]) evs"
proof (rule port_enqueue [OF assms(1)])
  have ok: "net_ok name (anet app)" "i \<in> snd ` set (peers (anet app))" using port_side [OF assms(1)] by (simp_all add: side_ok_def)
  then show "net_grows (anet app) (anet app')" by (simp add: assms(2,3) net_grows_broadcast)
  show "conns (anet app') ! i = enqueue m (link_of app i)"
    using broadcast_nth [OF ok(1) side_index [OF port_side [OF assms(1)]]] ok(2) by (simp add: assms(2))
qed

lemma port_send:
  assumes "port name app i w q evs" "anet app' = send_to (conn_addr (link_of app i)) m (anet app)" "\<not> greets m"
  shows "port name app' i w (q @ [m]) evs"
proof (rule port_enqueue [OF assms(1)])
  have ok: "net_ok name (anet app)" "i \<in> snd ` set (peers (anet app))" using port_side [OF assms(1)] by (simp_all add: side_ok_def)
  then have "(conn_addr (link_of app i), i) \<in> set (peers (anet app))" by (auto simp: net_ok_def)
  then have "map_of (peers (anet app)) (conn_addr (link_of app i)) = Some i" using ok(1) by (simp add: net_ok_def)
  then show "conns (anet app') ! i = enqueue m (link_of app i)"
    using send_to_nth [OF side_index [OF port_side [OF assms(1)]]] by (simp add: assms(2))
  show "net_grows (anet app) (anet app')" by (simp add: assms(2,3) net_grows_send)
qed

section \<open>One question and its answer\<close>

lemma far_moves:
  "link_moves E (turn p) (turn p') \<Longrightarrow> link_step E p p'"
  by (simp add: link_step_def)

definition fetching ::
    "'a env_scheme \<Rightarrow> genesis_config \<Rightarrow> dataset \<Rightarrow> string \<Rightarrow> node_pair \<Rightarrow> block_chain \<Rightarrow> block_chain \<Rightarrow> block_chain \<Rightarrow> bool" where
  "fetching E gen ds name p obs us vs \<longleftrightarrow> us \<noteq> [] \<and>
     catching E gen ds (cstate (achain (far p))) (near p) obs (us @ vs) (snd ` set vs) \<and>
     (\<exists>ev w. block_of ev = Some (snd (last us)) \<and> port name (near p) (near_conn p) w [] [ev] \<and> far_read p = length w) \<and>
     (\<exists>w. port name (far p) (far_conn p) w [] [] \<and> near_read p = length w)"

lemma fetchingI:
  "us \<noteq> [] \<Longrightarrow> catching E gen ds (cstate (achain (far p))) (near p) obs (us @ vs) (snd ` set vs) \<Longrightarrow>
     block_of ev = Some (snd (last us)) \<Longrightarrow> port name (near p) (near_conn p) w [] [ev] \<Longrightarrow> far_read p = length w \<Longrightarrow>
     port name (far p) (far_conn p) w' [] [] \<Longrightarrow> near_read p = length w' \<Longrightarrow> fetching E gen ds name p obs us vs"
  unfolding fetching_def by blast

lemma catching_net:
  "catching E gen ds t app obs ms A \<Longrightarrow> net_ok (network_name gen) (anet app') \<Longrightarrow> achain app' = achain app \<Longrightarrow>
     orphans app' = orphans app \<Longrightarrow> catching E gen ds t app' obs ms A"
  by (simp add: catching_defs on_branch_def node_inv_def)

lemma steps_trans: "link_step E p q \<Longrightarrow> (link_step E)\<^sup>*\<^sup>* q r \<Longrightarrow> (link_step E)\<^sup>*\<^sup>* p r"
  by (rule converse_rtranclp_into_rtranclp)

lemma question_answered:
  assumes hyps: "hash_sizes E" "supply_capped E gen"
    and f: "fetching E gen ds (network_name gen) p obs (us @ [m, n]) vs"
  shows "\<exists>p'. (link_step E)\<^sup>*\<^sup>* p p' \<and> fetching E gen ds (network_name gen) p' obs (us @ [m]) (n # vs) \<and>
    achain (far p') = achain (far p)"
proof -
  let ?name = "network_name gen" and ?i = "near_conn p" and ?j = "far_conn p"
  obtain x b where m: "m = (x, b)" by (cases m)
  obtain y c where n: "n = (y, c)" by (cases n)
  obtain ev wn wf where ev: "block_of ev = Some c" and pn: "port ?name (near p) ?i wn [] [ev]" "far_read p = length wn"
    and pf: "port ?name (far p) ?j wf [] []" "near_read p = length wf"
    and inv: "catching E gen ds (cstate (achain (far p))) (near p) obs (us @ [m, n] @ vs) (snd ` set vs)"
    using f n by (auto simp: fetching_def)
  \<comment> \<open>The near node takes the event, and asks for the parent of the block.\<close>
  let ?app0 = "with_net (\<lambda>n. n\<lparr>events := []\<rparr>) (near p)"
  note p0 = port_take [OF pn(1)]
  have inv0: "catching E gen ds (cstate (achain (far p))) ?app0 obs (us @ [m, n] @ vs) (snd ` set vs)"
    by (rule catching_net [OF inv]) (use p0 in \<open>simp_all add: port_def side_ok_def\<close>)
  obtain m0 as where us: "us @ [m] = m0 # as" by (cases us) auto
  then have last: "last (m0 # as) = m" and split: "us @ [m, n] @ vs = m0 # as @ (y, c) # vs"
    by (metis last_snoc) (use us n in \<open>metis append.assoc append_Cons append_Nil\<close>)
  obtain r app1 where a1: "accept_and_broadcast E c ?app0 = Some (r, app1)"
    "catching E gen ds (cstate (achain (far p))) app1 obs (us @ [m, n] @ vs) (insert c (snd ` set vs))"
    "anet app1 = broadcast (GetBlock x) (anet ?app0)"
    using accept_waits [OF hyps inv0 split] last by (auto simp: m)
  let ?p1 = "p\<lparr>near := app1\<rparr>"
  have s1: "link_step E p ?p1"
    using link_moves.takes [OF _ event_accepts [OF ev a1(1)]] pn(1) by (simp add: link_step_def port_def)
  have p1: "port ?name app1 ?i wn [GetBlock x] []" using port_broadcast [OF p0 a1(3)] by simp
  \<comment> \<open>The question is written and read.\<close>
  let ?app2 = "with_net (write_round ?i True) app1" and ?far3 = "with_net (read_round ?j (Inr (GetBlock x))) (far p)"
  let ?p2 = "?p1\<lparr>near := ?app2\<rparr>"
  let ?p3 = "?p2\<lparr>far := ?far3, far_read := Suc (far_read p)\<rparr>"
  have s2: "link_step E ?p1 ?p2" using link_moves.writes [of E ?p1] by (simp add: link_step_def)
  have p2: "port ?name ?app2 ?i (wn @ [GetBlock x]) [] []" using port_write [OF p1] by simp
  have s3: "link_step E ?p2 ?p3"
    by (rule far_moves) (use link_moves.reads [of "turn ?p2" E] p2 pn(2) in \<open>simp add: turn_def port_def\<close>)
  note p3 = port_read(1) [OF pf(1), of x]
  \<comment> \<open>The far node takes it and answers with the block.\<close>
  let ?a = "conn_addr (link_of (far p) ?j)"
  let ?far4 = "with_net (send_to ?a (BlockResponse (Some b))) (with_net (\<lambda>n. n\<lparr>events := []\<rparr>) ?far3)"
  let ?p4 = "?p3\<lparr>far := ?far4\<rparr>"
  have stored: "get_block (cstate (achain (far p))) x = Some b"
  proof -
    obtain z where "branch (cstate (achain (far p))) (genesis_block_hash E gen) z (obs @ us @ [m, n] @ vs)"
      using catchingD(2) [OF inv] by (auto simp: good_branch_def)
    from branch_nth [OF this, of "length obs + length us" x b] show ?thesis by (simp add: m nth_append)
  qed
  have "on_event E (GetBlockRequest ?a x) (with_net (\<lambda>n. n\<lparr>events := []\<rparr>) ?far3) = Some ?far4"
    by (simp add: on_event_def stored)
  then have "link_moves E (turn ?p3) (turn ?p4)"
    using link_moves.takes [of "turn ?p3" "GetBlockRequest ?a x" "[]" E ?far4] p3 by (simp add: turn_def port_def)
  then have s4: "link_step E ?p3 ?p4" by (rule far_moves)
  have p4: "port ?name ?far4 ?j wf [BlockResponse (Some b)] []"
  proof -
    have "port ?name (with_net (\<lambda>n. n\<lparr>events := []\<rparr>) ?far3) ?j wf [] []" using port_take p3 by fastforce
    moreover have "conn_addr (link_of (with_net (\<lambda>n. n\<lparr>events := []\<rparr>) ?far3) ?j) = ?a"
      by (simp add: read_round_def handle_message_def Let_def)
    ultimately show ?thesis using port_send [of ?name _ ?j wf "[]" "[]" ?far4 "BlockResponse (Some b)"] by simp
  qed
  \<comment> \<open>The answer is written and read.\<close>
  let ?far5 = "with_net (write_round ?j True) ?far4"
  let ?app6 = "with_net (read_round ?i (Inr (BlockResponse (Some b)))) ?app2"
  let ?p5 = "?p4\<lparr>far := ?far5\<rparr>"
  let ?p6 = "?p5\<lparr>near := ?app6, near_read := Suc (near_read p)\<rparr>"
  have s5: "link_step E ?p4 ?p5"
    by (rule far_moves) (use link_moves.writes [of E "turn ?p4"] in \<open>simp add: turn_def\<close>)
  have p5: "port ?name ?far5 ?j (wf @ [BlockResponse (Some b)]) [] []" using port_write [OF p4] by simp
  have s6: "link_step E ?p5 ?p6"
    using link_moves.reads [of ?p5 E] p5 pf(2) by (simp add: link_step_def port_def)
  have p6: "port ?name ?app6 ?i (wn @ [GetBlock x]) [] [BlockResponseEvent (Some b)]" using port_read(2) [OF p2] by simp
  have "catching E gen ds (cstate (achain (far p))) ?app6 obs (us @ [m, n] @ vs) (insert c (snd ` set vs))"
    by (rule catching_net [OF a1(2)]) (use p6 in \<open>simp_all add: port_def side_ok_def\<close>)
  then have "fetching E gen ds ?name ?p6 obs (us @ [m]) (n # vs)"
    by (intro fetchingI [where ev = "BlockResponseEvent (Some b)" and w = "wn @ [GetBlock x]" and w' = "wf @ [BlockResponse (Some b)]"])
      (use p5 p6 pn(2) pf(2) m n in simp_all)
  moreover have "(link_step E)\<^sup>*\<^sup>* p ?p6"
    by (intro steps_trans [OF s1] steps_trans [OF s2] steps_trans [OF s3] steps_trans [OF s4] steps_trans [OF s5] steps_trans [OF s6]) simp
  ultimately show ?thesis by (intro exI [of _ ?p6]) simp
qed

section \<open>All missing blocks\<close>

lemma fetched:
  assumes hyps: "hash_sizes E" "supply_capped E gen"
  shows "fetching E gen ds (network_name gen) p obs us vs \<Longrightarrow>
    \<exists>p'. (link_step E)\<^sup>*\<^sup>* p p' \<and> on_branch E gen (near p') (obs @ us @ vs) \<and> achain (far p') = achain (far p)"
proof (induction us arbitrary: p vs rule: rev_induct)
  case (snoc n us)
  show ?case
  proof (cases us rule: rev_cases)
    case (snoc us' m)
    with snoc.prems obtain p1 where p1: "(link_step E)\<^sup>*\<^sup>* p p1" "fetching E gen ds (network_name gen) p1 obs us (n # vs)"
      "achain (far p1) = achain (far p)"
      using question_answered [OF hyps, of ds p obs us' m n vs] by auto
    from snoc.IH [OF p1(2)] p1 show ?thesis by (auto intro: rtranclp_trans)
  next
    case Nil
    obtain x b where n: "n = (x, b)" by (cases n)
    obtain ev w where ev: "block_of ev = Some b" "port (network_name gen) (near p) (near_conn p) w [] [ev]"
      and inv: "catching E gen ds (cstate (achain (far p))) (near p) obs (n # vs) (snd ` set vs)"
      using snoc.prems Nil n by (auto simp: fetching_def)
    let ?app0 = "with_net (\<lambda>n. n\<lparr>events := []\<rparr>) (near p)"
    have inv0: "catching E gen ds (cstate (achain (far p))) ?app0 obs (n # vs) (snd ` set vs)"
      by (rule catching_net [OF inv]) (use port_take [OF ev(2)] in \<open>simp_all add: port_def side_ok_def\<close>)
    from accept_due [OF hyps this, of x b vs] obtain r app us2 vs2 where
      a: "accept_and_broadcast E b ?app0 = Some (r, app)" "vs = us2 @ vs2"
      "catching E gen ds (cstate (achain (far p))) app (obs @ n # us2) vs2 (insert b (snd ` set vs))"
      by (auto simp: n)
    have "vs2 = []" using catchingD(6) [OF a(3)] a(2) by (cases vs2) auto
    then have "on_branch E gen app (obs @ n # vs)" using catchingD(1) [OF a(3)] a(2) by simp
    moreover have "link_step E p (p\<lparr>near := app\<rparr>)"
      using link_moves.takes [OF _ event_accepts [OF ev(1) a(1)]] ev(2) by (simp add: link_step_def port_def)
    ultimately show ?thesis using Nil by (intro exI [of _ "p\<lparr>near := app\<rparr>"]) auto
  qed
qed (simp add: fetching_def)

text \<open>Nothing travels between the two nodes, and the first has just heard of a block.\<close>

definition just_heard :: "block \<Rightarrow> node_pair \<Rightarrow> bool" where
  "just_heard b p \<longleftrightarrow> events (anet (near p)) = [NewBlockEvent b] \<and> events (anet (far p)) = [] \<and>
     out_queue (link_of (near p) (near_conn p)) = [] \<and> out_queue (link_of (far p) (far_conn p)) = [] \<and>
     near_read p = length (wire (link_of (far p) (far_conn p))) \<and> far_read p = length (wire (link_of (near p) (near_conn p)))"

text \<open>
  C8. A connected node catches up. Two nodes are connected, the canonical branch of the first is a part of the one
  of the second, and the first hears of the tip of the second. Nothing comes from outside: there are only the
  two nodes and what they write, read and handle. By that alone they get to where the first has asked for one
  missing block after the other, back to a block that it has, and ends with the tip, the blocks by height and
  the accounts of the second, whose chain is left as it is.
\<close>

theorem connected_node_catches_up:
  assumes "pair_run E gen p" "linked (network_name gen) p" "hash_sizes E" "supply_capped E gen" "0 < initial_difficulty gen"
    and "tx_room E gen (cstate (achain (near p)))" "tx_room E gen (cstate (achain (far p)))"
    and "behind E gen (near p) (far p) obs (ms @ [(x, b)])" "just_heard b p"
  shows "\<exists>p'. (link_step E)\<^sup>*\<^sup>* p p' \<and> achain (far p') = achain (far p) \<and>
    canonical E gen (cstate (achain (near p'))) (obs @ ms @ [(x, b)]) \<and>
    tip (cstate (achain (near p'))) = tip (cstate (achain (far p))) \<and>
    get_block_by_height (cstate (achain (near p'))) = get_block_by_height (cstate (achain (far p))) \<and>
    get_account (cstate (achain (near p'))) = get_account (cstate (achain (far p)))"
proof -
  have run: "node_run E gen (near p)" "node_run E gen (far p)" using assms(1) by (simp_all add: pair_run_def)
  obtain ds where "catching E gen ds (cstate (achain (far p))) (near p) obs (ms @ [(x, b)]) {}"
    by (rule behind_catching [OF run assms(3-8)])
  then have "fetching E gen ds (network_name gen) p obs (ms @ [(x, b)]) []"
    using assms(2,9) by (auto simp: just_heard_def port_def linked_def intro!: fetchingI [of _ _ _ _ _ _ _ "NewBlockEvent b"])
  from fetched [OF assms(3,4) this] obtain p' where
    p': "(link_step E)\<^sup>*\<^sup>* p p'" "on_branch E gen (near p') (obs @ ms @ [(x, b)])" "achain (far p') = achain (far p)" by auto
  have "reachable E gen (achain (far p))" using node_run_inv [OF run(2) assms(3,4)] by (simp add: node_inv_def)
  from same_canonical [OF on_branchD(2) [OF p'(2)] this assms(3,4) on_branchD(3) [OF p'(2)] _ on_branchD(4) [OF p'(2)] assms(7)]
    p' on_branchD(3) [OF p'(2)] assms(8) show ?thesis by (auto simp: behind_def)
qed

section \<open>The example\<close>

text \<open>A node on which nothing waits, up to its first connection, with a message read on it.\<close>

lemma fresh_end:
  assumes "node_run E gen app" "anet app = set_height h (new_network name)"
  shows "\<exists>app'. node_run E gen app' \<and> achain app' = achain app \<and> orphans app' = orphans app \<and>
    anet app' = \<lparr>peers = [(a, 0)], conns = [\<lparr>conn_addr = a, conn_phase = Running, out_queue = [], rx_open = True,
       wire = [Handshake PROTOCOL_VERSION name h]\<rparr>], events = [], net_name = name, my_height = h\<rparr>"
proof -
  let ?n1 = "register_peer a (anet app)" and ?n2 = "greet_peer 0 True (register_peer a (anet app))"
  note eval = assms(2) register_peer_def new_network_def set_height_def greet_peer_def update_conn_def emit_event_def
  have r1: "node_run E gen (app\<lparr>anet := ?n1\<rparr>)" by (rule moved_net_run [OF assms(1) net_step.registered])
  have "net_step ?n1 ?n2" by (rule net_step.greeted) (simp_all add: eval)
  from moved_net_run [of E gen "app\<lparr>anet := ?n1\<rparr>" ?n2] r1 this have r2: "node_run E gen (app\<lparr>anet := ?n2\<rparr>)" by simp
  have "net_step ?n2 (?n2\<lparr>events := []\<rparr>)"
    by (rule net_step.event_taken [of _ "PeerConnected a"]) (simp add: eval)
  from moved_net_run [of E gen "app\<lparr>anet := ?n2\<rparr>"] r2 this have "node_run E gen (app\<lparr>anet := ?n2\<lparr>events := []\<rparr>\<rparr>)" by simp
  then show ?thesis by (intro exI [of _ "app\<lparr>anet := ?n2\<lparr>events := []\<rparr>\<rparr>"]) (simp add: eval)
qed

theorem connected_node_catches_up_witness:
  "\<exists>p p'. pair_run sample_env sample_gen p \<and> linked (network_name sample_gen) p \<and> just_heard block_c p \<and>
     canonical sample_env sample_gen (cstate (achain (near p))) [] \<and> (link_step sample_env)\<^sup>*\<^sup>* p p' \<and>
     canonical sample_env sample_gen (cstate (achain (near p'))) [(sample_id 2 0, block_at_b []), (sample_id 2 1, block_c)]"
proof -
  note hyps = sample_env_laws(1) sample_capped
  obtain heavy where heavy: "node_run sample_env sample_gen heavy" "tx_room sample_env sample_gen (cstate (achain heavy))"
    "canonical sample_env sample_gen (cstate (achain heavy)) [(sample_id 2 0, block_at_b []), entry_c]"
    using light_first by blast
  obtain app1 where app1: "node_start sample_env sample_gen (cstate (achain heavy)) = Some (Inr app1)"
    "cstate (achain app1) = cstate (achain heavy)"
    using node_restarts [OF node_run_inv [OF heavy(1) hyps] hyps] by blast
  then obtain h where net1: "anet app1 = set_height h (new_network (network_name sample_gen))"
    by (auto simp: node_start_def split: sum.splits option.splits)
  obtain f where f: "node_run sample_env sample_gen f" "achain f = achain app1" "anet f = \<lparr>peers = [(''n'', 0)],
      conns = [\<lparr>conn_addr = ''n'', conn_phase = Running, out_queue = [], rx_open = True,
        wire = [Handshake PROTOCOL_VERSION (network_name sample_gen) h]\<rparr>], events = [], net_name = network_name sample_gen, my_height = h\<rparr>"
    using fresh_end [OF node_run.restarted [OF heavy(1) app1(1)] net1] by blast
  have net0: "anet sample_app = set_height 0 (new_network (network_name sample_gen))"
    by (simp add: sample_app_def) (simp add: sample_gen_def)
  obtain n0 where n0: "node_run sample_env sample_gen n0" "achain n0 = achain sample_app" "orphans n0 = orphans sample_app"
    "anet n0 = \<lparr>peers = [(''f'', 0)], conns = [\<lparr>conn_addr = ''f'', conn_phase = Running, out_queue = [], rx_open = True,
        wire = [Handshake PROTOCOL_VERSION (network_name sample_gen) 0]\<rparr>], events = [], net_name = network_name sample_gen, my_height = 0\<rparr>"
    using fresh_end [OF sample_app_run net0] by blast
  let ?n = "with_net (read_round 0 (Inr (NewBlock block_c))) n0"
  have "net_step (anet n0) (read_round 0 (Inr (NewBlock block_c)) (anet n0))"
    by (rule net_step.received) (simp_all add: n0(4))
  from moved_net_run [OF n0(1) this] have rn: "node_run sample_env sample_gen ?n" by (simp add: with_net_def)
  let ?p = "\<lparr>near = ?n, far = f, near_conn = 0, far_conn = 0, near_read = 1, far_read = 1\<rparr>"
  note eval = n0(4) f(3) read_round_def handle_message_def Let_def emit_event_def
  have lk: "linked (network_name sample_gen) ?p"
    by (simp add: linked_def side_ok_def net_ok_def conn_ok_def names_ok_def travel_def eval)
  have jh: "just_heard block_c ?p" by (simp add: just_heard_def eval)
  have run: "pair_run sample_env sample_gen ?p" by (simp add: pair_run_def rn f(1))
  note can = like_sample_canonical [OF like_sample_app]
  have b: "behind sample_env sample_gen ?n f [] ([(sample_id 2 0, block_at_b [])] @ [(sample_id 2 1, block_c)])"
    using sample_behind [of f ?n] heavy(3) can(1) by (simp add: f(2) app1(2) n0(2,3)) (simp add: sample_app_def)
  from connected_node_catches_up [OF run lk hyps sample_difficulty _ _ _ jh, of "[]" "[(sample_id 2 0, block_at_b [])]" "sample_id 2 1"]
    b can heavy(2) run lk jh show ?thesis by (fastforce simp: f(2) app1(2) n0(2))
qed

end
