(* ===== verification/Fork_Stall.thy ===== *)
theory Fork_Stall
  imports Catch_Up
begin

text \<open>
  What becomes of a node that is on a branch of its own when it hears of a heavier one. It asks for the blocks of
  that branch one parent after the other, and gets them last first. The first of them to have a known parent
  is stored as a side branch, and that releases none of the others.
\<close>

lemma side_block_stored:
  assumes hyps: "hash_sizes E" "supply_capped E gen"
    and at: "on_branch E gen app (obs @ us)" and w: "waiting E gen ds t app obs ((x, b) # ms) A"
    and work: "branch_work gen (obs @ [(x, b)]) \<le> branch_work gen (obs @ us)"
  shows "\<exists>app'. accept_and_broadcast E b app = Some (Inr (SideBranch x (height (header b))), app') \<and>
    on_branch E gen app' (obs @ us) \<and> orphans app' = orphans app \<and> tip (cstate (achain app')) = tip (cstate (achain app)) \<and>
    get_account (cstate (achain app')) = get_account (cstate (achain app)) \<and>
    get_block (cstate (achain app')) = (get_block (cstate (achain app)))(x \<mapsto> b) \<and>
    anet app' = broadcast (NewBlock b) (anet app)"
proof -
  let ?s = "cstate (achain app)" and ?g = "genesis_block_hash E gen"
  note d = on_branchD [OF at] note reach = d(2) hyps
  have inv: "chain_inv E gen ?s" by (rule reachable_inv [OF reach])
  have good: "good_branch E gen ds t (obs @ [(x, b)])"
    using good_branch_prefix [of E gen ds t "obs @ [(x, b)]" ms] waitingD(1) [OF w] by simp
  have fresh: "get_block ?s x = None" using waitingD(2) [OF w] by simp
  obtain y where "branch ?s ?g y (obs @ us)" using d(3) by (auto simp: canonical_def)
  from branch_take [OF this, of "length obs"] obtain x0 where br: "branch ?s ?g x0 obs" by auto
  obtain p where p: "prev_hash (header b) = x0" "get_block ?s x0 = Some p" "height (header p) + 1 = height (header b)"
    "expected_difficulty_after (achain app) p = Inr (difficulty (header b))" "unat (height (header b)) = Suc (length obs)"
    using parent_agrees [OF reach br good] by blast
  have sound: "sound_block E gen ds x b" and ds: "generate E 0 (epoch_seed E None) = Some ds"
    using good by (auto simp: good_branch_def)
  obtain r c bs where c: "submit_block E (achain app) b = Some (r, c)" "reachable E gen c" "stores E gen ?s x b bs (cstate c)"
    "stored_outcome E gen ?s (obs @ us) x b bs r (cstate c)"
    using submit_checked [OF reach d(3) ds _ fresh _ _ _ p(3,4)] sound p(1,2) by (auto simp: sound_block_def)
  have bs: "bs = obs @ [(x, b)]" by (rule stored_branch [OF c(3)]) (use br p(1,5) in simp_all)
  then have r: "r = Inr (SideBranch x (height (header b)))" "same_tip ?s (cstate c)"
    using c(4) work by (simp_all add: stored_outcome_def)
  have can: "canonical E gen (cstate c) (obs @ us)" by (rule same_tip_canonical [OF c(3) r(2) d(3)])
  have room: "tx_room E gen (cstate c)" by (rule tx_room_store [OF d(4) c(3) inv]) (use good bs in \<open>simp add: good_branch_def\<close>)
  have mem: "mempool (cstate c) = mempool ?s" using c(3) by (simp add: stores_def)
  let ?app' = "handle_outcome E b (SideBranch x (height (header b))) (app\<lparr>achain := c\<rparr>)"
  have "node_inv E gen ?app'"
    by (rule handle_outcome_inv [OF c(2) d(5,6)]) (use d(7) pending_signed_mempool [OF mem, of E] in auto)
  then have "on_branch E gen ?app' (obs @ us)" using can room by (simp add: on_branch_def handled_branch)
  moreover have "accept_and_broadcast E b app = Some (Inr (SideBranch x (height (header b))), ?app')"
    using c(1) r(1) by (simp add: accept_and_broadcast_def Let_def)
  ultimately show ?thesis using c(3) r(2)
    by (intro exI [of _ ?app']) (simp add: handle_outcome_frame stores_def same_tip_def, simp add: handle_outcome_def with_net_def)
qed

text \<open>The blocks above it arrive before it, the last first, and wait; for each its parent is asked for.\<close>

definition asks_parent :: "block \<Rightarrow> message" where
  "asks_parent c = GetBlock (prev_hash (header c))"

lemma later_blocks_wait:
  assumes hyps: "hash_sizes E" "supply_capped E gen"
  shows "on_branch E gen app ws \<Longrightarrow> waiting E gen ds t app obs (m # ms @ ns) (snd ` set ns) \<Longrightarrow>
    map block_of evs = map Some (rev (map snd ms)) \<Longrightarrow>
    \<exists>app'. event_loop E evs app = Some app' \<and> on_branch E gen app' ws \<and>
      waiting E gen ds t app' obs (m # ms @ ns) (snd ` set (ms @ ns)) \<and>
      tip (cstate (achain app')) = tip (cstate (achain app)) \<and> get_account (cstate (achain app')) = get_account (cstate (achain app)) \<and>
      anet app' = fold broadcast (map asks_parent (rev (map snd ms))) (anet app)"
proof (induction ms arbitrary: app ns evs rule: rev_induct)
  case (snoc n ms)
  obtain x b where n: "n = (x, b)" by (cases n)
  obtain ev evs' where ev: "evs = ev # evs'" "block_of ev = Some b" "map block_of evs' = map Some (rev (map snd ms))"
    using snoc.prems(3) n by auto
  have "good_branch E gen ds t ((obs @ m # ms) @ (x, b) # ns)" using waitingD(1) [OF snoc.prems(2)] n by simp
  from good_branch_parent [OF this] have par: "asks_parent b = GetBlock (fst (last (m # ms)))"
    by (simp add: asks_parent_def del: last.simps)
  from orphan_waits [OF hyps snoc.prems(1,2), of m ms x b ns] obtain r app1 where
    a: "accept_and_broadcast E b app = Some (r, app1)" "on_branch E gen app1 ws"
    "waiting E gen ds t app1 obs (m # ms @ n # ns) (insert b (snd ` set ns))" "cstate (achain app1) = cstate (achain app)"
    "anet app1 = broadcast (asks_parent b) (anet app)"
    by (auto simp: n par simp del: last.simps)
  have "on_event E ev app = Some app1" by (rule event_accepts [OF ev(2) a(1)])
  with snoc.IH [OF a(2), of "n # ns" evs'] a n ev show ?case by auto
qed simp

text \<open>A block that has arrived waits under its parent, and nothing else waits there.\<close>

lemma filed_children:
  "filed os (m # ms) \<Longrightarrow> good_branch E gen ds t (obs @ m # ms) \<Longrightarrow> c \<in> snd ` set ms \<Longrightarrow>
     map_of os (prev_hash (header c)) \<noteq> None \<Longrightarrow> \<exists>cs. map_of os (prev_hash (header c)) = Some cs \<and> set cs = {c}"
proof (induction ms arbitrary: m obs)
  case (Cons n ms)
  show ?case
  proof (cases "c = snd n")
    case True
    have "prev_hash (header c) = fst m"
      using good_branch_parent [of E gen ds t "obs @ [m]" "fst n" "snd n" ms] Cons.prems(2) True by simp
    moreover from this obtain cs where "map_of os (fst m) = Some cs" using Cons.prems(4) by auto
    moreover from this have "cs \<noteq> []" "set cs \<subseteq> {c}" using Cons.prems(1) True by auto
    ultimately show ?thesis by (cases cs) auto
  next
    case False
    then show ?thesis using Cons.IH [of n "obs @ [m]"] Cons.prems by auto
  qed
qed simp

lemma event_loop_append:
  "event_loop E (xs @ ys) app = (case event_loop E xs app of None \<Rightarrow> None | Some app' \<Rightarrow> event_loop E ys app')"
  by (induction xs arbitrary: app) (simp_all split: option.split)

text \<open>
  C9. A heavier branch is not followed. A node is on the branch \<open>obs @ us\<close> and hears of a branch that parts from
  its own at \<open>obs\<close>, whose first block alone brings no more work than its own blocks. It hears of the last block,
  and gets the others as answers to its own questions: to its peers it sends, in this order, a question for the
  parent of every block but the first, and the announcement of the first. However heavy the branch is, the node
  stays on its tip and its accounts: the first block is stored, each of the others waits in the buffer, alone
  under its parent, and none is stored.
\<close>

theorem heavier_branch_not_followed:
  assumes "node_run E gen late" "node_run E gen ahead" "hash_sizes E" "supply_capped E gen" "0 < initial_difficulty gen"
    and "tx_room E gen (cstate (achain late))" "tx_room E gen (cstate (achain ahead))"
    and "canonical E gen (cstate (achain late)) (obs @ us)" "canonical E gen (cstate (achain ahead)) (obs @ (x, b) # ms)"
    and "\<forall>y \<in> fst ` set ((x, b) # ms). get_block (cstate (achain late)) y = None \<and> map_of (orphans late) y = None"
    and "branch_work gen (obs @ [(x, b)]) \<le> branch_work gen (obs @ us)"
    and "map block_of evs = map Some (rev (b # map snd ms))"
  shows "\<exists>app. event_loop E evs late = Some app \<and>
    canonical E gen (cstate (achain app)) (obs @ us) \<and> tip (cstate (achain app)) = tip (cstate (achain late)) \<and>
    get_account (cstate (achain app)) = get_account (cstate (achain late)) \<and>
    get_block (cstate (achain app)) x = Some b \<and> (\<forall>y \<in> fst ` set ms. get_block (cstate (achain app)) y = None) \<and>
    (\<forall>c \<in> snd ` set ms. \<exists>cs. map_of (orphans app) (prev_hash (header c)) = Some cs \<and> set cs = {c}) \<and>
    anet app = fold broadcast (map asks_parent (rev (map snd ms)) @ [NewBlock b]) (anet late)"
proof -
  note hyps = assms(3,4)
  have inv: "node_inv E gen late" "reachable E gen (achain ahead)"
    using node_run_inv [OF assms(1) hyps] node_run_inv [OF assms(2) hyps] by (simp_all add: node_inv_def)
  obtain ds where good: "good_branch E gen ds (cstate (achain ahead)) (obs @ (x, b) # ms)"
    by (rule reachable_good_branch [OF inv(2) assms(3-5,7,9)])
  have at: "on_branch E gen late (obs @ us)" using inv(1) assms(6,8) by (simp add: on_branch_def)
  have w: "waiting E gen ds (cstate (achain ahead)) late obs ((x, b) # ms @ []) (snd ` set [])"
    using good assms(10) unfiled [of "(x, b) # ms" "orphans late"] by (simp add: waiting_def)
  obtain evs1 ev where ev: "evs = evs1 @ [ev]" "map block_of evs1 = map Some (rev (map snd ms))" "block_of ev = Some b"
    using assms(12) by (cases evs rule: rev_cases) auto
  from later_blocks_wait [OF hyps at w ev(2)] obtain app1 where
    a: "event_loop E evs1 late = Some app1" "on_branch E gen app1 (obs @ us)"
    "waiting E gen ds (cstate (achain ahead)) app1 obs ((x, b) # ms) (snd ` set ms)"
    "tip (cstate (achain app1)) = tip (cstate (achain late))" "get_account (cstate (achain app1)) = get_account (cstate (achain late))"
    "anet app1 = fold broadcast (map asks_parent (rev (map snd ms))) (anet late)"
    by auto
  from side_block_stored [OF hyps a(2,3) assms(11)] obtain app where
    s: "accept_and_broadcast E b app1 = Some (Inr (SideBranch x (height (header b))), app)" "on_branch E gen app (obs @ us)"
    "orphans app = orphans app1" "tip (cstate (achain app)) = tip (cstate (achain app1))"
    "get_account (cstate (achain app)) = get_account (cstate (achain app1))"
    "get_block (cstate (achain app)) = (get_block (cstate (achain app1)))(x \<mapsto> b)" "anet app = broadcast (NewBlock b) (anet app1)"
    by blast
  have "event_loop E evs late = Some app"
    using a(1) event_accepts [OF ev(3) s(1)] by (simp add: ev(1) event_loop_append)
  moreover have "\<forall>y \<in> fst ` set ms. get_block (cstate (achain app)) y = None"
    using waitingD(2) [OF a(3)] good_branch_distinct(1) [OF good] by (auto simp: s(6))
  moreover have "\<exists>cs. map_of (orphans app) (prev_hash (header c)) = Some cs \<and> set cs = {c}" if "c \<in> snd ` set ms" for c
    using filed_children [OF waitingD(3,1) [OF a(3)] that] waitingD(4) [OF a(3)] that by (fastforce simp: s(3))
  ultimately show ?thesis using on_branchD(3) [OF s(2)] a(4-6) s(4-7) by (intro exI [of _ app]) simp
qed

text \<open>
  The example: a node that has mined a block on genesis hears of two other blocks on genesis, with twice the work.
\<close>

lemma after_a:
  "\<exists>app. node_run sample_env sample_gen app \<and> orphans app = [] \<and> tx_room sample_env sample_gen (cstate (achain app)) \<and>
     canonical sample_env sample_gen (cstate (achain app)) [(sample_id 1 0, block_at_a [])] \<and>
     get_block (cstate (achain app)) = (get_block (cstate sample_chain))(sample_id 1 0 \<mapsto> block_at_a [])"
proof -
  have ach: "achain sample_app = sample_chain" by (simp add: sample_app_def)
  obtain c where c: "submit_block sample_env sample_chain (block_at_a []) = Some (Inr (Accepted (sample_id 1 0) 1 False []), c)"
    "canonical sample_env sample_gen (cstate c) [(sample_id 1 0, block_at_a [])]"
    and st: "stores sample_env sample_gen (cstate sample_chain) (sample_id 1 0) (block_at_a []) [(sample_id 1 0, block_at_a [])] (cstate c)"
    using step_first [OF sample_reachable sample_canonical sample_room, of "[]" 1] by (auto simp: spec_block_def)
  have room: "tx_room sample_env sample_gen (cstate c)"
    by (rule tx_room_store [OF sample_room st reachable_inv [OF sample_hyps]]) simp
  obtain app where "node_run sample_env sample_gen app" "orphans app = []" "achain app = c"
    using node_submits [OF sample_app_run _ _ c(1) [folded ach]] by (auto simp: sample_app_def)
  with c room st show ?thesis by (auto simp: stores_def)
qed

theorem heavier_branch_not_followed_witness:
  "\<exists>late ahead app. node_run sample_env sample_gen late \<and> node_run sample_env sample_gen ahead \<and>
     canonical sample_env sample_gen (cstate (achain late)) [(sample_id 1 0, block_at_a [])] \<and>
     canonical sample_env sample_gen (cstate (achain ahead)) [(sample_id 2 0, block_at_b []), (sample_id 2 1, block_c)] \<and>
     branch_work sample_gen [(sample_id 1 0, block_at_a [])] <
       branch_work sample_gen [(sample_id 2 0, block_at_b []), (sample_id 2 1, block_c)] \<and>
     event_loop sample_env [NewBlockEvent block_c, BlockResponseEvent (Some (block_at_b []))] late = Some app \<and>
     tip (cstate (achain app)) = tip (cstate (achain late)) \<and> get_block (cstate (achain app)) (sample_id 2 1) = None \<and>
     anet app = broadcast (NewBlock (block_at_b [])) (broadcast (GetBlock (sample_id 2 0)) (anet late))"
proof -
  obtain late where late: "node_run sample_env sample_gen late" "orphans late = []" "tx_room sample_env sample_gen (cstate (achain late))"
    "canonical sample_env sample_gen (cstate (achain late)) [(sample_id 1 0, block_at_a [])]"
    "get_block (cstate (achain late)) = (get_block (cstate sample_chain))(sample_id 1 0 \<mapsto> block_at_a [])"
    using after_a by blast
  obtain ahead where ahead: "node_run sample_env sample_gen ahead" "tx_room sample_env sample_gen (cstate (achain ahead))"
    "canonical sample_env sample_gen (cstate (achain ahead)) [(sample_id 2 0, block_at_b []), (sample_id 2 1, block_c)]"
    using light_first by (auto simp: entry_c_def)
  have fresh: "\<forall>y \<in> fst ` set [(sample_id 2 0, block_at_b []), (sample_id 2 1, block_c)].
      get_block (cstate (achain late)) y = None \<and> map_of (orphans late) y = None"
    using late(2) sample_root_fresh [symmetric] by (simp add: late(5) sample_fields)
  have work: "branch_work sample_gen ([] @ [(sample_id 2 0, block_at_b [])]) \<le> branch_work sample_gen ([] @ [(sample_id 1 0, block_at_a [])])"
    "branch_work sample_gen [(sample_id 1 0, block_at_a [])] <
       branch_work sample_gen [(sample_id 2 0, block_at_b []), (sample_id 2 1, block_c)]"
    by (simp_all add: branch_work_def block_c_def)
  from heavier_branch_not_followed [OF late(1) ahead(1) sample_env_laws(1) sample_capped sample_difficulty late(3) ahead(2) _ _ fresh work(1),
      of "[NewBlockEvent block_c, BlockResponseEvent (Some (block_at_b []))]"]
  obtain app where "event_loop sample_env [NewBlockEvent block_c, BlockResponseEvent (Some (block_at_b []))] late = Some app"
    "tip (cstate (achain app)) = tip (cstate (achain late))" "get_block (cstate (achain app)) (sample_id 2 1) = None"
    "anet app = broadcast (NewBlock (block_at_b [])) (broadcast (GetBlock (sample_id 2 0)) (anet late))"
    using late(4) ahead(3) by (auto simp: asks_parent_def block_c_def)
  with late(1,4) ahead(1,3) work(2) show ?thesis by blast
qed

end
