(* ===== verification/Startup.thy ===== *)
theory Startup
  imports Gossip Sample_Node Session "HOL-Library.Multiset"
begin

text \<open>
  The process of a node (\<open>main\<close> of \<open>crates/ondris-node/src/main.rs\<close>, \<open>listen\<close> and \<open>connect\<close> of
  \<open>crates/ondris-network/src/lib.rs\<close>, \<open>GenesisConfig::load\<close>): what it is started with, the steps of the start and
  how each can fail, the tasks it leaves running, and the router that serves requests. The answers of the
  operating system during one start are the record \<open>host\<close>. What the tasks do is a step relation, and its runs
  are shown to be runs of \<open>node_run\<close>, on which the other theories rest.
\<close>

section \<open>What a start is given\<close>

record node_args =
  arg_data_dir :: string
  arg_p2p_addr :: socket_addr
  arg_rpc_addr :: socket_addr
  arg_genesis :: "string option"
  arg_peers :: "socket_addr list"

text \<open>The arguments of a start without any option.\<close>

definition default_args :: node_args where
  "default_args =
     \<lparr>arg_data_dir = ''./ondris-data'', arg_p2p_addr = ''0.0.0.0:30303'', arg_rpc_addr = ''127.0.0.1:8080'',
      arg_genesis = None, arg_peers = []\<rparr>"

record host =
  read_text :: "string \<Rightarrow> string option"  \<comment> \<open>\<open>std::fs::read_to_string\<close>\<close>
  parse_genesis :: "string \<Rightarrow> genesis_config option"  \<comment> \<open>\<open>serde_json::from_str\<close>\<close>
  makes_dir :: "string \<Rightarrow> bool"  \<comment> \<open>\<open>std::fs::create_dir_all\<close>\<close>
  opens_db :: "string \<Rightarrow> bool"  \<comment> \<open>\<open>sled::open\<close> and its trees\<close>
  new_keys :: "bytes \<times> bytes"  \<comment> \<open>\<open>generate_keypair\<close> of \<open>snow\<close>\<close>
  key_writable :: bool
  key_chmod :: bool
  binds :: "socket_addr \<Rightarrow> bool"  \<comment> \<open>\<open>TcpListener::bind\<close>\<close>
  dials :: "socket_addr \<Rightarrow> bool"  \<comment> \<open>\<open>TcpStream::connect\<close>\<close>

text \<open>What the data directory holds: the database and the file of the node identity.\<close>

record data_dir =
  stored :: chain_state
  key_file :: "bytes option"

datatype start_error =
    UnreadableGenesis string
  | BadGenesis string
  | NoDataDir string
  | NoDatabase
  | ChainNotOpened chain_error
  | NoIdentity
  | CannotBind socket_addr

definition genesis_load :: "host \<Rightarrow> string \<Rightarrow> start_error + genesis_config" where
  "genesis_load H path =
     (case read_text H path of
        None \<Rightarrow> Inl (UnreadableGenesis path)
      | Some data \<Rightarrow> (case parse_genesis H data of None \<Rightarrow> Inl (BadGenesis path) | Some cfg \<Rightarrow> Inr cfg))"

definition configured_genesis :: "host \<Rightarrow> node_args \<Rightarrow> start_error + genesis_config" where
  "configured_genesis H args =
     (case arg_genesis args of Some path \<Rightarrow> genesis_load H path | None \<Rightarrow> Inr testnet_default)"

section \<open>Tasks\<close>

datatype process_task =
    AcceptLoop socket_addr
  | Connection socket_addr bool  \<comment> \<open>\<open>handle_connection\<close>, and whether this node has opened the connection\<close>
  | RebroadcastTask
  | EventTask
  | RpcServer socket_addr

text \<open>\<open>listen\<close> fails when the port cannot be bound; \<open>connect\<close> when the peer cannot be reached.\<close>

definition listen :: "host \<Rightarrow> socket_addr \<Rightarrow> start_error + process_task" where
  "listen H a = (if binds H a then Inr (AcceptLoop a) else Inl (CannotBind a))"

definition connect :: "host \<Rightarrow> socket_addr \<Rightarrow> process_task option" where
  "connect H a = (if dials H a then Some (Connection a True) else None)"

record process =
  papp :: app
  pidentity :: node_identity
  ptasks :: "process_task list"

text \<open>The loop over the seeds: a failure is a line in the log.\<close>

definition dial_seeds :: "host \<Rightarrow> socket_addr list \<Rightarrow> process_task list" where
  "dial_seeds H seeds = List.map_filter (connect H) seeds"

text \<open>What \<open>Chain::open\<close> leaves in the database, also when it fails.\<close>

definition opened_store :: "'a prims_scheme \<Rightarrow> genesis_config \<Rightarrow> chain_state \<Rightarrow> chain_state" where
  "opened_store P gen s = (if tip s = None then snd (init_genesis P gen s) else s)"

text \<open>
  \<open>main\<close>, up to the point where it serves requests, and what the data directory holds then. The outer \<open>None\<close> is
  the \<open>expect\<close> on the tip. The RPC port is bound last, when all other tasks run; if that fails, the process ends.
\<close>

definition node_main ::
    "'a prims_scheme \<Rightarrow> host \<Rightarrow> node_args \<Rightarrow> data_dir \<Rightarrow> ((start_error + process) \<times> data_dir) option" where
  "node_main P H args d =
     (case configured_genesis H args of
        Inl e \<Rightarrow> Some (Inl e, d)
      | Inr gen \<Rightarrow>
          if \<not> makes_dir H (arg_data_dir args) then Some (Inl (NoDataDir (arg_data_dir args)), d)
          else if \<not> opens_db H (arg_data_dir args) then Some (Inl NoDatabase, d)
          else
            (let d1 = d\<lparr>stored := opened_store P gen (stored d)\<rparr>
             in case node_start P gen (stored d) of
                  None \<Rightarrow> None
                | Some (Inl e) \<Rightarrow> Some (Inl (ChainNotOpened e), d1)
                | Some (Inr app) \<Rightarrow>
                    (case load_or_generate (new_keys H) (key_writable H) (key_chmod H) (key_file d1) of
                       (None, f) \<Rightarrow> Some (Inl NoIdentity, d1\<lparr>key_file := f\<rparr>)
                     | (Some identity, f) \<Rightarrow>
                         (let d2 = d1\<lparr>key_file := f\<rparr>
                          in case listen H (arg_p2p_addr args) of
                               Inl e \<Rightarrow> Some (Inl e, d2)
                             | Inr accepting \<Rightarrow>
                                 if \<not> binds H (arg_rpc_addr args) then Some (Inl (CannotBind (arg_rpc_addr args)), d2)
                                 else Some (Inr \<lparr>papp = app, pidentity = identity,
                                        ptasks = accepting # dial_seeds H (arg_peers args) @
                                          [RebroadcastTask, EventTask, RpcServer (arg_rpc_addr args)]\<rparr>, d2)))))"

section \<open>Requests\<close>

datatype request =
    GetChainInfo
  | GetAccount string
  | GetBlockByHeight u64
  | GetWork string
  | PostBlock block
  | PostTx transaction

datatype reply =
    ChainInfoReply chain_info
  | AccountReply account_info
  | BlockReply block
  | WorkReply work_reply
  | SubmitBlockReply submit_block_reply
  | SubmitTxReply hash256

text \<open>\<open>AppError::into_response\<close>: every error is answered with \<open>400 Bad Request\<close>.\<close>

definition respond :: "('r \<Rightarrow> reply) \<Rightarrow> rpc_error + 'r \<Rightarrow> nat \<times> (rpc_error + reply)" where
  "respond f r = (case r of Inl e \<Rightarrow> (400, Inl e) | Inr x \<Rightarrow> (200, Inr (f x)))"

text \<open>The routes.\<close>

definition serve :: "'a env_scheme \<Rightarrow> u64 \<Rightarrow> request \<Rightarrow> app \<Rightarrow> ((nat \<times> (rpc_error + reply)) \<times> app) option" where
  "serve E now req app =
     (case req of
        GetChainInfo \<Rightarrow> Some (respond ChainInfoReply (rpc_chain_info app), app)
      | GetAccount a \<Rightarrow> Some (respond AccountReply (rpc_get_account E a app), app)
      | GetBlockByHeight h \<Rightarrow> Some (respond BlockReply (rpc_get_block_by_height h app), app)
      | GetWork a \<Rightarrow> map_option (apfst (respond WorkReply)) (rpc_get_work E now a app)
      | PostBlock b \<Rightarrow> map_option (apfst (respond SubmitBlockReply)) (rpc_submit_block E b app)
      | PostTx tx \<Rightarrow> Some (apfst (respond SubmitTxReply) (rpc_submit_tx E tx app)))"

section \<open>What the tasks do\<close>

text \<open>
  A connection task runs the handshake on what arrives, \<open>stream\<close>. When it fails, \<open>handle_connection\<close> ends and
  nothing has happened to the network.
\<close>

definition run_connection ::
    "('h, 't) snow \<Rightarrow> node_identity \<Rightarrow> socket_addr \<Rightarrow> bool \<Rightarrow> bytes \<Rightarrow> network \<Rightarrow> network" where
  "run_connection N identity a is_initiator stream n =
     (case secure_connection N identity is_initiator stream of (Inl e, out) \<Rightarrow> n | (Inr s, out) \<Rightarrow> register_peer a n)"

text \<open>
  One step of a process, with the addresses from which it has accepted a connection. Once a
  connection is registered its task greets, writes and reads.
\<close>

inductive process_step ::
    "'a env_scheme \<Rightarrow> ('h, 't) snow \<Rightarrow> process \<Rightarrow> socket_addr list \<Rightarrow> process \<Rightarrow> bool"
  for E :: "'a env_scheme" and N :: "('h, 't) snow" where
  accepted: "AcceptLoop a \<in> set (ptasks p) \<Longrightarrow>
    process_step E N p [peer] (p\<lparr>ptasks := ptasks p @ [Connection peer False]\<rparr>)"
| handshaken: "ptasks p = ts @ Connection peer is_initiator # us \<Longrightarrow>
    process_step E N p [] (p\<lparr>ptasks := ts @ us,
      papp := with_net (run_connection N (pidentity p) peer is_initiator stream) (papp p)\<rparr>)"
| greets: "i < length (conns (anet (papp p))) \<Longrightarrow> conn_phase (conns (anet (papp p)) ! i) = Greeting \<Longrightarrow>
    process_step E N p [] (p\<lparr>papp := with_net (greet_peer i ok) (papp p)\<rparr>)"
| writes: "i < length (conns (anet (papp p))) \<Longrightarrow> conn_phase (conns (anet (papp p)) ! i) = Running \<Longrightarrow>
    rx_open (conns (anet (papp p)) ! i) \<Longrightarrow> process_step E N p [] (p\<lparr>papp := with_net (write_round i ok) (papp p)\<rparr>)"
| reads: "i < length (conns (anet (papp p))) \<Longrightarrow> conn_phase (conns (anet (papp p)) ! i) = Running \<Longrightarrow>
    process_step E N p [] (p\<lparr>papp := with_net (read_round i m) (papp p)\<rparr>)"
| takes_event: "EventTask \<in> set (ptasks p) \<Longrightarrow> events (anet (papp p)) = ev # evs \<Longrightarrow>
    on_event E ev (with_net (\<lambda>n. n\<lparr>events := evs\<rparr>) (papp p)) = Some app \<Longrightarrow> process_step E N p [] (p\<lparr>papp := app\<rparr>)"
| ticks: "RebroadcastTask \<in> set (ptasks p) \<Longrightarrow> process_step E N p [] (p\<lparr>papp := rebroadcast (papp p)\<rparr>)"
| serves: "RpcServer a \<in> set (ptasks p) \<Longrightarrow> serve E now req (papp p) = Some (r, app) \<Longrightarrow>
    process_step E N p [] (p\<lparr>papp := app\<rparr>)"

inductive process_steps ::
    "'a env_scheme \<Rightarrow> ('h, 't) snow \<Rightarrow> process \<Rightarrow> socket_addr list \<Rightarrow> process \<Rightarrow> bool"
  for E :: "'a env_scheme" and N :: "('h, 't) snow" and p :: process where
  none: "process_steps E N p [] p"
| more: "process_steps E N p as q \<Longrightarrow> process_step E N q bs r \<Longrightarrow> process_steps E N p (as @ bs) r"

text \<open>
  The life of a data directory: starts that fail, starts that give a process, what the process does, and its end.
  Every start is configured with the genesis \<open>gen\<close>; all else about it may change from start to start.
\<close>

inductive machine ::
    "'a env_scheme \<Rightarrow> ('h, 't) snow \<Rightarrow> genesis_config \<Rightarrow> data_dir \<Rightarrow> process option \<Rightarrow> bool"
  for E :: "'a env_scheme" and N :: "('h, 't) snow" and gen :: genesis_config where
  empty: "machine E N gen \<lparr>stored = empty_state, key_file = None\<rparr> None"
| start_failed: "machine E N gen d None \<Longrightarrow> configured_genesis H args = Inr gen \<Longrightarrow>
    node_main E H args d = Some (Inl e, d') \<Longrightarrow> machine E N gen d' None"
| start_done: "machine E N gen d None \<Longrightarrow> configured_genesis H args = Inr gen \<Longrightarrow>
    node_main E H args d = Some (Inr p, d') \<Longrightarrow> machine E N gen d' (Some p)"
| process_moves: "machine E N gen d (Some p) \<Longrightarrow> process_step E N p as p' \<Longrightarrow>
    machine E N gen (d\<lparr>stored := cstate (achain (papp p'))\<rparr>) (Some p')"
| process_ends: "machine E N gen d (Some p) \<Longrightarrow> machine E N gen d None"

section \<open>Every process is a run of a node\<close>

lemma init_genesis_result:
  "init_genesis P gen s = (Inl e, s') \<Longrightarrow> s' = s"
  "init_genesis P gen s = (Inr (), s') \<Longrightarrow> \<exists>h x. tip s' = Some (h, x)"
  by (auto simp: init_genesis_def Let_def state_simps split: sum.splits)

lemma chain_open_store:
  "chain_open P gen s = Inr c \<Longrightarrow> cstate c = opened_store P gen s \<and> (\<exists>h x. tip (cstate c) = Some (h, x))"
  "chain_open P gen s = Inl e \<Longrightarrow> opened_store P gen s = s"
proof -
  obtain r s' where i: "init_genesis P gen s = (r, s')" by (cases "init_genesis P gen s")
  have "(chain_open P gen s = Inr c \<longrightarrow> cstate c = opened_store P gen s \<and> (\<exists>h x. tip (cstate c) = Some (h, x))) \<and>
    (chain_open P gen s = Inl e \<longrightarrow> opened_store P gen s = s)"
  proof (cases "tip s")
    case None
    then show ?thesis
    proof (cases r)
      case (Inl e')
      with i have "init_genesis P gen s = (Inl e', s)" using init_genesis_result(1) [of P gen s e' s'] by simp
      with None show ?thesis by (simp add: chain_open_def opened_store_def)
    next
      case (Inr u)
      then have "init_genesis P gen s = (Inr (), s')" using i by simp
      moreover from init_genesis_result(2) [OF this] obtain h x where "tip s' = Some (h, x)" by blast
      moreover have "chain_open P gen s = Inr \<lparr>cstate = s', cgenesis = gen, dataset_cache = None\<rparr>" "opened_store P gen s = s'"
        using None calculation(1) by (simp_all add: chain_open_def opened_store_def split: unit.split)
      ultimately show ?thesis by auto
    qed
  next
    case (Some hx)
    then have "chain_open P gen s = Inr \<lparr>cstate = s, cgenesis = gen, dataset_cache = None\<rparr>" "opened_store P gen s = s"
      by (simp_all add: chain_open_def opened_store_def)
    with Some show ?thesis by (cases hx) auto
  qed
  then show "chain_open P gen s = Inr c \<Longrightarrow> cstate c = opened_store P gen s \<and> (\<exists>h x. tip (cstate c) = Some (h, x))"
    "chain_open P gen s = Inl e \<Longrightarrow> opened_store P gen s = s" by blast+
qed

lemma node_start_total: "\<exists>r. node_start P gen s = Some r"
proof (cases "chain_open P gen s")
  case (Inr c)
  from chain_open_store(1) [OF this] Inr show ?thesis by (auto simp: node_start_def)
qed (simp add: node_start_def)

lemma node_start_store:
  "node_start P gen s = Some (Inr app) \<Longrightarrow> cstate (achain app) = opened_store P gen s"
  "node_start P gen s = Some (Inl e) \<Longrightarrow> opened_store P gen s = s"
  using chain_open_store [of P gen s] by (auto simp: node_start_def split: sum.splits option.splits)

lemma serve_run:
  assumes "serve E now req app = Some (r, app')" "node_run E gen app"
  shows "node_run E gen app'"
  using assms
  by (cases req)
    (auto simp: serve_def apfst_def map_prod_def split: prod.splits
      intro: node_run.stepped node_step.work_asked node_step.block_posted node_step.tx_posted)

lemma process_step_run:
  assumes "process_step E N p as p'" "node_run E gen (papp p)"
  shows "node_run E gen (papp p')"
  using assms(1)
proof (cases rule: process_step.cases)
  case (handshaken ts peer is_initiator us stream)
  then show ?thesis
    using assms(2) moved_net_run [OF assms(2) net_step.registered]
    by (auto simp: run_connection_def with_net_def split: prod.split sum.split)
next
  case (takes_event ev evs app)
  then have "node_run E gen (with_net (\<lambda>n. n\<lparr>events := evs\<rparr>) (papp p))"
    using moved_net_run [OF assms(2) net_step.event_taken] by (simp add: with_net_def)
  from node_run.stepped [OF this node_step.event [OF takes_event(5)]] show ?thesis by (simp add: takes_event(1,2))
next
  case (ticks)
  then show ?thesis using node_run.stepped [OF assms(2) node_step.tick] by simp
next
  case (serves a now req r app)
  with serve_run [OF serves(4) assms(2)] show ?thesis by simp
qed (use assms(2) moved_net_run [OF assms(2)] net_step.greeted net_step.wrote net_step.received in \<open>auto simp: with_net_def\<close>)

text \<open>What a start does to the database, whatever it is configured with.\<close>

lemma node_main_returns: "\<exists>r d'. node_main P H args d = Some (r, d') \<and> (tip (stored d) \<noteq> None \<longrightarrow> stored d' = stored d)"
proof -
  obtain r where "configured_genesis H args = Inr gen \<longrightarrow> node_start P gen (stored d) = Some (r gen)" for gen
    using node_start_total [of P _ "stored d"] by metis
  then show ?thesis
    by (auto simp: node_main_def Let_def opened_store_def split: sum.split option.split prod.split)
qed

lemma node_main_store:
  assumes "node_main P H args d = Some (r, d')" "configured_genesis H args = Inr gen"
  shows "stored d' = stored d \<or> (\<exists>app. node_start P gen (stored d) = Some (Inr app) \<and> stored d' = cstate (achain app))"
    and "r = Inr p \<Longrightarrow> node_start P gen (stored d) = Some (Inr (papp p)) \<and> stored d' = cstate (achain (papp p))"
  using assms node_start_store [of P gen "stored d"]
  by (auto simp: node_main_def Let_def split: option.splits sum.splits prod.splits if_splits)

definition lived :: "'a env_scheme \<Rightarrow> genesis_config \<Rightarrow> chain_state \<Rightarrow> bool" where
  "lived E gen s \<longleftrightarrow> s = empty_state \<or> (\<exists>app. node_run E gen app \<and> cstate (achain app) = s)"

lemma lived_start:
  assumes "lived E gen s" "node_start E gen s = Some (Inr app)"
  shows "node_run E gen app"
  using assms node_run.started [of E gen app] node_run.restarted [of E gen _ app] by (auto simp: lived_def)

lemma machine_lives:
  "machine E N gen d po \<Longrightarrow>
     lived E gen (stored d) \<and> (\<forall>p. po = Some p \<longrightarrow> node_run E gen (papp p) \<and> stored d = cstate (achain (papp p)))"
proof (induction rule: machine.induct)
  case empty
  then show ?case by (simp add: lived_def)
next
  case (start_failed d H args e d')
  with node_main_store(1) [OF start_failed(3,2)] have "stored d' = stored d \<or> (\<exists>app. node_run E gen app \<and> stored d' = cstate (achain app))"
    using lived_start by blast
  with start_failed.IH show ?case by (auto simp: lived_def)
next
  case (start_done d H args p d')
  with node_main_store(2) [OF start_done(3,2)] have "node_run E gen (papp p)" "stored d' = cstate (achain (papp p))"
    using lived_start by blast+
  then show ?case by (auto simp: lived_def)
next
  case (process_moves d p as p')
  with process_step_run [OF process_moves(2)] show ?case by (auto simp: lived_def)
qed (auto simp: lived_def)

lemma serve_total:
  assumes "node_inv E gen app" "hash_sizes E" "supply_capped E gen"
  shows "\<exists>r app'. serve E now req app = Some (r, app')"
proof (cases req)
  case (GetWork a)
  then show ?thesis using rpc_get_work_total [OF assms, of now a] by (auto simp: serve_def)
next
  case (PostBlock b)
  then show ?thesis using rpc_submit_block_total [OF assms, of b] by (auto simp: serve_def)
next
  case (PostTx tx)
  then show ?thesis by (cases "rpc_submit_tx E tx app") (simp add: serve_def)
qed (simp_all add: serve_def)

text \<open>
  C11. The lives of a node. Whatever starts, failures to start, requests, connections and ends a data directory has
  seen, as long as the genesis stays the same: a process that runs is in a state of a run of a node and its
  database holds the chain of that state; it answers every request and takes every event without a panic; and
  the next start returns, with an error or a process, and changes nothing in a database that has a tip.
\<close>

theorem lives_are_node_runs:
  assumes "machine E N gen d (Some p)" "hash_sizes E" "supply_capped E gen"
  shows "node_run E gen (papp p) \<and> stored d = cstate (achain (papp p)) \<and>
    (\<exists>r app. serve E now req (papp p) = Some (r, app)) \<and>
    (\<exists>app. on_event E ev (with_net (\<lambda>n. n\<lparr>events := evs\<rparr>) (papp p)) = Some app) \<and>
    (\<exists>r d'. node_main E H args d = Some (r, d') \<and> stored d' = stored d)"
proof -
  have run: "node_run E gen (papp p)" "stored d = cstate (achain (papp p))" using machine_lives [OF assms(1)] by simp_all
  have inv: "node_inv E gen (papp p)" by (rule node_run_inv [OF run(1) assms(2,3)])
  have "tip (stored d) \<noteq> None"
    using inv run(2) chain_inv_tip [OF reachable_inv [OF _ assms(2,3)]] by (simp add: node_inv_def)
  then have "\<exists>r d'. node_main E H args d = Some (r, d') \<and> stored d' = stored d" using node_main_returns by blast
  moreover have "net_ok (network_name gen) ((anet (papp p))\<lparr>events := evs\<rparr>)" using inv by (simp add: node_inv_def net_ok_def)
  then have "node_inv E gen (with_net (\<lambda>n. n\<lparr>events := evs\<rparr>) (papp p))" using inv by (simp add: node_inv_def)
  from on_event_total [OF this assms(2,3)] have "\<exists>app. on_event E ev (with_net (\<lambda>n. n\<lparr>events := evs\<rparr>) (papp p)) = Some app" by blast
  ultimately show ?thesis using run serve_total [OF inv assms(2,3)] by blast
qed

section \<open>Where the peers of a node come from\<close>

fun task_peer :: "process_task \<Rightarrow> socket_addr option" where
  "task_peer (Connection a is_initiator) = Some a"
| "task_peer t = None"

text \<open>The addresses of the connections that are registered, and of those whose handshake is still to run.\<close>

definition connections :: "process \<Rightarrow> socket_addr multiset" where
  "connections p = mset (map conn_addr (conns (anet (papp p)))) + mset (List.map_filter task_peer (ptasks p))"

definition conn_addrs :: "network \<Rightarrow> socket_addr list" where
  "conn_addrs n = map conn_addr (conns n)"

lemma conn_addrs_grow: "net_grows n n' \<Longrightarrow> conn_addrs n' = conn_addrs n"
  unfolding conn_addrs_def net_grows_def by (intro nth_equalityI) fastforce+

lemma conn_addrs_update: "(\<And>c. conn_addr (f c) = conn_addr c) \<Longrightarrow> conn_addrs (update_conn i f n) = conn_addrs n"
  by (cases "i < length (conns n)") (simp_all add: conn_addrs_def update_conn_def map_update list_update_beyond list_update_same_conv)

lemma conn_addrs_net:
  "conn_addrs (greet_peer i ok n) = conn_addrs n" "conn_addrs (write_round i ok n) = conn_addrs n"
  "conn_addrs (close_connection i n) = conn_addrs n" "conn_addrs (emit_event e n) = conn_addrs n"
  "conn_addrs (send_to a m n) = conn_addrs n"
proof -
  show "conn_addrs (greet_peer i ok n) = conn_addrs n" "conn_addrs (write_round i ok n) = conn_addrs n"
    by (auto simp: greet_peer_def write_round_def conn_addrs_update split: list.split)
  show e: "conn_addrs (emit_event e n) = conn_addrs n" for e n by (simp add: emit_event_def conn_addrs_def)
  show "conn_addrs (close_connection i n) = conn_addrs n"
    by (simp add: close_connection_def Let_def conn_addrs_update e) (simp add: conn_addrs_def)
  show "conn_addrs (send_to a m n) = conn_addrs n"
    by (simp add: send_to_def chan_send_def conn_addrs_update split: option.split)
qed

lemma conn_addrs_read: "conn_addrs (read_round i m n) = conn_addrs n"
  by (auto simp: read_round_def handle_message_def Let_def conn_addrs_net split: sum.split message.split)

lemma serve_grows:
  assumes "serve E now req app = Some (r, app')" "net_ok name (anet app)"
  shows "net_grows (anet app) (anet app')"
proof (cases req)
  case (GetWork a)
  then obtain r' where "rpc_get_work E now a app = Some (r', app')" using assms(1) by (auto simp: serve_def)
  then have "anet app' = anet app" by (rule rpc_get_work_cases) simp_all
  then show ?thesis by simp
next
  case (PostBlock b)
  then obtain r' where "accept_and_broadcast E b app = Some (r', app')"
    using assms(1) by (auto simp: serve_def rpc_submit_block_def split: option.splits sum.splits)
  then show ?thesis by (rule accept_grows [OF _ assms(2)])
next
  case (PostTx tx)
  with assms show ?thesis by (auto simp: serve_def rpc_submit_tx_def net_grows_broadcast split: if_splits)
qed (use assms(1) in \<open>simp_all add: serve_def\<close>)

lemma process_step_connections:
  assumes "process_step E N p as p'" "net_ok name (anet (papp p))"
  shows "connections p' \<subseteq># connections p + mset as"
  using assms(1)
proof (cases rule: process_step.cases)
  case (accepted a peer)
  then show ?thesis by (simp add: connections_def map_filter_def)
next
  case (handshaken ts peer is_initiator us stream)
  then show ?thesis
    by (auto simp: connections_def run_connection_def register_peer_def emit_event_def map_filter_def split: prod.split sum.split)
next
  case (takes_event ev evs app)
  have "net_ok name (anet (with_net (\<lambda>n. n\<lparr>events := evs\<rparr>) (papp p)))" using assms(2) by (simp add: net_ok_def)
  from conn_addrs_grow [OF event_grows [OF takes_event(5) this]] show ?thesis
    by (simp add: takes_event(1,2) connections_def conn_addrs_def)
next
  case ticks
  with conn_addrs_grow [OF rebroadcast_grows [OF assms(2)]] show ?thesis by (simp add: connections_def conn_addrs_def)
next
  case (serves a now req r app)
  with conn_addrs_grow [OF serve_grows [OF serves(4) assms(2)]] show ?thesis by (simp add: connections_def conn_addrs_def)
qed (use conn_addrs_net conn_addrs_read in \<open>simp_all add: connections_def conn_addrs_def [symmetric]\<close>)

lemma machine_steps:
  "process_steps E N p as q \<Longrightarrow> machine E N gen d (Some p) \<Longrightarrow> \<exists>d'. machine E N gen d' (Some q)"
  by (induction rule: process_steps.induct) (blast intro: machine.process_moves)+

lemma machine_net_ok:
  assumes "machine E N gen d (Some p)" "hash_sizes E" "supply_capped E gen"
  shows "net_ok (network_name gen) (anet (papp p))"
proof -
  have "node_run E gen (papp p)" using machine_lives [OF assms(1)] by simp
  from node_run_inv [OF this assms(2,3)] show ?thesis by (simp add: node_inv_def)
qed

lemma steps_connections:
  assumes "machine E N gen d (Some p)" "hash_sizes E" "supply_capped E gen"
  shows "process_steps E N p as q \<Longrightarrow> connections q \<subseteq># connections p + mset as"
proof (induction rule: process_steps.induct)
  case (more as q bs r)
  obtain d' where "machine E N gen d' (Some q)" using machine_steps [OF more(1) assms(1)] by blast
  from machine_net_ok [OF this assms(2,3)] have "net_ok (network_name gen) (anet (papp q))" .
  from process_step_connections [OF more(2) this] have "connections r \<subseteq># connections q + mset bs" .
  also have "\<dots> \<subseteq># (connections p + mset as) + mset bs" by (rule subset_mset.add_right_mono [OF more.IH])
  finally show ?case by (simp add: add.assoc)
qed simp

lemma node_start_conns: "node_start P gen s = Some (Inr app) \<Longrightarrow> conns (anet app) = []"
  by (auto simp: node_start_def new_network_def set_height_def split: sum.splits option.splits)

lemma started_connections:
  assumes "node_main P H args d = Some (Inr p, d')"
  shows "connections p = mset (filter (dials H) (arg_peers args))"
proof -
  obtain gen where p: "node_start P gen (stored d) = Some (Inr (papp p))"
    "ptasks p = AcceptLoop (arg_p2p_addr args) # dial_seeds H (arg_peers args) @ [RebroadcastTask, EventTask, RpcServer (arg_rpc_addr args)]"
    using assms by (auto simp: node_main_def listen_def Let_def split: option.splits sum.splits prod.splits if_splits)
  have "conns (anet (papp p)) = []" by (rule node_start_conns [OF p(1)])
  moreover have "List.map_filter task_peer (dial_seeds H as) = filter (dials H) as" for as
    by (induction as) (simp_all add: dial_seeds_def connect_def map_filter_def)
  moreover have "List.map_filter f (xs @ ys) = List.map_filter f xs @ List.map_filter f ys" for f and xs ys
    by (simp add: map_filter_def)
  ultimately show ?thesis by (simp add: connections_def p(2) map_filter_def)
qed

text \<open>
  A node dials only once. Every connection that a process registers is to a seed that answered while the process
  started, one connection for each time the seed is listed, or was accepted from outside; a seed that did not
  answer then, or whose connection has ended, is not dialled again for as long as the process runs. So a
  process whose seeds were down and that nobody dials never has a peer.
\<close>

theorem seeds_dialled_once:
  assumes "machine E N gen d None" "configured_genesis H args = Inr gen" "node_main E H args d = Some (Inr p, d')"
    and "process_steps E N p as q" "hash_sizes E" "supply_capped E gen"
  shows "mset (map conn_addr (conns (anet (papp q)))) \<subseteq># mset (filter (dials H) (arg_peers args)) + mset as \<and>
    fst ` set (peers (anet (papp q))) \<subseteq> set (filter (dials H) (arg_peers args)) \<union> set as"
proof -
  have m: "machine E N gen d' (Some p)" by (rule machine.start_done [OF assms(1-3)])
  have sub: "mset (map conn_addr (conns (anet (papp q)))) \<subseteq># mset (filter (dials H) (arg_peers args)) + mset as"
    using steps_connections [OF m assms(5,6,4)] started_connections [OF assms(3)]
    by (simp add: connections_def) (metis mset_subset_eq_add_left subset_mset.order_trans)
  obtain d2 where "machine E N gen d2 (Some q)" using machine_steps [OF assms(4) m] by blast
  from machine_net_ok [OF this assms(5,6)] have "net_ok (network_name gen) (anet (papp q))" .
  then have "fst ` set (peers (anet (papp q))) \<subseteq> conn_addr ` set (conns (anet (papp q)))"
    by (force simp: net_ok_def)
  with set_mset_mono [OF sub] sub show ?thesis by auto
qed

section \<open>Another configuration\<close>

text \<open>A host on which every call of the start succeeds.\<close>

definition serviceable :: "host \<Rightarrow> node_args \<Rightarrow> bool" where
  "serviceable H args \<longleftrightarrow> makes_dir H (arg_data_dir args) \<and> opens_db H (arg_data_dir args) \<and> key_writable H \<and> key_chmod H \<and>
     binds H (arg_p2p_addr args) \<and> binds H (arg_rpc_addr args)"

lemma serviceable_identity:
  "serviceable H args \<Longrightarrow> \<exists>identity f'. load_or_generate (new_keys H) (key_writable H) (key_chmod H) f = (Some identity, f')"
  by (auto simp: serviceable_def load_or_generate_def Let_def split: option.split)

text \<open>
  C19. The configuration is not compared with the database. A data directory has been used with one genesis
  configuration and the node is started on it with any other, for instance without \<open>--genesis\<close>. Where the
  system calls succeed, the start does not fail: the process serves the stored chain, whose first block is that
  of the old configuration, under the name, the rewards and the difficulty rules of the new one.
\<close>

theorem other_configuration_accepted:
  assumes "machine E N gen d None" "tip (stored d) \<noteq> None" "hash_sizes E" "supply_capped E gen"
    and "serviceable H args" "configured_genesis H args = Inr gen'"
  shows "\<exists>p d'. node_main E H args d = Some (Inr p, d') \<and> stored d' = stored d \<and> cstate (achain (papp p)) = stored d \<and>
    get_hash_by_height (stored d) 0 = Some (genesis_block_hash E gen) \<and> cgenesis (achain (papp p)) = gen' \<and>
    net_name (anet (papp p)) = network_name gen'"
proof -
  obtain app where app: "node_run E gen app" "cstate (achain app) = stored d"
    using machine_lives [OF assms(1)] assms(2) by (auto simp: lived_def empty_state_fields)
  have "chain_inv E gen (stored d)"
    using node_run_inv [OF app(1) assms(3,4)] reachable_inv [OF _ assms(3,4), of "achain app"] by (simp add: app(2) node_inv_def)
  then have root: "get_hash_by_height (stored d) 0 = Some (genesis_block_hash E gen)"
    by (auto simp: chain_inv_def canonical_def)
  obtain h x where t: "tip (stored d) = Some (h, x)" using assms(2) by auto
  obtain identity f where i: "load_or_generate (new_keys H) (key_writable H) (key_chmod H) (key_file d) = (Some identity, f)"
    using serviceable_identity [OF assms(5)] by blast
  show ?thesis
    using assms(5,6) i t root
    by (simp add: node_main_def serviceable_def node_start_def chain_open_def opened_store_def listen_def Let_def set_height_def new_network_def)
qed

section \<open>The example\<close>

text \<open>A host on which one seed answers and one does not, with the sample genesis in a file.\<close>

definition sample_host :: host where
  "sample_host =
     \<lparr>read_text = (\<lambda>path. if path = ''g'' then Some ''{}'' else None), parse_genesis = (\<lambda>data. Some sample_gen),
      makes_dir = (\<lambda>dir. True), opens_db = (\<lambda>dir. True), new_keys = (replicate 32 1, replicate 32 1), key_writable = True,
      key_chmod = True, binds = (\<lambda>a. True), dials = (\<lambda>a. a = ''up'')\<rparr>"

definition sample_args :: node_args where
  "sample_args = default_args\<lparr>arg_genesis := Some ''g'', arg_peers := [''up'', ''down'']\<rparr>"

definition sample_process :: process where
  "sample_process =
     \<lparr>papp = sample_app, pidentity = sample_identity 1,
      ptasks = [AcceptLoop ''0.0.0.0:30303'', Connection ''up'' True, RebroadcastTask, EventTask, RpcServer ''127.0.0.1:8080'']\<rparr>"

definition new_dir :: data_dir where
  "new_dir = \<lparr>stored = empty_state, key_file = None\<rparr>"

lemma sample_start:
  "configured_genesis sample_host sample_args = Inr sample_gen"
  "node_main sample_env sample_host sample_args new_dir =
     Some (Inr sample_process, \<lparr>stored = cstate sample_chain, key_file = Some (replicate 64 1)\<rparr>)"
proof -
  show cfg: "configured_genesis sample_host sample_args = Inr sample_gen"
    by (simp add: configured_genesis_def genesis_load_def sample_host_def sample_args_def)
  have "node_start sample_env sample_gen empty_state = Some (Inr sample_app)"
    by (simp add: node_start_def sample_open sample_fields sample_app_def) (simp add: sample_gen_def)
  moreover from node_start_store(1) [OF this] have "opened_store sample_env sample_gen empty_state = cstate sample_chain"
    by (simp add: sample_app_def)
  moreover have "load_or_generate (new_keys sample_host) True True None = (Some (sample_identity 1), Some (replicate 64 1))"
    by (simp add: load_or_generate_def sample_host_def sample_identity_def replicate_add [symmetric])
  ultimately show "node_main sample_env sample_host sample_args new_dir =
      Some (Inr sample_process, \<lparr>stored = cstate sample_chain, key_file = Some (replicate 64 1)\<rparr>)"
    by (simp add: node_main_def cfg new_dir_def Let_def)
      (simp add: sample_host_def sample_args_def default_args_def listen_def dial_seeds_def connect_def map_filter_def
        sample_process_def)
qed

lemma sample_machine:
  "machine sample_env sample_snow sample_gen new_dir None"
  "machine sample_env sample_snow sample_gen \<lparr>stored = cstate sample_chain, key_file = Some (replicate 64 1)\<rparr> (Some sample_process)"
  "machine sample_env sample_snow sample_gen \<lparr>stored = cstate sample_chain, key_file = Some (replicate 64 1)\<rparr> None"
proof -
  show "machine sample_env sample_snow sample_gen new_dir None" unfolding new_dir_def by (rule machine.empty)
  from machine.start_done [OF this sample_start]
  show "machine sample_env sample_snow sample_gen \<lparr>stored = cstate sample_chain, key_file = Some (replicate 64 1)\<rparr> (Some sample_process)" .
  then show "machine sample_env sample_snow sample_gen \<lparr>stored = cstate sample_chain, key_file = Some (replicate 64 1)\<rparr> None"
    by (rule machine.process_ends)
qed

theorem lives_are_node_runs_witness:
  "node_run sample_env sample_gen (papp sample_process) \<and>
   (\<exists>r app. serve sample_env 30 (GetWork sample_query) (papp sample_process) = Some (r, app)) \<and>
   (\<exists>r d'. node_main sample_env sample_host default_args \<lparr>stored = cstate sample_chain, key_file = Some (replicate 64 1)\<rparr> = Some (r, d') \<and>
      stored d' = cstate sample_chain)"
proof -
  have s: "cstate (achain (papp sample_process)) = cstate sample_chain" by (simp add: sample_process_def sample_app_def)
  from lives_are_node_runs [OF sample_machine(2) sample_env_laws(1) sample_capped, of 30 "GetWork sample_query"]
  show ?thesis by (simp add: s)
qed

text \<open>The seed that answers shakes hands and is registered; another node dials in.\<close>

definition met_process :: process where
  "met_process = sample_process\<lparr>ptasks := [AcceptLoop ''0.0.0.0:30303''] @ [RebroadcastTask, EventTask, RpcServer ''127.0.0.1:8080''],
    papp := with_net (register_peer ''up'') sample_app\<rparr>"

lemma sample_meets: "process_steps sample_env sample_snow sample_process [] met_process"
proof -
  obtain wr s oi where s: "secure_connection sample_snow (sample_identity 1) True wr = (Inr s, oi)"
  proof -
    obtain ti or oi where "\<And>x. handshake_initiator sample_snow (replicate 32 1) (or @ x) = (Inr (ti, replicate 32 1, x), oi)"
      using handshake_meets [OF sample_snow_laws(2) length_replicate length_replicate] by metis
    from this [of "[]"] show ?thesis by (intro that [of "or @ []"]) (simp add: secure_connection_def sample_identity_def)
  qed
  have p: "ptasks sample_process = [AcceptLoop ''0.0.0.0:30303''] @ Connection ''up'' True #
      [RebroadcastTask, EventTask, RpcServer ''127.0.0.1:8080'']" "pidentity sample_process = sample_identity 1"
    "papp sample_process = sample_app"
    by (simp_all add: sample_process_def)
  have "run_connection sample_snow (sample_identity 1) ''up'' True wr = register_peer ''up''"
    by (simp add: fun_eq_iff run_connection_def s)
  with process_step.handshaken [where N = sample_snow and E = sample_env and stream = wr, OF p(1)]
  have "process_step sample_env sample_snow sample_process [] met_process" by (simp only: met_process_def p(2,3))
  from process_steps.more [OF process_steps.none this] show ?thesis by simp
qed

theorem seeds_dialled_once_witness:
  "\<exists>q. process_steps sample_env sample_snow sample_process [''in''] q \<and>
     map conn_addr (conns (anet (papp q))) = [''up''] \<and>
     fst ` set (peers (anet (papp q))) \<subseteq> {''up''} \<union> {''in''}"
proof -
  let ?q = "met_process\<lparr>ptasks := ptasks met_process @ [Connection ''in'' False]\<rparr>"
  have "process_step sample_env sample_snow met_process [''in''] ?q"
    by (rule process_step.accepted [of "''0.0.0.0:30303''"]) (simp add: met_process_def)
  from process_steps.more [OF sample_meets this] have q: "process_steps sample_env sample_snow sample_process [''in''] ?q"
    by (simp only: append_Nil)
  have h: "filter (dials sample_host) (arg_peers sample_args) = [''up'']" by (simp add: sample_host_def sample_args_def)
  from seeds_dialled_once [OF sample_machine(1) sample_start q sample_env_laws(1) sample_capped, unfolded h]
  have "fst ` set (peers (anet (papp ?q))) \<subseteq> {''up''} \<union> {''in''}" by simp
  moreover have "map conn_addr (conns (anet (papp ?q))) = [''up'']"
    by (simp add: met_process_def register_peer_def emit_event_def sample_app_def new_network_def set_height_def)
  ultimately show ?thesis using q by (intro exI [of _ ?q] conjI)
qed

theorem other_configuration_accepted_witness:
  "\<exists>p d'. node_main sample_env sample_host default_args \<lparr>stored = cstate sample_chain, key_file = Some (replicate 64 1)\<rparr> =
       Some (Inr p, d') \<and>
     cstate (achain (papp p)) = cstate sample_chain \<and> cgenesis (achain (papp p)) = testnet_default \<and>
     net_name (anet (papp p)) = ''ondris-testnet''"
proof -
  have "serviceable sample_host default_args" by (simp add: serviceable_def sample_host_def)
  moreover have "configured_genesis sample_host default_args = Inr testnet_default"
    by (simp add: configured_genesis_def default_args_def)
  moreover have "network_name testnet_default = ''ondris-testnet''" by (simp add: testnet_default_def)
  moreover have "tip (stored \<lparr>stored = cstate sample_chain, key_file = Some (replicate 64 1)\<rparr>) \<noteq> None"
    by (simp add: sample_fields)
  ultimately show ?thesis
    using other_configuration_accepted [OF sample_machine(3) _ sample_env_laws(1) sample_capped] by fastforce
qed

end
