(* ===== verification/Gpu_Miner.thy ===== *)
theory Gpu_Miner
  imports Miner
begin

text \<open>
  Model of the host side of the GPU miner, \<open>crates/ondris-miner-gpu/src/gpu.rs\<close> and \<open>main.rs\<close>: the
  mining session with its cached buffers, the search loop that checks every hit of the GPU again on the
  CPU, the self test, and what the main loop keeps between rounds. OpenCL and the kernel are parameters:
  what the \<open>k\<close>-th call of the device does is a function of \<open>k\<close> and the arguments it sees, so a kernel may
  answer anything, and a different thing every time. A device buffer is its content.
\<close>

datatype gpu_error = HeaderTooLong | OpenClError | Mismatch bytes u64

record gpu =
  upload_ok :: "nat \<Rightarrow> bool"  \<comment> \<open>creating and writing a buffer succeeds\<close>
  launch_mine :: "nat \<Rightarrow> bytes \<Rightarrow> u64 \<Rightarrow> bytes \<Rightarrow> u32 \<Rightarrow> u64 \<Rightarrow> u32 \<Rightarrow> bytes \<Rightarrow> nat \<Rightarrow> (u32 \<times> u64) option"
    \<comment> \<open>\<open>ondris_mine\<close>: dataset, its length, header, its length, first nonce, accesses, target, work size; what
        it leaves in \<open>result_found\<close> and \<open>result_nonce\<close>, or \<open>None\<close> when a call fails\<close>
  launch_debug :: "nat \<Rightarrow> bytes \<Rightarrow> u64 \<Rightarrow> bytes \<Rightarrow> u32 \<Rightarrow> u64 \<Rightarrow> u32 \<Rightarrow> bytes option"  \<comment> \<open>\<open>ondris_hash_debug\<close>\<close>

section \<open>The session\<close>

record session =
  dataset_buf :: bytes
  dataset_len :: u64
  cached_header :: "(bytes \<times> bytes) option"
  cached_target :: "(bytes \<times> bytes) option"
  clock :: nat  \<comment> \<open>calls of the device so far\<close>

definition mining_session :: "gpu \<Rightarrow> nat \<Rightarrow> bytes \<Rightarrow> gpu_error + session" where
  "mining_session G k dataset =
     (if upload_ok G k
      then Inr \<lparr>dataset_buf = dataset, dataset_len = of_nat (length dataset), cached_header = None, cached_target = None,
                clock = k + 1\<rparr>
      else Inl OpenClError)"

text \<open>A cached buffer, replaced when it was made for something else.\<close>

definition refresh :: "gpu \<Rightarrow> nat \<Rightarrow> bytes \<Rightarrow> (bytes \<times> bytes) option \<Rightarrow> (bytes \<times> bytes) option" where
  "refresh G k key cached =
     (if map_option fst cached \<noteq> Some key
      then (if upload_ok G k then Some (key, key) else None)
      else cached)"

definition try_batch ::
    "gpu \<Rightarrow> session \<Rightarrow> bytes \<Rightarrow> u64 \<Rightarrow> u32 \<Rightarrow> bytes \<Rightarrow> nat \<Rightarrow> (gpu_error + u64 option) \<times> session" where
  "try_batch G s header_bytes nonce_base accesses target batch_size =
     (if \<not> length header_bytes + 8 \<le> 144 then (Inl HeaderTooLong, s)
      else case refresh G (clock s) header_bytes (cached_header s) of
        None \<Rightarrow> (Inl OpenClError, s\<lparr>clock := clock s + 1\<rparr>)
      | Some hdr \<Rightarrow>
          (let s1 = s\<lparr>cached_header := Some hdr, clock := clock s + 1\<rparr>
           in case refresh G (clock s1) target (cached_target s1) of
                None \<Rightarrow> (Inl OpenClError, s1\<lparr>clock := clock s1 + 1\<rparr>)
              | Some tgt \<Rightarrow>
                  (let s2 = s1\<lparr>cached_target := Some tgt, clock := clock s1 + 1\<rparr>;
                       s3 = s2\<lparr>clock := clock s2 + 1\<rparr>
                   in case launch_mine G (clock s2) (dataset_buf s2) (dataset_len s2) (snd hdr)
                             (of_nat (length header_bytes)) nonce_base accesses (snd tgt) batch_size of
                        None \<Rightarrow> (Inl OpenClError, s3)
                      | Some (flag, n) \<Rightarrow> (Inr (if flag \<noteq> 0 then Some n else None), s3))))"

section \<open>The search\<close>

text \<open>\<open>mine_block_gpu\<close>; the outer \<open>None\<close> is a panic of the hash function or a loop that never ends.\<close>

partial_function (option) gpu_loop ::
    "'a prims_scheme \<Rightarrow> gpu \<Rightarrow> block \<Rightarrow> bytes \<Rightarrow> dataset \<Rightarrow> nat \<Rightarrow> u64 \<Rightarrow> session \<Rightarrow> ((gpu_error + block) \<times> session) option" where
  "gpu_loop P G b target ds batch_size nonce_base s =
     (case try_batch G s (bytes_for_pow (header b)) nonce_base (of_nat ACCESSES) target batch_size of
        (Inl e, s') \<Rightarrow> Some (Inl e, s')
      | (Inr None, s') \<Rightarrow> gpu_loop P G b target ds batch_size (nonce_base + of_nat batch_size) s'
      | (Inr (Some n), s') \<Rightarrow>
          (case ondris_hash P (bytes_for_pow (header b)) n ds of
             None \<Rightarrow> None
           | Some x \<Rightarrow>
               if meets_target x target then Some (Inr (with_nonce b n), s')
               else gpu_loop P G b target ds batch_size (nonce_base + of_nat batch_size) s'))"

definition mine_block_gpu ::
    "'a prims_scheme \<Rightarrow> gpu \<Rightarrow> session \<Rightarrow> block \<Rightarrow> bytes \<Rightarrow> dataset \<Rightarrow> nat \<Rightarrow> ((gpu_error + block) \<times> session) option" where
  "mine_block_gpu P G s b target ds batch_size = gpu_loop P G b target ds batch_size 0 s"

section \<open>Between rounds\<close>

record gpu_miner =
  cached_dataset :: "(u64 \<times> dataset) option"
  gpu_session :: "(u64 \<times> session) option"

text \<open>The dataset and the session of a round of \<open>mine\<close>; an OpenCL error ends the program.\<close>

definition prepare_round ::
    "'a prims_scheme \<Rightarrow> gpu \<Rightarrow> nat \<Rightarrow> u64 \<Rightarrow> hash256 option \<Rightarrow> gpu_miner \<Rightarrow> (gpu_error + dataset \<times> session \<times> gpu_miner) option" where
  "prepare_round P G k epoch boundary m =
     (case choose_dataset P (cached_dataset m) epoch boundary of
        None \<Rightarrow> None
      | Some (ds, cached) \<Rightarrow>
          (let hit = (map_option fst (cached_dataset m) = Some epoch);
               sess = (if hit then gpu_session m else None)
           in case sess of
                Some (e, s) \<Rightarrow> Some (Inr (ds, s, \<lparr>cached_dataset = cached, gpu_session = sess\<rparr>))
              | None \<Rightarrow>
                  (case mining_session G k (ds_bytes ds) of
                     Inl err \<Rightarrow> Some (Inl err)
                   | Inr s \<Rightarrow> Some (Inr (ds, s, \<lparr>cached_dataset = cached, gpu_session = Some (epoch, s)\<rparr>)))))"

text \<open>A round on the work the node has handed out: the block it posts, and what stays for the next.\<close>

definition gpu_round ::
    "'a prims_scheme \<Rightarrow> gpu \<Rightarrow> nat \<Rightarrow> u64 \<Rightarrow> hash256 option \<Rightarrow> block \<Rightarrow> bytes \<Rightarrow> nat \<Rightarrow> gpu_miner \<Rightarrow>
       (gpu_error + block \<times> gpu_miner) option" where
  "gpu_round P G k epoch boundary b target batch_size m =
     (case prepare_round P G k epoch boundary m of
        None \<Rightarrow> None
      | Some (Inl e) \<Rightarrow> Some (Inl e)
      | Some (Inr (ds, s, m')) \<Rightarrow>
          (case mine_block_gpu P G s b target ds batch_size of
             None \<Rightarrow> None
           | Some (Inl e, s') \<Rightarrow> Some (Inl e)
           | Some (Inr mined, s') \<Rightarrow>
               Some (Inr (mined, m'\<lparr>gpu_session := map_option (\<lambda>(e, _). (e, s')) (gpu_session m')\<rparr>))))"

section \<open>The benchmark\<close>

text \<open>Its batches, the untimed one first; what it prints is left out.\<close>

definition benchmark_header :: bytes where
  "benchmark_header = string_bytes ''a realistic length header value for benchmarking''"

fun benchmark_batches :: "gpu \<Rightarrow> bytes \<Rightarrow> nat \<Rightarrow> u64 list \<Rightarrow> session \<Rightarrow> (gpu_error + unit) \<times> session" where
  "benchmark_batches G target batch_size [] s = (Inr (), s)"
| "benchmark_batches G target batch_size (base # rest) s =
     (case try_batch G s benchmark_header base (of_nat ACCESSES) target batch_size of
        (Inl e, s') \<Rightarrow> (Inl e, s')
      | (Inr _, s') \<Rightarrow> benchmark_batches G target batch_size rest s')"

definition benchmark :: "'a prims_scheme \<Rightarrow> gpu \<Rightarrow> nat \<Rightarrow> nat \<Rightarrow> (gpu_error + unit) option" where
  "benchmark P G batch_size batches =
     (case generate_with_sizes P 0 (hash_of P (string_bytes ''gpu-benchmark-seed'')) CACHE_SIZE DATASET_SIZE of
        None \<Rightarrow> None
      | Some ds \<Rightarrow>
          (case mining_session G 0 (ds_bytes ds) of
             Inl e \<Rightarrow> Some (Inl e)
           | Inr s \<Rightarrow>
               Some (fst (benchmark_batches G (replicate 32 0) batch_size
                 (0 # map (\<lambda>i. (of_nat i + 1) * of_nat batch_size) [0..<batches]) s))))"

section \<open>The self test\<close>

definition hash_debug :: "gpu \<Rightarrow> nat \<Rightarrow> bytes \<Rightarrow> bytes \<Rightarrow> u64 \<Rightarrow> u32 \<Rightarrow> gpu_error + bytes" where
  "hash_debug G k dataset header_bytes n accesses =
     (if \<not> length header_bytes + 8 \<le> 144 then Inl HeaderTooLong
      else if \<not> (upload_ok G k \<and> upload_ok G (k + 1)) then Inl OpenClError
      else case launch_debug G (k + 2) dataset (of_nat (length dataset)) header_bytes (of_nat (length header_bytes)) n accesses of
        None \<Rightarrow> Inl OpenClError
      | Some out \<Rightarrow> Inr out)"

text \<open>One of its loops, over the headers and nonces it compares; \<open>None\<close> is a panic.\<close>

fun compare_hashes ::
    "'a prims_scheme \<Rightarrow> gpu \<Rightarrow> nat \<Rightarrow> dataset \<Rightarrow> nat \<Rightarrow> (bytes \<times> u64) list \<Rightarrow> (gpu_error + unit) option" where
  "compare_hashes P G k ds accesses [] = Some (Inr ())"
| "compare_hashes P G k ds accesses ((hdr, n) # rest) =
     (case ondris_hash_with_accesses P hdr n ds accesses of
        None \<Rightarrow> None
      | Some expected \<Rightarrow>
          (case hash_debug G k (ds_bytes ds) hdr n (of_nat accesses) of
             Inl e \<Rightarrow> Some (Inl e)
           | Inr got \<Rightarrow>
               if got = as_bytes expected then compare_hashes P G (k + 3) ds accesses rest
               else Some (Inl (Mismatch hdr n))))"

definition tiny_checks :: "(bytes \<times> u64) list" where
  "tiny_checks =
     List.product [string_bytes ''header-a'', string_bytes ''a different, longer header value''] [0, 1, 42, - 1, 123456789]"

definition full_checks :: "(bytes \<times> u64) list" where
  "full_checks =
     [(string_bytes ''a realistic length header value for this check'', 424242),
      (string_bytes ''another realistic header, just in case nonce=0 is special'', 0)]"

definition self_test :: "'a prims_scheme \<Rightarrow> gpu \<Rightarrow> (gpu_error + unit) option" where
  "self_test P G =
     (case generate_with_sizes P 0 (hash_of P (string_bytes ''gpu-self-test-seed'')) 4096 8192 of
        None \<Rightarrow> None
      | Some ds \<Rightarrow>
          (case compare_hashes P G 0 ds 8 tiny_checks of
             None \<Rightarrow> None
           | Some (Inl e) \<Rightarrow> Some (Inl e)
           | Some (Inr ()) \<Rightarrow>
               (case generate_with_sizes P 0 (hash_of P (string_bytes ''gpu-self-test-full-size-seed'')) CACHE_SIZE DATASET_SIZE of
                  None \<Rightarrow> None
                | Some full \<Rightarrow> compare_hashes P G 30 full ACCESSES full_checks)))"

section \<open>The caches are transparent\<close>

definition session_for :: "dataset \<Rightarrow> session \<Rightarrow> bool" where
  "session_for ds s \<longleftrightarrow> dataset_buf s = ds_bytes ds \<and> dataset_len s = of_nat (length (ds_bytes ds)) \<and>
     (\<forall>k v. cached_header s = Some (k, v) \<longrightarrow> v = k) \<and> (\<forall>k v. cached_target s = Some (k, v) \<longrightarrow> v = k)"

lemma refresh_None: "refresh G k key cached = None \<Longrightarrow> \<not> upload_ok G k"
  by (cases cached) (auto simp: refresh_def split: if_splits)

lemma refresh_Some:
  "refresh G k key cached = Some p \<Longrightarrow> (\<forall>j v. cached = Some (j, v) \<longrightarrow> v = j) \<Longrightarrow> p = (key, key)"
  by (cases cached) (auto simp: refresh_def split: if_splits)

text \<open>The device sees the header, the target and the dataset of the call, whatever was mined before.\<close>

lemma try_batch_cases:
  assumes "session_for ds s" "try_batch G s hdr base acc target n = (r, s')"
  shows "session_for ds s' \<and>
    (r = Inl HeaderTooLong \<and> 136 < length hdr \<or> 
     r = Inl OpenClError \<and> (\<exists>k. \<not> upload_ok G k \<or>
       launch_mine G k (ds_bytes ds) (of_nat (length (ds_bytes ds))) hdr (of_nat (length hdr)) base acc target n = None) \<or>
     (\<exists>k flag m. launch_mine G k (ds_bytes ds) (of_nat (length (ds_bytes ds))) hdr (of_nat (length hdr)) base acc target n =
         Some (flag, m) \<and> r = Inr (if flag \<noteq> 0 then Some m else None)))"
proof (cases "length hdr + 8 \<le> 144")
  case True
  show ?thesis
  proof (cases "refresh G (clock s) hdr (cached_header s)")
    case None
    then show ?thesis using assms True refresh_None [OF None] by (auto simp: try_batch_def session_for_def)
  next
    case (Some h)
    then have h: "h = (hdr, hdr)" using refresh_Some assms(1) by (auto simp: session_for_def)
    show ?thesis
    proof (cases "refresh G (clock s + 1) target (cached_target s)")
      case None
      then show ?thesis using assms True Some h refresh_None [OF None] by (auto simp: try_batch_def session_for_def Let_def)
    next
      case t: (Some t)
      then have "t = (target, target)" using refresh_Some assms(1) by (auto simp: session_for_def)
      note eq = assms(2) [unfolded try_batch_def Let_def] Some h t this True
      show ?thesis
      proof (cases "launch_mine G (clock s + 2) (dataset_buf s) (dataset_len s) hdr (of_nat (length hdr)) base acc target n")
        case None
        with eq assms(1) show ?thesis by (auto simp: session_for_def)
      next
        case (Some fm)
        then obtain f m where fm: "launch_mine G (clock s + 2) (ds_bytes ds) (of_nat (length (ds_bytes ds))) hdr
            (of_nat (length hdr)) base acc target n = Some (f, m)"
          using assms(1) by (cases fm) (simp add: session_for_def)
        with eq assms(1) have "r = Inr (if f \<noteq> 0 then Some m else None)" "session_for ds s'"
          by (auto simp: session_for_def)
        with fm show ?thesis by blast
      qed
    qed
  qed
qed (use assms in \<open>auto simp: try_batch_def\<close>)

lemma prepare_round_session:
  assumes "prepare_round P G k epoch boundary m = Some (Inr (ds, s, m'))"
    and "\<And>e s. gpu_session m = Some (e, s) \<Longrightarrow> \<exists>e' ds. cached_dataset m = Some (e', ds) \<and> session_for ds s"
  shows "session_for ds s \<and> gpu_session m' \<noteq> None \<and>
    (\<forall>e s. gpu_session m' = Some (e, s) \<longrightarrow> (\<exists>e' ds. cached_dataset m' = Some (e', ds) \<and> session_for ds s))"
proof -
  obtain cached where c: "choose_dataset P (cached_dataset m) epoch boundary = Some (ds, cached)"
    and cds: "\<exists>e'. cached = Some (e', ds)"
    using assms(1) by (cases "cached_dataset m")
      (auto simp: prepare_round_def choose_dataset_def Let_def split: option.splits if_splits sum.splits)
  have fresh: "mining_session G k (ds_bytes ds) = Inr s1 \<Longrightarrow> session_for ds s1" for s1
    by (auto simp: mining_session_def session_for_def split: if_splits)
  have hit: "cached = cached_dataset m" if "map_option fst (cached_dataset m) = Some epoch"
    using c that by (auto simp: choose_dataset_def Let_def)
  show ?thesis
  proof (cases "map_option fst (cached_dataset m) = Some epoch")
    case True
    then show ?thesis
      using assms c cds fresh hit by (fastforce simp: prepare_round_def Let_def split: option.splits sum.splits)
  next
    case False
    then show ?thesis
      using assms(1) c cds fresh by (auto simp: prepare_round_def Let_def split: sum.splits)
  qed
qed

section \<open>What the search returns\<close>

definition checked_result :: "'a prims_scheme \<Rightarrow> block \<Rightarrow> bytes \<Rightarrow> dataset \<Rightarrow> gpu_error + block \<Rightarrow> bool" where
  "checked_result P b target ds r \<longleftrightarrow>
     (\<forall>m. r = Inr m \<longrightarrow> (\<exists>n x. m = with_nonce b n \<and> header_id P (header m) ds = Some x \<and> meets_target x target))"

lemma gpu_loop_checked:
  assumes "gpu_loop P G b target ds n base s = Some (r, s')"
  shows "checked_result P b target ds r \<and> (session_for ds s \<longrightarrow> session_for ds s')"
proof (rule gpu_loop.raw_induct [of "\<lambda>(((((((P, G), b), target), ds), n), base), s) y.
    checked_result P b target ds (fst y) \<and> (session_for ds s \<longrightarrow> session_for ds (snd y))",
    OF _ assms, unfolded prod.case fst_conv snd_conv])
  fix loop and P :: "'a prims_scheme" and G b target ds n base s y
  assume IH: "\<And>P G b target ds n base s y. loop P G b target ds n base s = Some y \<Longrightarrow>
      checked_result P b target ds (fst y) \<and> (session_for ds s \<longrightarrow> session_for ds (snd y))"
    and body: "(case try_batch G s (bytes_for_pow (header b)) base (of_nat ACCESSES) target n of
        (Inl e, s') \<Rightarrow> Some (Inl e, s')
      | (Inr None, s') \<Rightarrow> loop P G b target ds n (base + of_nat n) s'
      | (Inr (Some m), s') \<Rightarrow>
          (case ondris_hash P (bytes_for_pow (header b)) m ds of
             None \<Rightarrow> None
           | Some x \<Rightarrow>
               if meets_target x target then Some (Inr (with_nonce b m), s')
               else loop P G b target ds n (base + of_nat n) s')) = Some y"
  obtain t s1 where t: "try_batch G s (bytes_for_pow (header b)) base (of_nat ACCESSES) target n = (t, s1)" by (cases "try_batch G s (bytes_for_pow (header b)) base (of_nat ACCESSES) target n")
  have kept: "session_for ds s \<Longrightarrow> session_for ds s1" using try_batch_cases [OF _ t] by blast
  show "checked_result P b target ds (fst y) \<and> (session_for ds s \<longrightarrow> session_for ds (snd y))"
    using body t kept IH [of P G b target ds n "base + of_nat n" s1 y]
    by (auto simp: checked_result_def header_id_def split: sum.splits option.splits if_splits)
qed

interpretation gpu: nonce_search P "\<lambda>b target ds m. \<exists>G s n s'. mine_block_gpu P G s b target ds n = Some (Inr m, s')"
  for P :: "'a env_scheme"
  by unfold_locales (use gpu_loop_checked in \<open>fastforce simp: mine_block_gpu_def checked_result_def\<close>)

text \<open>
  A device that does what it should on batches of \<open>n\<close> nonces, for headers that fit the buffer of the kernel: its
  flag says whether the batch holds a nonce that meets the target, and then it reports one that does.
\<close>

definition honest :: "'a prims_scheme \<Rightarrow> gpu \<Rightarrow> nat \<Rightarrow> dataset \<Rightarrow> bool" where
  "honest P G n ds \<longleftrightarrow> (\<forall>k. upload_ok G k) \<and>
     (\<forall>k hdr base target. length hdr \<le> 136 \<longrightarrow> (\<exists>f m.
        launch_mine G k (ds_bytes ds) (of_nat (length (ds_bytes ds))) hdr (of_nat (length hdr)) base (of_nat ACCESSES) target n =
          Some (f, m) \<and>
        (if \<exists>i < n. good_nonce P hdr target ds (base + of_nat i) then f \<noteq> 0 \<and> good_nonce P hdr target ds m else f = 0)))"

lemma honest_batch:
  assumes "honest P G n ds" "session_for ds s" "length hdr \<le> 136"
  shows "\<exists>r s'. try_batch G s hdr base (of_nat ACCESSES) target n = (Inr r, s') \<and> session_for ds s' \<and>
    (if \<exists>i < n. good_nonce P hdr target ds (base + of_nat i) then \<exists>m. r = Some m \<and> good_nonce P hdr target ds m else r = None)"
proof -
  obtain r s' where b: "try_batch G s hdr base (of_nat ACCESSES) target n = (r, s')" by (cases "try_batch G s hdr base (of_nat ACCESSES) target n")
  have "upload_ok G k \<and> launch_mine G k (ds_bytes ds) (of_nat (length (ds_bytes ds))) hdr (of_nat (length hdr)) base
      (of_nat ACCESSES) target n \<noteq> None" for k
    using assms(1,3) unfolding honest_def by (metis option.distinct(1))
  with try_batch_cases [OF assms(2) b] assms(3) obtain k f m where
    l: "launch_mine G k (ds_bytes ds) (of_nat (length (ds_bytes ds))) hdr (of_nat (length hdr)) base (of_nat ACCESSES) target n = Some (f, m)"
    "r = Inr (if f \<noteq> 0 then Some m else None)" "session_for ds s'" by auto
  moreover have "if \<exists>i < n. good_nonce P hdr target ds (base + of_nat i) then f \<noteq> 0 \<and> good_nonce P hdr target ds m else f = 0"
    using assms(1,3) l(1) unfolding honest_def by (metis option.inject prod.inject)
  ultimately show ?thesis using b by (auto split: if_splits)
qed

lemma honest_loop:
  assumes "honest P G n ds" "session_for ds s" "length (bytes_for_pow (header b)) \<le> 136"
    and "good_nonce P (bytes_for_pow (header b)) target ds (base + of_nat (j * n + i))" "i < n"
  shows "\<exists>m s'. gpu_loop P G b target ds n base s = Some (Inr m, s')"
  using assms(2,4)
proof (induction j arbitrary: base s)
  case (0 base s)
  let ?hb = "bytes_for_pow (header b)"
  have "\<exists>i < n. good_nonce P ?hb target ds (base + of_nat i)" using 0(2) assms(5) by auto
  then obtain m s' where "try_batch G s ?hb base (of_nat ACCESSES) target n = (Inr (Some m), s')" "good_nonce P ?hb target ds m"
    using honest_batch [OF assms(1) 0(1) assms(3), of base target] by auto
  then show ?case by (subst gpu_loop.simps) (auto simp: good_nonce_def)
next
  case (Suc j base s)
  let ?hb = "bytes_for_pow (header b)"
  obtain r s' where t: "try_batch G s ?hb base (of_nat ACCESSES) target n = (Inr r, s')" "session_for ds s'"
    "\<forall>m. r = Some m \<longrightarrow> good_nonce P ?hb target ds m"
    using honest_batch [OF assms(1) Suc.prems(1) assms(3), of base target] by (auto split: if_splits)
  have "base + of_nat (Suc j * n + i) = base + of_nat n + of_nat (j * n + i)" by (simp add: algebra_simps)
  then have "good_nonce P ?hb target ds (base + of_nat n + of_nat (j * n + i))" using Suc.prems(2) by (simp only:)
  from Suc.IH [OF t(2) this] obtain m s2 where "gpu_loop P G b target ds n (base + of_nat n) s' = Some (Inr m, s2)" by blast
  with t(1,3) show ?case by (subst gpu_loop.simps) (auto simp: good_nonce_def split: option.split)
qed

end
