(* ===== verification/Mining_Round.thy ===== *)
theory Mining_Round
  imports Node_Properties Gpu_Miner
begin

text \<open>
  A round of the CPU miner against a node: it asks for work, makes or reuses the dataset, searches and
  posts the block. The search itself is theory \<open>Miner\<close>.
\<close>

text \<open>What a template of a running node is.\<close>

lemma node_work:
  assumes "node_inv E gen app" "hash_sizes E" "supply_capped E gen"
    and "rpc_get_work E now query app = Some (Inr w, app1)"
  obtains a ds c where
    "work_template E now (achain app) a (mempool_all (cstate (achain app))) = Some (Inr (wt_block w, ds), c)"
    "app1 = app\<lparr>achain := c\<rparr>" "wt_target w = target_for_difficulty (difficulty (header (wt_block w)))"
    "wt_epoch w = 0" "wt_boundary_hash w = None" "generate E 0 (epoch_seed E None) = Some ds"
proof -
  have reach: "reachable E gen (achain app)" using assms(1) by (simp add: node_inv_def)
  obtain a ds c where w: "work_template E now (achain app) a (mempool_all (cstate (achain app))) = Some (Inr (wt_block w, ds), c)"
    "app1 = app\<lparr>achain := c\<rparr>" "wt_target w = target_for_difficulty (difficulty (header (wt_block w)))"
    using get_work_template [OF assms(4)] by blast
  obtain h where h: "height (header (wt_block w)) = h + 1" "dataset_for_height E (achain app) (h + 1) = Some (Inr ds, c)"
    using template_fields [OF w(1)] by blast
  have ds: "h + 1 < EPOCH_LENGTH" "generate E 0 (epoch_seed E None) = Some ds"
    using h(2) first_epoch_dataset [OF reachable_inv [OF reach assms(2,3)] reachable_first_epoch [OF reach assms(2,3)], of "h + 1"]
    by (auto split: if_splits option.splits)
  have "wt_epoch w = 0 \<and> wt_boundary_hash w = None"
  proof -
    have "epoch_of (height (header (wt_block w))) = 0" using ds(1) by (simp add: epoch_of_zero h(1))
    then show ?thesis using assms(4) w(1)
      by (auto simp: rpc_get_work_def Let_def split: sum.splits option.splits prod.splits)
  qed
  with w ds that show thesis by blast
qed

text \<open>
  C39. Work is well-typed. On every run every stored block is filed under a hash of 32 bytes, and the work the node
  hands out is well-formed: a header of 108 bytes with nonce 0, which fits the fixed buffer of the GPU
  kernel, over the signed pending transactions, a target of 32 bytes, the first epoch; every nonce put
  into it has a hash.
\<close>

theorem work_is_typed:
  assumes "node_run E gen app" "hash_sizes E" "supply_capped E gen"
    and "rpc_get_work E now query app = Some (Inr w, app1)"
  shows "(\<forall>x b. get_block (cstate (achain app1)) x = Some b \<longrightarrow> wf_hash x) \<and>
    wf_header (header (wt_block w)) \<and> length (bytes_for_pow (header (wt_block w))) = 108 \<and> nonce (header (wt_block w)) = 0 \<and>
    tx_root (header (wt_block w)) = compute_tx_root E (wt_block w) \<and> list_all (is_signature_valid E) (transactions (wt_block w)) \<and>
    length (wt_target w) = 32 \<and> wt_epoch w = epoch_of (height (header (wt_block w))) \<and> wt_boundary_hash w = None \<and>
    (\<exists>ds. generate E (wt_epoch w) (epoch_seed E (wt_boundary_hash w)) = Some ds \<and>
       (\<forall>n. \<exists>x. header_id E (header (with_nonce (wt_block w) n)) ds = Some x \<and> wf_hash x))"
proof -
  have inv: "node_inv E gen app" by (rule node_run_inv [OF assms(1-3)])
  then have reach: "reachable E gen (achain app)"
    and signed: "list_all (is_signature_valid E) (mempool_all (cstate (achain app)))"
    by (simp_all add: node_inv_def pending_signed_def list_all_iff)
  from inv assms(2-4) obtain a ds c where
    w: "work_template E now (achain app) a (mempool_all (cstate (achain app))) = Some (Inr (wt_block w, ds), c)"
    "app1 = app\<lparr>achain := c\<rparr>" "wt_target w = target_for_difficulty (difficulty (header (wt_block w)))"
    "wt_epoch w = 0" "wt_boundary_hash w = None" "generate E 0 (epoch_seed E None) = Some ds"
    by (rule node_work)
  have wf: "wf_dataset ds" using generate_total [OF assms(2), of 0 "epoch_seed E None"] w(6) by auto
  have filed: "wf_hash x" if "get_block (cstate (achain app)) x = Some b" for x b
  proof (cases "x = genesis_block_hash E gen")
    case True
    then show ?thesis by (simp add: genesis_block_hash_def wf_hash_of assms(2))
  next
    case False
    with reachable_inv [OF reach assms(2,3)] that have "checked E gen (cstate (achain app)) x b"
      by (simp add: chain_inv_def block_tree_def)
    then obtain ds where "wf_dataset ds" "header_id E (header b) ds = Some x" by (auto simp: checked_def)
    then show ?thesis using ondris_hash_total [OF assms(2), of ds "bytes_for_pow (header b)" "nonce (header b)" ACCESSES]
      by (simp add: header_id_def ondris_hash_def)
  qed
  obtain h x0 where t: "tip (cstate (achain app)) = Some (h, x0)" "prev_hash (header (wt_block w)) = x0"
    "transactions (wt_block w) = mempool_all (cstate (achain app))" "tx_root (header (wt_block w)) = compute_tx_root E (wt_block w)"
    "dataset_for_height E (achain app) (h + 1) = Some (Inr ds, c)" "height (header (wt_block w)) = h + 1"
    using template_fields [OF w(1)] by blast
  obtain k where "get_block (cstate (achain app)) x0 = Some k"
    using reachable_inv [OF reach assms(2,3)] t(1) branch_stored by (fastforce simp: chain_inv_def canonical_def)
  then have "wf_hash (prev_hash (header (wt_block w)))" using filed t(2) by simp
  moreover have "wf_hash (tx_root (header (wt_block w)))"
    by (simp add: t(4) compute_tx_root_def wf_merkle_root assms(2))
  moreover have miner: "length (addr_bytes (miner (header (wt_block w)))) = 20 \<and> nonce (header (wt_block w)) = 0 \<and>
      wt_epoch w = epoch_of (height (header (wt_block w)))"
    using assms(4) addr_from_str_length
    by (auto simp: rpc_get_work_def work_template_def Let_def split: sum.splits option.splits prod.splits)
  ultimately have hd: "wf_header (header (wt_block w))" by (simp add: wf_header_def)
  have "\<exists>x. header_id E (header (with_nonce (wt_block w) n)) ds = Some x \<and> wf_hash x" for n
    using ondris_hash_total [OF assms(2) wf] by (simp add: header_id_def ondris_hash_def)
  moreover have "get_block (cstate (achain app1)) = get_block (cstate (achain app))"
    using dataset_state [OF t(5)] by (simp add: w(2))
  ultimately show ?thesis
    using hd length_bytes_for_pow [OF hd] filed miner t(3,4) signed w(3-6) by (auto simp: target_length)
qed

theorem work_is_typed_witness:
  "\<exists>app1. rpc_get_work sample_env 30 sample_query (posted (sample_tx 0) sample_app) = Some (Inr (sample_work [sample_tx 0]), app1) \<and>
     wf_header (header (wt_block (sample_work [sample_tx 0]))) \<and> wf_hash sample_root"
proof -
  let ?app = "posted (sample_tx 0) sample_app"
  have like: "like_sample ?app" by (rule like_sample_posted [OF like_sample_app sample_tx_valid])
  obtain app1 where work: "rpc_get_work sample_env 30 sample_query ?app = Some (Inr (sample_work [sample_tx 0]), app1)"
    using like_sample_work [OF like] posted_sample_pending [of 0] by auto
  have "node_run sample_env sample_gen ?app" using like by (simp add: like_sample_def)
  from work_is_typed [OF this sample_env_laws(1) sample_capped work] work show ?thesis by auto
qed

text \<open>The dataset the miner keeps is that of the only epoch a node hands out.\<close>

definition cached_ok :: "'a prims_scheme \<Rightarrow> (u64 \<times> dataset) option \<Rightarrow> bool" where
  "cached_ok P cached \<longleftrightarrow> (\<forall>e ds. cached = Some (e, ds) \<longrightarrow> e = 0 \<and> generate P 0 (epoch_seed P None) = Some ds)"

lemma choose_dataset_first:
  assumes "cached_ok P cached" "generate P 0 (epoch_seed P None) = Some ds"
  shows "\<exists>cached'. choose_dataset P cached 0 None = Some (ds, cached') \<and> cached_ok P cached'"
  using assms by (auto simp: choose_dataset_def Let_def cached_ok_def split: option.splits)

text \<open>A block that a search may return for the work a node has handed out is accepted, whatever searches.\<close>

context nonce_search
begin

lemma mined_accepted:
  assumes "node_run P gen app" "hash_sizes P" "supply_capped P gen" "0 < initial_difficulty gen"
    and "canonical P gen (cstate (achain app)) bs" "tx_room P gen (cstate (achain app))"
    and "tx_count (map snd bs) + length (mempool_all (cstate (achain app))) < 2 ^ 64"
    and "spec_txs P (mempool_all (cstate (achain app))) (read_ledger (get_account (cstate (achain app)))) \<noteq> None"
    and "rpc_get_work P now query app = Some (Inr w, app1)"
    and "generate P 0 (epoch_seed P None) = Some ds" "search (wt_block w) (wt_target w) ds b"
    and "\<And>x. header_id P (header b) ds = Some x \<Longrightarrow> get_block (cstate (achain app)) x = None"
  shows "\<exists>x app2. header_id P (header b) ds = Some x \<and>
    rpc_submit_block P b app1 = Some (Inr \<lparr>sb_block_hash = x, sb_height = height (header b)\<rparr>, app2) \<and>
    get_block (cstate (achain app2)) x = Some b \<and> unat (height (header b)) = length bs + 1"
proof -
  have inv: "node_inv P gen app" by (rule node_run_inv [OF assms(1-3)])
  then have reach: "reachable P gen (achain app)"
    and signed: "list_all (is_signature_valid P) (mempool_all (cstate (achain app)))"
    by (simp_all add: node_inv_def pending_signed_def list_all_iff)
  from inv assms(2,3,9) obtain a ds' c where
    w: "work_template P now (achain app) a (mempool_all (cstate (achain app))) = Some (Inr (wt_block w, ds'), c)"
    "app1 = app\<lparr>achain := c\<rparr>" "wt_target w = target_for_difficulty (difficulty (header (wt_block w)))"
    "wt_epoch w = 0" "wt_boundary_hash w = None" "generate P 0 (epoch_seed P None) = Some ds'"
    by (rule node_work)
  have ds: "ds = ds'" using assms(10) w(6) by simp
  have wf: "wf_dataset ds" using generate_total [OF assms(2), of 0 "epoch_seed P None"] assms(10) by auto
  obtain n x where m: "b = with_nonce (wt_block w) n" "header_id P (header b) ds = Some x" "meets_target x (wt_target w)"
    using found_nonce [OF assms(11,2) wf] by blast
  obtain h x0 where t: "tip (cstate (achain app)) = Some (h, x0)" "height (header (wt_block w)) = h + 1"
    "transactions (wt_block w) = mempool_all (cstate (achain app))"
    using template_fields [OF w(1)] by blast
  have can: "unat h = length bs" using assms(5) t(1) by (auto simp: canonical_def)
  have "spec_blocks P gen (map snd bs) (genesis_ledger P gen) = Some (read_ledger (get_account (cstate (achain app))))"
    by (rule canonical_replays [OF reachable_inv [OF reach assms(2,3)] assms(5,6)])
  then have "spec_blocks P gen (map snd bs @ [b]) (genesis_ledger P gen) \<noteq> None"
    using assms(8) by (auto simp: spec_blocks_append spec_block_def m(1) t(3))
  moreover have "tx_count (map snd bs @ [wt_block w]) < 2 ^ 64" using assms(7) by (simp add: tx_count_def t(3))
  ultimately obtain c2 where sub: "submit_block P c b = Some (Inr (Accepted x (height (header (wt_block w))) False []), c2)"
    using template_accepted [OF reach assms(2-4) w(1), of n x bs] m w(3) ds assms(5,6,12) signed by auto
  have "node_run P gen app1" by (rule node_run.stepped [OF assms(1) node_step.work_asked [OF assms(9)]])
  then have inv1: "node_inv P gen app1" by (rule node_run_inv [OF _ assms(2,3)])
  obtain r app2 where acc: "accept_and_broadcast P b app1 = Some (r, app2)"
    using accept_total [OF inv1 assms(2,3)] by blast
  have r: "r = Inr (Accepted x (height (header (wt_block w))) False [])"
    by (rule accept_outcome [OF _ acc]) (simp add: w(2) sub)
  have "get_block (cstate (achain app2)) x = Some b" using accept_stored [OF inv1 assms(2,3)] acc r by blast
  have "unat (h + 1) = length bs + 1"
  proof -
    obtain p where p: "get_block (cstate (achain app)) x0 = Some p" "unat (height (header p)) = length bs"
      using assms(5) t(1) branch_stored by (fastforce simp: canonical_def)
    have "height (header p) = h" using p(2) can by (simp add: word_unat_eq_iff)
    then have "unat h < 2048" using reachable_first_epoch [OF reach assms(2,3)] p(1)
      by (auto simp: first_epoch_def EPOCH_LENGTH_def word_less_nat_alt)
    then show ?thesis using can by (simp add: unat_Suc64)
  qed
  moreover note \<open>get_block (cstate (achain app2)) x = Some b\<close>
  ultimately show ?thesis using acc r m t(2) by (auto simp: rpc_submit_block_def)
qed

end

text \<open>
  A round of the main loop, with the search under the steps of a schedule: the node refuses to hand out work,
  the workers have not come to an end with these steps, or a block was posted and answered. The node does nothing
  else meanwhile; what it does in between is theory \<open>Miner_Programs\<close>.
\<close>

datatype round_end = NoWork rpc_error | Unfinished | Posted block "rpc_error + submit_block_reply"

definition cpu_round ::
    "'a env_scheme \<Rightarrow> u64 \<Rightarrow> string \<Rightarrow> nat list \<Rightarrow> nat \<Rightarrow> (u64 \<times> dataset) option \<Rightarrow> app \<Rightarrow>
       (round_end \<times> (u64 \<times> dataset) option \<times> app) option" where
  "cpu_round E now query schedule threads cached app =
     (case rpc_get_work E now query app of
        None \<Rightarrow> None
      | Some (Inl e, app1) \<Rightarrow> Some (NoWork e, cached, app1)
      | Some (Inr w, app1) \<Rightarrow>
          (case choose_dataset E cached (wt_epoch w) (wt_boundary_hash w) of
             None \<Rightarrow> None
           | Some (ds, cached') \<Rightarrow>
               (case mine_block E schedule (wt_block w) (wt_target w) ds threads of
                  Panicked \<Rightarrow> None
                | Searching \<Rightarrow> Some (Unfinished, cached', app1)
                | Mined b \<Rightarrow>
                    (case rpc_submit_block E b app1 of
                       None \<Rightarrow> None
                     | Some (r, app2) \<Rightarrow> Some (Posted b r, cached', app2)))))"

text \<open>A round never panics, and what it keeps stays right.\<close>

lemma cpu_round_total:
  assumes "node_run E gen app" "hash_sizes E" "supply_capped E gen" "cached_ok E cached"
  shows "\<exists>out cached' app2. cpu_round E now query schedule threads cached app = Some (out, cached', app2) \<and> cached_ok E cached'"
proof -
  have inv: "node_inv E gen app" by (rule node_run_inv [OF assms(1-3)])
  obtain r app1 where work: "rpc_get_work E now query app = Some (r, app1)"
    using rpc_get_work_total [OF inv assms(2,3)] by blast
  show ?thesis
  proof (cases r)
    case (Inl e)
    then show ?thesis using work assms(4) by (simp add: cpu_round_def)
  next
    case (Inr w)
    with work have work: "rpc_get_work E now query app = Some (Inr w, app1)" by simp
    from inv assms(2,3) work obtain ds where w: "wt_epoch w = 0" "wt_boundary_hash w = None"
      "generate E 0 (epoch_seed E None) = Some ds" by (rule node_work)
    then have wf: "wf_dataset ds" using generate_total [OF assms(2), of 0 "epoch_seed E None"] by auto
    obtain cached' where c: "choose_dataset E cached (wt_epoch w) (wt_boundary_hash w) = Some (ds, cached')" "cached_ok E cached'"
      using choose_dataset_first [OF assms(4) w(3)] w(1,2) by auto
    have "node_inv E gen app1"
      by (rule node_run_inv [OF node_run.stepped [OF assms(1) node_step.work_asked [OF work]] assms(2,3)])
    then have sub: "\<exists>r app2. rpc_submit_block E b app1 = Some (r, app2)" for b by (rule rpc_submit_block_total [OF _ assms(2,3)])
    show ?thesis
    proof (cases "mine_block E schedule (wt_block w) (wt_target w) ds threads")
      case (Mined b)
      with sub [of b] work c show ?thesis by (auto simp: cpu_round_def)
    qed (use work c mine_block_no_panic [OF assms(2) wf] in \<open>simp_all add: cpu_round_def\<close>)
  qed
qed

text \<open>
  The threads of a machine run for ever, in an order in which each comes again and again. What a round has come
  to is read off the first steps of such an order.
\<close>

definition fair_schedule :: "nat \<Rightarrow> (nat \<Rightarrow> nat) \<Rightarrow> bool" where
  "fair_schedule threads order \<longleftrightarrow> (\<forall>t < max threads 1. \<forall>m. \<exists>m' \<ge> m. order m' = t)"

lemma upt_split: "i \<le> j \<Longrightarrow> j \<le> k \<Longrightarrow> [i..<k] = [i..<j] @ [j..<k]"
  using upt_add_eq_append [of i j "k - j"] by simp

lemma fair_count:
  assumes "fair_schedule threads order" "t < max threads 1"
  shows "\<exists>m' \<ge> m. c \<le> count_list (map order [m..<m']) t"
proof (induction c)
  case (Suc c)
  then obtain m1 where m1: "m \<le> m1" "c \<le> count_list (map order [m..<m1]) t" by blast
  obtain m2 where m2: "m1 \<le> m2" "order m2 = t" using assms by (auto simp: fair_schedule_def)
  have "[m..<Suc m2] = [m..<m1] @ [m1..<m2] @ [m2]" using upt_split [OF m1(1), of "Suc m2"] upt_split [OF m2(1), of "Suc m2"] m2(1) by simp
  then have "Suc c \<le> count_list (map order [m..<Suc m2]) t" using m1(2) m2(2) by simp
  then show ?case using m1(1) m2(1) by (intro exI [of _ "Suc m2"]) simp
qed auto

lemma fair_count_all:
  assumes "fair_schedule threads order" "k \<le> max threads 1"
  shows "\<exists>m' \<ge> m. \<forall>t < k. c \<le> count_list (map order [m..<m']) t"
  using assms(2)
proof (induction k)
  case (Suc k)
  then obtain m1 where m1: "m \<le> m1" "\<forall>t < k. c \<le> count_list (map order [m..<m1]) t" by auto
  obtain m2 where m2: "m1 \<le> m2" "c \<le> count_list (map order [m1..<m2]) k"
    using fair_count [OF assms(1), of k] Suc.prems by fastforce
  have "[m..<m2] = [m..<m1] @ [m1..<m2]" using upt_split [OF m1(1) m2(1)] .
  then show ?case using m1 m2 by (intro exI [of _ m2]) (auto simp: less_Suc_eq intro: trans_le_add1)
qed auto

lemma mine_block_fair:
  assumes "hash_sizes P" "wf_dataset ds" "fair_schedule threads order"
    and "header_id P (header (with_nonce b n)) ds = Some x" "meets_target x target"
  shows "\<exists>N. \<forall>M \<ge> N. \<exists>m. mine_block P (map order [0..<M]) b target ds threads = Mined m"
proof -
  let ?k = "max threads 1"
  let ?t = "unat n mod ?k" and ?j = "unat n div ?k"
  have "?t + ?j * ?k = unat n" by (rule mod_div_mult_eq)
  then have n: "of_nat (?t + ?j * ?k) = n" by (simp del: of_nat_add of_nat_mult)
  have t: "?t < ?k" by simp
  obtain N1 where N1: "2 * ?j + 4 \<le> count_list (map order [0..<N1]) ?t" using fair_count [OF assms(3) t] by blast
  obtain N2 where N2: "N1 \<le> N2" "\<forall>i < ?k. 3 \<le> count_list (map order [N1..<N2]) i"
    using fair_count_all [OF assms(3) order_refl] by blast
  have "\<exists>m. mine_block P (map order [0..<M]) b target ds threads = Mined m" if M: "N2 \<le> M" for M
  proof -
    have "[0..<M] = [0..<N1] @ [N1..<N2] @ [N2..<M]"
      using upt_split [OF N2(1) M] upt_split [of 0 N1 M] N2(1) M by simp
    then have split: "map order [0..<M] = map order [0..<N1] @ map order ([N1..<N2] @ [N2..<M])" by simp
    have "3 \<le> count_list (map order ([N1..<N2] @ [N2..<M])) i" if "i < ?k" for i
      using N2(2) that by (auto intro: trans_le_add1)
    from mine_block_ends [OF assms(1,2) t, of b ?j x target, OF _ assms(5) N1 this] assms(4) show ?thesis
      unfolding n split by blast
  qed
  then show ?thesis by blast
qed

lemma cpu_round_ends:
  assumes "node_run E gen app" "hash_sizes E" "supply_capped E gen" "cached_ok E cached"
    and work: "rpc_get_work E now query app = Some (Inr w, app1)" and "fair_schedule threads order"
    and "generate E 0 (epoch_seed E None) = Some ds" "header_id E (header (with_nonce (wt_block w) n)) ds = Some y"
      "meets_target y (wt_target w)"
  shows "\<exists>N. \<forall>M \<ge> N. \<exists>b r cached' app2.
    cpu_round E now query (map order [0..<M]) threads cached app = Some (Posted b r, cached', app2)"
proof -
  have wf: "wf_dataset ds" using generate_total [OF assms(2), of 0 "epoch_seed E None"] assms(7) by auto
  have "wt_epoch w = 0" "wt_boundary_hash w = None"
    using node_work [OF node_run_inv [OF assms(1-3)] assms(2,3) work] by blast+
  then obtain cached' where c: "choose_dataset E cached (wt_epoch w) (wt_boundary_hash w) = Some (ds, cached')"
    using choose_dataset_first [OF assms(4,7)] by auto
  have inv1: "node_inv E gen app1"
    by (rule node_run_inv [OF node_run.stepped [OF assms(1) node_step.work_asked [OF work]] assms(2,3)])
  obtain N where N: "\<forall>M \<ge> N. \<exists>m. mine_block E (map order [0..<M]) (wt_block w) (wt_target w) ds threads = Mined m"
    using mine_block_fair [OF assms(2) wf assms(6,8,9)] by blast
  have "\<exists>b r cached' app2. cpu_round E now query (map order [0..<M]) threads cached app = Some (Posted b r, cached', app2)"
    if M: "N \<le> M" for M
  proof -
    obtain m where m: "mine_block E (map order [0..<M]) (wt_block w) (wt_target w) ds threads = Mined m" using N M by blast
    obtain r app2 where "rpc_submit_block E m app1 = Some (r, app2)" using rpc_submit_block_total [OF inv1 assms(2,3)] by blast
    with m work c show ?thesis by (simp add: cpu_round_def)
  qed
  then show ?thesis by blast
qed

lemma cpu_round_posted:
  assumes "node_run E gen app" "hash_sizes E" "supply_capped E gen" "0 < initial_difficulty gen"
    and "canonical E gen (cstate (achain app)) bs" "tx_room E gen (cstate (achain app))"
    and "tx_count (map snd bs) + length (mempool_all (cstate (achain app))) < 2 ^ 64"
    and "spec_txs E (mempool_all (cstate (achain app))) (read_ledger (get_account (cstate (achain app)))) \<noteq> None"
    and "cached_ok E cached" "cpu_round E now query schedule threads cached app = Some (Posted b r, cached', app2)"
  shows "\<exists>ds x. generate E 0 (epoch_seed E None) = Some ds \<and> header_id E (header b) ds = Some x \<and>
    (get_block (cstate (achain app)) x = None \<longrightarrow>
       r = Inr \<lparr>sb_block_hash = x, sb_height = height (header b)\<rparr> \<and> get_block (cstate (achain app2)) x = Some b \<and>
       unat (height (header b)) = length bs + 1)"
proof -
  obtain w app1 ds where p: "rpc_get_work E now query app = Some (Inr w, app1)"
    "choose_dataset E cached (wt_epoch w) (wt_boundary_hash w) = Some (ds, cached')"
    "mine_block E schedule (wt_block w) (wt_target w) ds threads = Mined b" "rpc_submit_block E b app1 = Some (r, app2)"
    using assms(10) by (auto simp: cpu_round_def split: option.splits sum.splits prod.splits mining.splits)
  obtain ds' where g: "wt_epoch w = 0" "wt_boundary_hash w = None" "generate E 0 (epoch_seed E None) = Some ds'"
    using node_work [OF node_run_inv [OF assms(1-3)] assms(2,3) p(1)] by blast
  then have "ds = ds'" using choose_dataset_first [OF assms(9) g(3)] p(2) by auto
  with g(3) have ds: "generate E 0 (epoch_seed E None) = Some ds" by simp
  then have "wf_dataset ds" using generate_total [OF assms(2), of 0 "epoch_seed E None"] by auto
  then obtain x where x: "header_id E (header b) ds = Some x"
    using mine_block_mined [OF p(3) assms(2)] by blast
  show ?thesis
    using cpu.mined_accepted [OF assms(1-8) p(1) ds _, of b] p(3,4) x ds by fastforce
qed

text \<open>
  C21. Mining works end to end. On every run of a node whose pending transactions replay on its accounts, a round of
  the miner (ask for work, take the dataset it keeps or regenerate it from the answer, search with any number
  of threads under any schedule, post) never panics. When it posts a block that the node has not got, the node
  accepts it, answers with its hash and height, and has stored it, one above the tip. And a round ends: when work
  is handed out for which some nonce meets the target, then in every order in which each thread comes again and
  again, there is a moment from which on the round has posted a block.
\<close>

theorem cpu_round_accepted:
  assumes "node_run E gen app" "hash_sizes E" "supply_capped E gen" "0 < initial_difficulty gen"
    and "canonical E gen (cstate (achain app)) bs" "tx_room E gen (cstate (achain app))"
    and "tx_count (map snd bs) + length (mempool_all (cstate (achain app))) < 2 ^ 64"
    and "spec_txs E (mempool_all (cstate (achain app))) (read_ledger (get_account (cstate (achain app)))) \<noteq> None"
    and "cached_ok E cached"
  shows "(\<forall>schedule. \<exists>out cached' app2. cpu_round E now query schedule threads cached app = Some (out, cached', app2) \<and>
      cached_ok E cached' \<and>
      (\<forall>b r. out = Posted b r \<longrightarrow> (\<exists>ds x. generate E 0 (epoch_seed E None) = Some ds \<and> header_id E (header b) ds = Some x \<and>
         (get_block (cstate (achain app)) x = None \<longrightarrow>
            r = Inr \<lparr>sb_block_hash = x, sb_height = height (header b)\<rparr> \<and> get_block (cstate (achain app2)) x = Some b \<and>
            unat (height (header b)) = length bs + 1)))) \<and>
    (\<forall>order w app1 ds n y. fair_schedule threads order \<and> rpc_get_work E now query app = Some (Inr w, app1) \<and>
      generate E 0 (epoch_seed E None) = Some ds \<and> header_id E (header (with_nonce (wt_block w) n)) ds = Some y \<and>
      meets_target y (wt_target w) \<longrightarrow>
      (\<exists>N. \<forall>M \<ge> N. \<exists>b r cached' app2.
         cpu_round E now query (map order [0..<M]) threads cached app = Some (Posted b r, cached', app2)))"
proof (intro conjI allI impI; (elim conjE)?)
  fix schedule
  show "\<exists>out cached' app2. cpu_round E now query schedule threads cached app = Some (out, cached', app2) \<and>
      cached_ok E cached' \<and>
      (\<forall>b r. out = Posted b r \<longrightarrow> (\<exists>ds x. generate E 0 (epoch_seed E None) = Some ds \<and> header_id E (header b) ds = Some x \<and>
         (get_block (cstate (achain app)) x = None \<longrightarrow>
            r = Inr \<lparr>sb_block_hash = x, sb_height = height (header b)\<rparr> \<and> get_block (cstate (achain app2)) x = Some b \<and>
            unat (height (header b)) = length bs + 1)))"
    using cpu_round_total [OF assms(1-3,9), of now query schedule threads] cpu_round_posted [OF assms] by blast
next
  fix order w app1 ds n y
  assume work: "rpc_get_work E now query app = Some (Inr w, app1)" and "fair_schedule threads order"
    "generate E 0 (epoch_seed E None) = Some ds" "header_id E (header (with_nonce (wt_block w) n)) ds = Some y"
    "meets_target y (wt_target w)"
  then show "\<exists>N. \<forall>M \<ge> N. \<exists>b r cached' app2.
      cpu_round E now query (map order [0..<M]) threads cached app = Some (Posted b r, cached', app2)"
    using cpu_round_ends [OF assms(1-3,9) work] by blast
qed

theorem cpu_round_accepted_witness:
  "(\<exists>cached app2. cpu_round sample_env 30 sample_query [0, 0, 0, 0] 1 None sample_app =
      Some (Posted (with_nonce (wt_block (sample_work [])) 0) (Inr \<lparr>sb_block_hash = sample_id 1 0, sb_height = 1\<rparr>), cached, app2)) \<and>
   (\<exists>N. \<forall>M \<ge> N. \<exists>b r cached app2.
      cpu_round sample_env 30 sample_query (map (\<lambda>i. i mod 2) [0..<M]) 2 None sample_app = Some (Posted b r, cached, app2))"
proof -
  let ?w = "sample_work []"
  have pend: "mempool_all (cstate (achain sample_app)) = []" by (simp add: mempool_all_def sample_app_pending)
  obtain app1 where work: "rpc_get_work sample_env 30 sample_query sample_app = Some (Inr ?w, app1)"
    using like_sample_work [OF like_sample_app] pend by auto
  obtain ds where ds: "generate sample_env 0 (epoch_seed sample_env None) = Some ds" "wf_dataset ds"
    using sample_dataset by blast
  have cho: "choose_dataset sample_env None 0 None = Some (ds, Some (0, ds))" by (simp add: choose_dataset_def Let_def ds(1))
  have wt: "wt_epoch ?w = 0" "wt_boundary_hash ?w = None" "wt_target ?w = target_for_difficulty 1"
    "wt_block ?w = sample_block 1 sample_root 1 0 []" by (simp_all add: sample_work_def)
  have id: "header_id sample_env (header (sample_block 1 sample_root 1 0 [])) ds = Some (sample_id 1 0)"
    by (rule sample_block_id [OF wf_sample_root ds(2)])
  have "nonce (header (sample_block 1 sample_root 1 0 [])) = 0" by (simp add: sample_block_def)
  with id have hash: "ondris_hash sample_env (bytes_for_pow (header (sample_block 1 sample_root 1 0 []))) 0 ds = Some (sample_id 1 0)"
    by (simp add: header_id_def)
  have mine: "mine_block sample_env [0, 0, 0, 0] (wt_block ?w) (wt_target ?w) ds 1 = Mined (with_nonce (wt_block ?w) 0)"
    by (simp add: wt mine_block_def start_search_def worker_step_def set_worker_def hash meets_target_one)
  have inv: "node_inv sample_env sample_gen app1"
    by (rule node_run_inv [OF node_run.stepped [OF sample_app_run node_step.work_asked [OF work]] sample_env_laws(1) sample_capped])
  obtain r app2 where "rpc_submit_block sample_env (with_nonce (wt_block ?w) 0) app1 = Some (r, app2)"
    using rpc_submit_block_total [OF inv sample_env_laws(1) sample_capped] by blast
  then have round: "cpu_round sample_env 30 sample_query [0, 0, 0, 0] 1 None sample_app =
      Some (Posted (with_nonce (wt_block ?w) 0) r, Some (0, ds), app2)"
    using work cho mine by (simp add: cpu_round_def wt)
  have fresh: "get_block (cstate (achain sample_app)) (sample_id 1 0) = None"
    using like_sample_app sample_root_fresh [symmetric] by (simp add: like_sample_def sample_fields)
  have pos: "0 < initial_difficulty sample_gen" by (simp add: sample_gen_def)
  note hyps = sample_app_run sample_env_laws(1) sample_capped pos like_sample_canonical [OF like_sample_app]
  have "r = Inr \<lparr>sb_block_hash = sample_id 1 0, sb_height = 1\<rparr>"
    using cpu_round_accepted [OF hyps, of None 30 sample_query 1, THEN conjunct1, rule_format, of "[0, 0, 0, 0]"]
      round ds(1) id fresh by (auto simp: pend wt cached_ok_def)
  moreover have "fair_schedule 2 (\<lambda>i. i mod 2)"
    unfolding fair_schedule_def by (intro allI impI, rule_tac x = "2 * m + t" in exI) auto
  then have "\<exists>N. \<forall>M \<ge> N. \<exists>b r cached app2.
      cpu_round sample_env 30 sample_query (map (\<lambda>i. i mod 2) [0..<M]) 2 None sample_app = Some (Posted b r, cached, app2)"
    using cpu_round_accepted [OF hyps, of None 30 sample_query 2, THEN conjunct2, rule_format, of _ ?w app1 ds 0 "sample_id 1 0"]
      work ds(1) id wt by (simp add: pend cached_ok_def meets_target_one)
  ultimately show ?thesis using round by blast
qed

text \<open>
  C24. The search ends. If some nonce meets the target, it is the \<open>j\<close>-th nonce of some thread
  \<open>t\<close>; under every schedule that gives this thread \<open>2 j + 4\<close> steps and afterwards three more to each
  thread, the search has ended with a block. The \<open>expect\<close> on the stored nonce never panics, whatever
  the schedule, and a block that is returned differs from the template only in a nonce that meets the target.
\<close>

theorem cpu_search_correct:
  assumes "hash_sizes P" "wf_dataset ds"
  shows "mine_block P schedule b target ds threads \<noteq> Panicked \<and>
    (\<forall>m. mine_block P schedule b target ds threads = Mined m \<longrightarrow>
       (\<exists>n x. m = with_nonce b n \<and> header_id P (header m) ds = Some x \<and> meets_target x target)) \<and>
    (\<forall>n x. header_id P (header (with_nonce b n)) ds = Some x \<and> meets_target x target \<longrightarrow>
       (\<exists>t j. t < max threads 1 \<and> n = of_nat (t + j * max threads 1) \<and>
         (\<forall>sched1 sched2. 2 * j + 4 \<le> count_list sched1 t \<and> (\<forall>i < max threads 1. 3 \<le> count_list sched2 i) \<longrightarrow>
            (\<exists>m. mine_block P (sched1 @ sched2) b target ds threads = Mined m))))"
proof -
  have "\<exists>t j. t < max threads 1 \<and> n = of_nat (t + j * max threads 1) \<and>
         (\<forall>sched1 sched2. 2 * j + 4 \<le> count_list sched1 t \<and> (\<forall>i < max threads 1. 3 \<le> count_list sched2 i) \<longrightarrow>
            (\<exists>m. mine_block P (sched1 @ sched2) b target ds threads = Mined m))"
    if hit: "header_id P (header (with_nonce b n)) ds = Some x" "meets_target x target" for n x
  proof -
    let ?k = "max threads 1"
    let ?t = "unat n mod ?k" and ?j = "unat n div ?k"
    have "?t + ?j * ?k = unat n" by (rule mod_div_mult_eq)
    then have n: "n = of_nat (?t + ?j * ?k)" by (simp del: of_nat_add of_nat_mult)
    have t: "?t < ?k" by simp
    from mine_block_ends [OF assms t, of b ?j x target] hit n t show ?thesis
      by (intro exI [of _ ?t] exI [of _ ?j]) auto
  qed
  with mine_block_no_panic [OF assms] mine_block_mined [OF _ assms] show ?thesis by blast
qed

theorem cpu_search_correct_witness:
  "\<exists>ds m t j. generate sample_env 0 (epoch_seed sample_env None) = Some ds \<and> t < max 2 1 \<and> (3 :: u64) = of_nat (t + j * max 2 1) \<and>
     mine_block sample_env (replicate (2 * j + 4) t @ [0, 0, 0, 1, 1, 1]) block_a (target_for_difficulty 1) ds 2 = Mined m"
proof -
  obtain ds where ds: "generate sample_env 0 (epoch_seed sample_env None) = Some ds" "wf_dataset ds"
    using sample_dataset by blast
  have "header_id sample_env (header (with_nonce block_a 3)) ds = Some (sample_id 1 3)"
    unfolding block_a_def with_nonce_sample by (rule sample_block_id [OF wf_sample_root ds(2)])
  moreover have "meets_target (sample_id 1 3) (target_for_difficulty 1)" by (simp add: meets_target_one)
  ultimately obtain t j where t: "t < max 2 1" "(3 :: u64) = of_nat (t + j * max 2 1)"
    "\<forall>sched1 sched2. 2 * j + 4 \<le> count_list sched1 t \<and> (\<forall>i < max 2 1. 3 \<le> count_list sched2 i) \<longrightarrow>
       (\<exists>m. mine_block sample_env (sched1 @ sched2) block_a (target_for_difficulty 1) ds 2 = Mined m)"
    using cpu_search_correct [OF sample_env_laws(1) ds(2), of "[]" block_a "target_for_difficulty 1" 2] by blast
  have "count_list (replicate k t) t = k" for k by (induction k) simp_all
  then have "2 * j + 4 \<le> count_list (replicate (2 * j + 4) t) t" by simp
  moreover have "3 \<le> count_list [0, 0, 0, 1, 1, 1] i" if "i < max 2 1" for i :: nat
    using that by (cases i) auto
  ultimately obtain m where "mine_block sample_env (replicate (2 * j + 4) t @ [0, 0, 0, 1, 1, 1]) block_a (target_for_difficulty 1) ds 2 = Mined m"
    using t(3) by blast
  with ds(1) t(1,2) show ?thesis by blast
qed

end
