(* ===== verification/Late_Blocks.thy ===== *)
theory Late_Blocks
  imports Catch_Up Mining_Round
begin

text \<open>
  What becomes of a block that was mined on the work of a node and is posted when the node has moved on: taken
  blocks and transactions, reorganised, restarted. It is still worth storing.
\<close>

text \<open>What a node does meanwhile, restarts included.\<close>

definition goes_on :: "'a env_scheme \<Rightarrow> genesis_config \<Rightarrow> app \<Rightarrow> app \<Rightarrow> bool" where
  "goes_on E gen app app' \<longleftrightarrow> node_step E app app' \<or> node_start E gen (cstate (achain app)) = Some (Inr app')"

section \<open>Work keeps its worth\<close>

text \<open>
  What makes a block that was mined on work of a node worth storing there: everything but the replay has been
  checked, on a parent that is stored.
\<close>

definition worthy :: "'a env_scheme \<Rightarrow> genesis_config \<Rightarrow> chain_state \<Rightarrow> block \<Rightarrow> bool" where
  "worthy E gen s b \<longleftrightarrow>
     (\<exists>ds x p. generate E 0 (epoch_seed E None) = Some ds \<and> sound_block E gen ds x b \<and> 0 < height (header b) \<and>
        get_block s (prev_hash (header b)) = Some p \<and> height (header p) + 1 = height (header b) \<and>
        difficulty_due gen s p = Inr (difficulty (header b)))"

lemma worthy_mono: "worthy E gen s b \<Longrightarrow> keeps_blocks s s' \<Longrightarrow> worthy E gen s' b"
  unfolding worthy_def keeps_blocks_def by (meson difficulty_due_mono)

lemma worthy_template:
  assumes "node_inv E gen app" "hash_sizes E" "supply_capped E gen" "0 < initial_difficulty gen"
    and "rpc_get_work E now query app = Some (Inr w, app1)" "generate E 0 (epoch_seed E None) = Some ds"
    and "header_id E (header (with_nonce (wt_block w) n)) ds = Some x" "meets_target x (wt_target w)"
  shows "worthy E gen (cstate (achain app1)) (with_nonce (wt_block w) n)"
proof -
  have reach: "reachable E gen (achain app)" and signed: "list_all (is_signature_valid E) (mempool_all (cstate (achain app)))"
    using assms(1) by (simp_all add: node_inv_def pending_signed_def list_all_iff)
  from assms(1-3,5) obtain a ds' c where
    w: "work_template E now (achain app) a (mempool_all (cstate (achain app))) = Some (Inr (wt_block w, ds'), c)"
    "app1 = app\<lparr>achain := c\<rparr>" "wt_target w = target_for_difficulty (difficulty (header (wt_block w)))"
    by (rule node_work)
  obtain h x0 d where t: "tip (cstate (achain app)) = Some (h, x0)" "height (header (wt_block w)) = h + 1"
    "prev_hash (header (wt_block w)) = x0" "compute_next_difficulty c (h + 1) = Inr d" "difficulty (header (wt_block w)) = d"
    "transactions (wt_block w) = mempool_all (cstate (achain app))" "tx_root (header (wt_block w)) = compute_tx_root E (wt_block w)"
    "dataset_for_height E (achain app) (h + 1) = Some (Inr ds', c)"
    using template_fields [OF w(1)] by blast
  have st: "cstate c = cstate (achain app)" by (rule dataset_state [OF t(8)])
  have rc: "reachable E gen c" by (rule reachable.templated [OF reach w(1)])
  note inv = reachable_inv [OF reach assms(2,3)]
  obtain bs where can: "canonical E gen (cstate (achain app)) bs" using inv by (auto simp: chain_inv_def)
  obtain p where p: "get_block (cstate (achain app)) x0 = Some p" "unat (height (header p)) = unat h"
    using can t(1) branch_stored by (fastforce simp: canonical_def)
  then have hp: "height (header p) = h" by (simp add: word_unat_eq_iff)
  have small: "h + 1 < EPOCH_LENGTH"
    using t(8) first_epoch_dataset [OF inv reachable_first_epoch [OF reach assms(2,3)], of "h + 1"] by (auto split: if_splits option.splits)
  have "height (header p) < EPOCH_LENGTH" using reachable_first_epoch [OF reach assms(2,3)] p(1) by (auto simp: first_epoch_def)
  then have "unat h < 2048" by (simp add: hp EPOCH_LENGTH_def word_less_nat_alt)
  then have pos: "0 < h + 1" using unat_Suc64 [of h] by (simp add: word_less_nat_alt)
  have "tip (cstate c) = Some (h, x0)" "get_block (cstate c) x0 = Some p" by (simp_all add: st t(1) p(1))
  from next_difficulty_defined [OF rc assms(2,3) this assms(4)] t(4) have d: "expected_difficulty_after c p = Inr d" "0 < d" by auto
  have "cgenesis c = gen" by (rule reachable_gen [OF rc assms(2,3)])
  then have "difficulty_due gen (cstate c) p = Inr d" using d(1) difficulty_due_chain [of c p] by simp
  then show ?thesis
    using assms(6-8) small pos d(2) p(1) signed
    by (auto simp: worthy_def sound_block_def w(2,3) st t(2,3,5-7) hp)
qed

text \<open>A worthy block is stored, whatever the tip is by now.\<close>

lemma worthy_stored:
  assumes inv: "node_inv E gen app" and hyps: "hash_sizes E" "supply_capped E gen" and w: "worthy E gen (cstate (achain app)) b"
  shows "\<exists>ds x r app'. generate E 0 (epoch_seed E None) = Some ds \<and> header_id E (header b) ds = Some x \<and>
    rpc_submit_block E b app = Some (r, app') \<and> get_block (cstate (achain app')) x \<noteq> None \<and>
    (r = Inr \<lparr>sb_block_hash = x, sb_height = height (header b)\<rparr> \<or> r = Inl BlockAlreadyKnown \<or>
     (\<exists>bs e. r = Inl (ChainFailed e) \<and> replay_error bs e))"
proof -
  have reach: "reachable E gen (achain app)" using inv by (simp add: node_inv_def)
  obtain ds x p where d: "generate E 0 (epoch_seed E None) = Some ds" "sound_block E gen ds x b" "0 < height (header b)"
    "get_block (cstate (achain app)) (prev_hash (header b)) = Some p" "height (header p) + 1 = height (header b)"
    "difficulty_due gen (cstate (achain app)) p = Inr (difficulty (header b))"
    using w by (auto simp: worthy_def)
  have due: "expected_difficulty_after (achain app) p = Inr (difficulty (header b))"
    using d(6) difficulty_due_chain [of "achain app" p] reachable_gen [OF reach hyps] by simp
  obtain obs where can: "canonical E gen (cstate (achain app)) obs"
    using reachable_inv [OF reach hyps] by (auto simp: chain_inv_def)
  have id: "header_id E (header b) ds = Some x" using d(2) by (simp add: sound_block_def)
  obtain r app' where acc: "accept_and_broadcast E b app = Some (r, app')" using accept_total [OF inv hyps] by blast
  have keep: "keeps_blocks (cstate (achain app)) (cstate (achain app'))" using accept_facts [OF inv hyps, of b] acc by simp
  have new: "get_block (cstate (achain app')) y = Some b" if "r = Inr (Accepted y h re rq)" for y h re rq
    using Node_Runs.accept_stored [OF inv hyps] acc that by blast
  show ?thesis
  proof (cases "get_block (cstate (achain app)) x")
    case None
    obtain r2 c bs where c: "submit_block E (achain app) b = Some (r2, c)" "stores E gen (cstate (achain app)) x b bs (cstate c)"
      "stored_outcome E gen (cstate (achain app)) obs x b bs r2 (cstate c)"
      using submit_checked [OF reach hyps can d(1) id None d(3) _ d(4,5) due] d(2) by (auto simp: sound_block_def)
    have r: "r = r2" by (rule accept_outcome [OF c(1) acc])
    have at: "get_block (cstate c) x = Some b" using c(2) by (simp add: stores_def)
    have out: "r = Inr (SideBranch x (height (header b))) \<or> (\<exists>re rq. r = Inr (Accepted x (height (header b)) re rq)) \<or>
        (\<exists>e. r = Inl e \<and> replay_error bs e)"
      using c(3) unfolding r stored_outcome_def by (simp split: if_splits) blast
    then have "get_block (cstate (achain app')) x = Some b"
    proof (elim disjE exE conjE)
      assume "r = Inr (SideBranch x (height (header b)))"
      then show ?thesis using acc c(1) at r by (auto simp: accept_and_broadcast_def Let_def handle_outcome_frame)
    next
      fix e assume "r = Inl e"
      then show ?thesis using acc c(1) at r by (auto simp: accept_and_broadcast_def)
    qed (rule new)
    with out acc d(1) id show ?thesis
      by (elim disjE exE conjE) (simp_all add: rpc_submit_block_def, blast)
  next
    case (Some b')
    have "submit_block E (achain app) b = Some (Inr AlreadyKnown, (achain app)\<lparr>dataset_cache := Some (0, ds)\<rparr>)"
      using submit_checked_block(1) [OF reach hyps d(1,2)] Some by simp
    from accept_outcome [OF this acc] have "r = Inr AlreadyKnown" .
    moreover have "get_block (cstate (achain app')) x \<noteq> None" using keep Some by (simp add: keeps_blocks_def)
    ultimately show ?thesis using acc d(1) id by (simp add: rpc_submit_block_def)
  qed
qed

lemma goes_on_keeps:
  assumes "goes_on E gen app app'" "node_run E gen app" "hash_sizes E" "supply_capped E gen"
  shows "node_run E gen app' \<and> keeps_blocks (cstate (achain app)) (cstate (achain app'))"
proof -
  note inv = node_run_inv [OF assms(2-4)]
  from assms(1) show ?thesis
    unfolding goes_on_def
  proof
    assume step: "node_step E app app'"
    have "get_block (cstate (achain app')) x = Some k" if "get_block (cstate (achain app)) x = Some k" for x k
      using node_step_entry [OF step inv assms(3,4) that] by blast
    with node_run.stepped [OF assms(2) step] show ?thesis by (simp add: keeps_blocks_def)
  next
    assume start: "node_start E gen (cstate (achain app)) = Some (Inr app')"
    with node_restarts [OF inv assms(3,4)] have "cstate (achain app') = cstate (achain app)" by auto
    with node_run.restarted [OF assms(2) start] show ?thesis by simp
  qed
qed

text \<open>What a node says to a block whenever it is posted, and for whom the block is.\<close>

definition still_stored :: "'a env_scheme \<Rightarrow> address \<Rightarrow> block \<Rightarrow> app \<Rightarrow> bool" where
  "still_stored E a b app \<longleftrightarrow> miner (header b) = a \<and>
     (\<exists>ds x r app'. generate E 0 (epoch_seed E None) = Some ds \<and> header_id E (header b) ds = Some x \<and>
        rpc_submit_block E b app = Some (r, app') \<and> get_block (cstate (achain app')) x \<noteq> None \<and>
        (r = Inr \<lparr>sb_block_hash = x, sb_height = height (header b)\<rparr> \<or> r = Inl BlockAlreadyKnown \<or>
         (\<exists>bs e. r = Inl (ChainFailed e) \<and> replay_error bs e)))"

end
