(* ===== verification/Template_Race.thy ===== *)
theory Template_Race
  imports Late_Blocks
begin

text \<open>
  \<open>work_template\<close> takes no lock. It reads the tip, then, in \<open>compute_next_difficulty\<close>, the block at the height of the
  tip and the one at the start of the window, while \<open>submit_block\<close> may be writing: each read may see the store
  before, in the middle of, or after any reorganisation. Here the template is a function of what its reads
  return, and the reads return anything.
\<close>

section \<open>The template from its reads\<close>

definition difficulty_from_reads :: "genesis_config \<Rightarrow> u64 \<Rightarrow> block option \<Rightarrow> block option \<Rightarrow> chain_error + u64" where
  "difficulty_from_reads gen next_height tip_read start_read =
     (let window = max (retarget_window gen) 1
      in if next_height \<le> window then Inr (initial_difficulty gen)
         else case tip_read of
           None \<Rightarrow> Inl (BlockNotFound (next_height - 1))
         | Some tip_block \<Rightarrow>
             (case start_read of
                None \<Rightarrow> Inl WindowStartNotFound
              | Some start \<Rightarrow>
                  Inr (next_difficulty (difficulty (header tip_block))
                    (sat_sub (timestamp (header tip_block)) (timestamp (header start)))
                    (target_block_time_secs gen) window)))"

definition template_from_reads ::
    "'a env_scheme \<Rightarrow> genesis_config \<Rightarrow> u64 \<Rightarrow> address \<Rightarrow> transaction list \<Rightarrow> u64 \<times> hash256 \<Rightarrow> block option \<Rightarrow> block option \<Rightarrow>
       chain_error + block" where
  "template_from_reads E gen now miner_addr pending_txs tip_read block_read start_read =
     (case tip_read of (h, prev) \<Rightarrow>
        (case difficulty_from_reads gen (h + 1) block_read start_read of
           Inl e \<Rightarrow> Inl e
         | Inr diff \<Rightarrow>
             Inr \<lparr>header = \<lparr>height = h + 1, prev_hash = prev, tx_root = merkle_root E (map (tx_hash E) pending_txs),
                    timestamp = now, difficulty = diff, miner = miner_addr, nonce = 0\<rparr>,
                  transactions = pending_txs\<rparr>))"

text \<open>With all reads in one state it is the template of theory \<open>Chain\<close>.\<close>

lemma difficulty_one_state:
  "compute_next_difficulty c n = difficulty_from_reads (cgenesis c) n (get_block_by_height (cstate c) (n - 1))
     (get_block_by_height (cstate c) (n - 1 - max (retarget_window (cgenesis c)) 1))"
  by (simp add: compute_next_difficulty_def difficulty_from_reads_def Let_def)

lemma template_one_state:
  assumes "dataset_for_height E c (h + 1) = Some (Inr ds, c')" "cgenesis c' = gen" "tip (cstate c) = Some (h, x)"
  shows "work_template E now c a txs =
    (case template_from_reads E gen now a txs (h, x) (get_block_by_height (cstate c') h)
       (get_block_by_height (cstate c') (h - max (retarget_window gen) 1)) of
       Inl e \<Rightarrow> Some (Inl e, c') | Inr b \<Rightarrow> Some (Inr (b, ds), c'))"
  using assms by (auto simp: work_template_def template_from_reads_def difficulty_one_state split: sum.split)

section \<open>What a torn template is worth\<close>

lemma goes_on_steps:
  assumes "(goes_on E gen)\<^sup>*\<^sup>* app app'" "node_run E gen app" "hash_sizes E" "supply_capped E gen"
  shows "node_run E gen app' \<and> keeps_blocks (cstate (achain app)) (cstate (achain app'))"
  using assms(1)
proof (induction rule: rtranclp_induct)
  case (step app1 app2)
  with goes_on_keeps [OF step(2) _ assms(3,4)] show ?case using keeps_blocks_trans by blast
qed (use assms(2) in simp)

text \<open>The reads that a quiet store would have given.\<close>

definition quiet_reads :: "genesis_config \<Rightarrow> chain_state \<Rightarrow> block \<Rightarrow> block option \<Rightarrow> block option \<Rightarrow> bool" where
  "quiet_reads gen s parent block_read start_read \<longleftrightarrow> block_read = Some parent \<and>
     start_read = block_ancestor s parent (unat (max (retarget_window gen) 1))"

lemma quiet_difficulty:
  assumes "quiet_reads gen s p block_read start_read" "difficulty_due gen s p = Inr d"
    and "difficulty_from_reads gen (height (header p) + 1) block_read start_read = Inr d'"
  shows "d' = d"
  using assms
  by (auto simp: quiet_reads_def difficulty_due_def expected_difficulty_after_def difficulty_from_reads_def Let_def
      split: if_splits option.splits)

lemma stored_parent:
  assumes "node_inv E gen app" "hash_sizes E" "supply_capped E gen" "0 < initial_difficulty gen"
    and "tip (cstate (achain app)) = Some (h, x)"
  obtains p d where "get_block (cstate (achain app)) x = Some p" "height (header p) = h" "0 < h + 1"
    "difficulty_due gen (cstate (achain app)) p = Inr d" "0 < d"
proof -
  have reach: "reachable E gen (achain app)" using assms(1) by (simp add: node_inv_def)
  obtain bs where can: "canonical E gen (cstate (achain app)) bs"
    using reachable_inv [OF reach assms(2,3)] by (auto simp: chain_inv_def)
  obtain p where p: "get_block (cstate (achain app)) x = Some p" using can assms(5) branch_stored by (fastforce simp: canonical_def)
  have hp: "height (header p) = h" using template_difficulty [OF can assms(5) p] by simp
  have "height (header p) < EPOCH_LENGTH" using reachable_first_epoch [OF reach assms(2,3)] p by (auto simp: first_epoch_def)
  then have "unat h < 2048" by (simp add: hp EPOCH_LENGTH_def word_less_nat_alt)
  then have "0 < h + 1" using unat_Suc64 [of h] by (simp add: word_less_nat_alt)
  moreover obtain d where "expected_difficulty_after (achain app) p = Inr d" "0 < d"
    using next_difficulty_defined [OF reach assms(2,3,5) p assms(4)] by auto
  ultimately show thesis
    using that p hp difficulty_due_chain [of "achain app" p] reachable_gen [OF reach assms(2,3)] by simp
qed

lemma wrong_difficulty_refused:
  assumes "node_inv E gen app" "hash_sizes E" "supply_capped E gen"
    and "generate E 0 (epoch_seed E None) = Some ds" "header_id E (header b) ds = Some y" "get_block (cstate (achain app)) y = None"
    and "0 < height (header b)" "height (header b) < EPOCH_LENGTH" "tx_root (header b) = compute_tx_root E b"
    and "meets_target y (target_for_difficulty (difficulty (header b)))" "list_all (is_signature_valid E) (transactions b)"
    and "get_block (cstate (achain app)) (prev_hash (header b)) = Some p" "height (header p) + 1 = height (header b)"
    and "difficulty_due gen (cstate (achain app)) p = Inr d" "difficulty (header b) \<noteq> d"
  shows "\<exists>c. submit_block E (achain app) b = Some (Inl (WrongDifficulty (difficulty (header b)) d), c) \<and> cstate c = cstate (achain app)"
proof -
  have reach: "reachable E gen (achain app)" using assms(1) by (simp add: node_inv_def)
  let ?c = "(achain app)\<lparr>dataset_cache := Some (0, ds)\<rparr>"
  have dh: "dataset_for_height E (achain app) (height (header b)) = Some (Inr ds, ?c)"
    using first_epoch_dataset [OF reachable_inv [OF reach assms(2,3)] reachable_first_epoch [OF reach assms(2,3)]] assms(4,8) by simp
  have "expected_difficulty_after ?c p = Inr d"
    using assms(14) difficulty_due_chain [of ?c p] reachable_gen [OF reach assms(2,3)] by simp
  then have "submit_on_parent E ?c b y p = Some (Inl (WrongDifficulty (difficulty (header b)) d), ?c)"
    using assms(13,15) by (simp add: submit_on_parent_def Let_def)
  then have "submit_block E (achain app) b = Some (Inl (WrongDifficulty (difficulty (header b)) d), ?c)"
    using assms(5-7,9-12) by (simp add: submit_block_def Let_def dh has_block_iff)
  then show ?thesis by (intro exI [of _ ?c]) simp
qed

text \<open>
  C23. Reading without the lock. A node builds a template while blocks are submitted and reorganised; it reads the tip
  \<open>x\<close>, and whatever the later reads return, a block is mined on the template and posted to the node at a later
  time, restarts in between included. If the reads return what a quiet store returns, or otherwise give the
  difficulty that is due after \<open>x\<close>, the block is stored then. If they give another one, for instance because a
  reorganisation has moved the height index to another branch, the work is lost: the node refuses the block for
  its difficulty and its state stays.
\<close>

theorem template_race:
  assumes "node_run E gen app" "(goes_on E gen)\<^sup>*\<^sup>* app app2" "hash_sizes E" "supply_capped E gen" "0 < initial_difficulty gen"
    and "tip (cstate (achain app)) = Some (h, x)" "list_all (is_signature_valid E) txs"
    and "template_from_reads E gen now a txs (h, x) block_read start_read = Inr b"
    and "generate E 0 (epoch_seed E None) = Some ds" "h + 1 < EPOCH_LENGTH"
    and "header_id E (header (with_nonce b n)) ds = Some y" "meets_target y (target_for_difficulty (difficulty (header b)))"
  shows "\<exists>p d. get_block (cstate (achain app)) x = Some p \<and> difficulty_due gen (cstate (achain app)) p = Inr d \<and>
    (quiet_reads gen (cstate (achain app)) p block_read start_read \<longrightarrow> difficulty (header b) = d) \<and>
    (difficulty (header b) = d \<longrightarrow> still_stored E a (with_nonce b n) app2) \<and>
    (difficulty (header b) \<noteq> d \<and> get_block (cstate (achain app2)) y = None \<longrightarrow>
       (\<exists>c. submit_block E (achain app2) (with_nonce b n) = Some (Inl (WrongDifficulty (difficulty (header b)) d), c) \<and>
          cstate c = cstate (achain app2)))"
proof -
  note hyps = assms(3,4)
  have inv: "node_inv E gen app" by (rule node_run_inv [OF assms(1) hyps])
  have later: "node_run E gen app2" "keeps_blocks (cstate (achain app)) (cstate (achain app2))"
    using goes_on_steps [OF assms(2,1) hyps] by simp_all
  have inv2: "node_inv E gen app2" by (rule node_run_inv [OF later(1) hyps])
  obtain p d where p: "get_block (cstate (achain app)) x = Some p" "height (header p) = h" "0 < h + 1"
    "difficulty_due gen (cstate (achain app)) p = Inr d" "0 < d"
    by (rule stored_parent [OF inv hyps assms(5,6)])
  have p2: "get_block (cstate (achain app2)) x = Some p" "difficulty_due gen (cstate (achain app2)) p = Inr d"
    using later(2) p(1) difficulty_due_mono [OF p(4)] by (simp_all add: keeps_blocks_def)
  have b: "height (header b) = h + 1" "prev_hash (header b) = x" "tx_root (header b) = compute_tx_root E b" "transactions b = txs"
    "miner (header b) = a" "difficulty_from_reads gen (h + 1) block_read start_read = Inr (difficulty (header b))"
    using assms(8) by (auto simp: template_from_reads_def compute_tx_root_def split: sum.splits)
  have "quiet_reads gen (cstate (achain app)) p block_read start_read \<longrightarrow> difficulty (header b) = d"
    using quiet_difficulty [OF _ p(4)] b(6) p(2) by auto
  moreover have "difficulty (header b) = d \<longrightarrow> still_stored E a (with_nonce b n) app2"
  proof
    assume "difficulty (header b) = d"
    then have "worthy E gen (cstate (achain app2)) (with_nonce b n)"
      using assms(7,9-12) p(2,3,5) p2 b(1-4) by (auto simp: worthy_def sound_block_def)
    moreover have "miner (header (with_nonce b n)) = a" by (simp add: with_nonce_def b(5))
    ultimately show "still_stored E a (with_nonce b n) app2"
      using worthy_stored [OF inv2 hyps, of "with_nonce b n"] by (simp only: still_stored_def simp_thms)
  qed
  moreover have "\<exists>c. submit_block E (achain app2) (with_nonce b n) = Some (Inl (WrongDifficulty (difficulty (header b)) d), c) \<and>
      cstate c = cstate (achain app2)" if "difficulty (header b) \<noteq> d" "get_block (cstate (achain app2)) y = None"
    using wrong_difficulty_refused [OF inv2 hyps assms(9,11) that(2), of p d] that(1) assms(7,10,12) p(2,3) p2 b(1-4) by simp
  ultimately show ?thesis using p(1,4) by (intro exI [of _ p] exI [of _ d] conjI) simp_all
qed

text \<open>
  The example: the sample genesis with a window of one block and a target of two minutes. The first block comes after 30
  seconds, so the second has difficulty 4. A template that read a slower first block of another branch has
  difficulty 1, and the block mined on it is refused.
\<close>

definition quick_gen :: genesis_config where
  "quick_gen = sample_gen\<lparr>retarget_window := 1, target_block_time_secs := 120\<rparr>"

definition slow_block :: block where
  "slow_block = (block_at_b [])\<lparr>header := (header (block_at_b []))\<lparr>timestamp := 120\<rparr>\<rparr>"

lemma quick_same:
  "genesis_block_hash sample_env quick_gen = sample_root" "genesis_block quick_gen = genesis_block sample_gen"
  "init_genesis sample_env quick_gen = init_genesis sample_env sample_gen"
  "premine_parsed sample_env quick_gen = premine_parsed sample_env sample_gen"
  by (simp_all add: quick_gen_def sample_root_def genesis_block_hash_def genesis_block_def init_genesis_def premine_parsed_def
      Let_def fun_eq_iff)

lemma quick_capped: "supply_capped sample_env quick_gen"
proof -
  have "emission_cap quick_gen = emission_cap sample_gen" by (simp add: emission_cap_def quick_gen_def)
  with sample_capped show ?thesis by (simp add: supply_capped_def premine_total_def premine_list_def quick_same)
qed

definition quick_app :: app where
  "quick_app = sample_app\<lparr>achain := sample_chain\<lparr>cgenesis := quick_gen\<rparr>\<rparr>"

lemma quick_app_run: "node_run sample_env quick_gen quick_app"
proof (rule node_run.started)
  have "chain_open sample_env quick_gen empty_state = Inr (sample_chain\<lparr>cgenesis := quick_gen\<rparr>)"
    using sample_open by (simp add: chain_open_def quick_same empty_state_fields split: prod.splits sum.splits unit.splits)
      (auto simp: sample_chain_def)
  then show "node_start sample_env quick_gen empty_state = Some (Inr quick_app)"
    by (simp add: node_start_def sample_fields quick_app_def sample_app_def) (simp add: quick_gen_def sample_gen_def)
qed

lemma quick_first:
  "\<exists>app. node_run sample_env quick_gen app \<and> tip (cstate (achain app)) = Some (1, sample_id 1 0) \<and>
     get_block (cstate (achain app)) = (get_block (cstate sample_chain))(sample_id 1 0 \<mapsto> block_at_a [])"
proof -
  let ?c = "achain quick_app" and ?b = "block_at_a []"
  have c: "cstate ?c = cstate sample_chain" "cgenesis ?c = quick_gen" "orphans quick_app = []"
    by (simp_all add: quick_app_def sample_app_def)
  note reach = node_run_inv [OF quick_app_run sample_env_laws(1) quick_capped, unfolded node_inv_def, THEN conjunct1]
  note hyps = reach sample_env_laws(1) quick_capped
  obtain ds where ds: "generate sample_env 0 (epoch_seed sample_env None) = Some ds" "wf_dataset ds"
    using sample_dataset by blast
  have id: "header_id sample_env (header ?b) ds = Some (sample_id 1 0)" by (rule sample_block_id [OF wf_sample_root ds(2)])
  obtain obs where "canonical sample_env quick_gen (cstate ?c) obs"
    using reachable_inv [OF hyps] by (auto simp: chain_inv_def)
  moreover from this have "obs = []" by (auto simp: canonical_def c quick_same sample_branches)
  ultimately have can: "canonical sample_env quick_gen (cstate ?c) []" by simp
  have tip: "tip (cstate ?c) = Some (0, sample_root)" by (simp add: c sample_fields)
  have room: "tx_room sample_env quick_gen (cstate ?c)" by (simp add: tx_room_def c quick_same sample_branches)
  have due: "expected_difficulty_after ?c (genesis_block sample_gen) = Inr 1"
    by (simp add: expected_difficulty_after_def c quick_gen_def genesis_block_def) (simp add: sample_gen_def)
  have replay: "spec_blocks sample_env quick_gen (map snd [] @ [?b]) (genesis_ledger sample_env quick_gen) \<noteq> None"
    by (simp add: spec_block_def)
  obtain c' where sub: "submit_block sample_env ?c ?b = Some (Inr (Accepted (sample_id 1 0) 1 False []), c')"
    and can': "canonical sample_env quick_gen (cstate c') [(sample_id 1 0, ?b)]"
    and st: "stores sample_env quick_gen (cstate ?c) (sample_id 1 0) ?b [(sample_id 1 0, ?b)] (cstate c')"
    using extend_tip [OF hyps can tip ds(1) id, of "genesis_block sample_gen", OF _ _ _ _ _ _ _ _ _ _ room _ replay]
      sample_root_fresh [symmetric] by (auto simp: c(1) sample_fields due meets_target_one EPOCH_LENGTH_def)
  let ?app = "handle_outcome sample_env ?b (Accepted (sample_id 1 0) 1 False []) (quick_app\<lparr>achain := c'\<rparr>)"
  have acc: "accept_and_broadcast sample_env ?b quick_app = Some (Inr (Accepted (sample_id 1 0) 1 False []), ?app)"
    by (rule accept_quiet [OF sub]) (simp add: c)
  have "tip (cstate c') = Some (1, sample_id 1 0)"
    using can' branch_last by (fastforce simp: canonical_def word_unat_eq_iff)
  moreover have "get_block (cstate c') = (get_block (cstate sample_chain))(sample_id 1 0 \<mapsto> ?b)"
    using st by (simp add: stores_def c)
  ultimately show ?thesis
    using accept_run [OF quick_app_run acc] by (intro exI [of _ ?app]) (simp add: achain_handled)
qed

lemma quick_difficulty: "next_difficulty 1 120 120 1 = 1" "next_difficulty 1 30 120 1 = 4"
  by (simp_all add: next_difficulty_def clamp_timespan_def sat_mul_def Let_def max_def word_le_nat_alt)

theorem template_race_witness:
  "\<exists>app c. node_run sample_env quick_gen app \<and> tip (cstate (achain app)) = Some (1, sample_id 1 0) \<and>
     template_from_reads sample_env quick_gen 60 (sample_addr 1) [] (1, sample_id 1 0) (Some slow_block)
       (Some (genesis_block sample_gen)) = Inr (sample_block 2 (sample_id 1 0) 1 0 []) \<and>
     submit_block sample_env (achain app) (sample_block 2 (sample_id 1 0) 1 1 []) = Some (Inl (WrongDifficulty 1 4), c)"
proof -
  let ?b = "sample_block 2 (sample_id 1 0) 1 0 []" and ?a = "block_at_a []"
  obtain app where app: "node_run sample_env quick_gen app" "tip (cstate (achain app)) = Some (1, sample_id 1 0)"
    "get_block (cstate (achain app)) = (get_block (cstate sample_chain))(sample_id 1 0 \<mapsto> ?a)"
    using quick_first by blast
  obtain ds where ds: "generate sample_env 0 (epoch_seed sample_env None) = Some ds" "wf_dataset ds"
    using sample_dataset by blast
  have b: "with_nonce ?b 1 = sample_block 2 (sample_id 1 0) 1 1 []" by (simp add: with_nonce_def sample_block_def)
  have due: "difficulty_due quick_gen (cstate (achain app)) ?a = Inr 4"
    using quick_difficulty(2)
    by (simp add: difficulty_due_def expected_difficulty_after_def quick_gen_def app(3) sample_fields sample_root_fresh
        genesis_block_def sample_block_def) (simp add: sample_gen_def sat_sub_def word_le_nat_alt)
  have torn: "template_from_reads sample_env quick_gen 60 (sample_addr 1) [] (1, sample_id 1 0) (Some slow_block)
      (Some (genesis_block sample_gen)) = Inr ?b"
    using quick_difficulty(1)
    by (simp add: template_from_reads_def difficulty_from_reads_def quick_gen_def slow_block_def genesis_block_def
        sample_block_def) (simp add: sample_gen_def sat_sub_def word_le_nat_alt)
  have id: "header_id sample_env (header (with_nonce ?b 1)) ds = Some (sample_id 1 1)"
    unfolding b by (rule sample_block_id [OF wf_sample_id ds(2)])
  have "0 < initial_difficulty quick_gen" by (simp add: quick_gen_def sample_gen_def)
  from template_race [OF app(1) rtranclp.rtrancl_refl sample_env_laws(1) quick_capped this app(2) _ torn ds(1) _ id]
  obtain c where "submit_block sample_env (achain app) (with_nonce ?b 1) = Some (Inl (WrongDifficulty 1 4), c)"
    using due sample_root_fresh [symmetric] by (auto simp: app(3) sample_fields meets_target_one EPOCH_LENGTH_def)
  with app(1,2) torn show ?thesis unfolding b by blast
qed

end
