(* ===== verification/Disturbed_Work.thy ===== *)
theory Disturbed_Work
  imports Template_Race
begin

text \<open>
  A request for work as it runs in the node (\<open>get_work\<close> in \<open>main.rs\<close>): it holds no lock of the chain, so between its
  reads the node takes blocks, transactions and messages. What a block is worth that was mined on its answer.
\<close>

section \<open>A request between other work\<close>

text \<open>
  The reads in their order: the pending transactions (of which only the signatures are sure), the tip, the dataset,
  the two blocks of the window, the hash at the epoch boundary. The node moves before each of them, and the reads by
  height may also fall between two writes of a submission, so they may return anything.
\<close>

definition disturbed_work :: "'a env_scheme \<Rightarrow> u64 \<Rightarrow> string \<Rightarrow> app \<Rightarrow> work_reply \<Rightarrow> app \<Rightarrow> bool" where
  "disturbed_work E now text app w app' \<longleftrightarrow>
     (\<exists>miner_addr pending h x app1 app2 ds c block_read start_read boundary_read b.
        addr_from_str E text = Inr miner_addr \<and> list_all (is_signature_valid E) pending \<and>
        (node_step E)\<^sup>*\<^sup>* app app1 \<and> tip (cstate (achain app1)) = Some (h, x) \<and>
        (node_step E)\<^sup>*\<^sup>* app1 app2 \<and> dataset_for_height E (achain app2) (h + 1) = Some (Inr ds, c) \<and>
        (node_step E)\<^sup>*\<^sup>* (app2\<lparr>achain := c\<rparr>) app' \<and>
        template_from_reads E (cgenesis (achain app)) now miner_addr pending (h, x) block_read start_read = Inr b \<and>
        w = (let epoch = epoch_of (height (header b))
             in \<lparr>wt_block = b, wt_target = target_for_difficulty (difficulty (header b)), wt_epoch = epoch,
                 wt_boundary_hash = (if epoch = 0 then None else boundary_read)\<rparr>))"

section \<open>What a block mined on the answer is worth\<close>

text \<open>
  Everything but the replay and the difficulty of the block is in order; in the calm case, when nothing came between
  the reads, the difficulty is too.
\<close>

definition candidate :: "'a env_scheme \<Rightarrow> genesis_config \<Rightarrow> chain_state \<Rightarrow> bool \<Rightarrow> block \<Rightarrow> bool" where
  "candidate E gen s calm b \<longleftrightarrow>
     (\<exists>ds x p d. generate E 0 (epoch_seed E None) = Some ds \<and> sound_block E gen ds x b \<and>
        get_block s (prev_hash (header b)) = Some p \<and> height (header p) + 1 = height (header b) \<and>
        difficulty_due gen s p = Inr d \<and> (calm \<longrightarrow> difficulty (header b) = d))"

lemma candidate_mono:
  assumes "candidate E gen s calm b" "keeps_blocks s s'"
  shows "candidate E gen s' calm b"
proof -
  obtain ds x p d where c: "generate E 0 (epoch_seed E None) = Some ds" "sound_block E gen ds x b"
    "get_block s (prev_hash (header b)) = Some p" "height (header p) + 1 = height (header b)"
    "difficulty_due gen s p = Inr d" "calm \<longrightarrow> difficulty (header b) = d"
    using assms(1) by (auto simp: candidate_def)
  have "difficulty_due gen s' p = Inr d"
    by (rule difficulty_due_mono [OF c(5)]) (use assms(2) in \<open>simp add: keeps_blocks_def\<close>)
  moreover have "get_block s' (prev_hash (header b)) = Some p" using assms(2) c(3) by (simp add: keeps_blocks_def)
  ultimately show ?thesis using c unfolding candidate_def by blast
qed

lemma worthy_candidate: "worthy E gen s b \<Longrightarrow> candidate E gen s True b"
  by (auto simp: worthy_def candidate_def)

lemma next_difficulty_positive: "0 < next_difficulty d a t w"
  unfolding next_difficulty_def Let_def by (simp add: less_max_iff_disj)

lemma reads_positive: "difficulty_from_reads gen n a b = Inr d \<Longrightarrow> 0 < initial_difficulty gen \<Longrightarrow> 0 < d"
  using next_difficulty_positive by (auto simp: difficulty_from_reads_def Let_def split: if_splits option.splits)

lemma disturbed_candidate:
  assumes "node_run E gen app" "hash_sizes E" "supply_capped E gen" "0 < initial_difficulty gen"
    and "disturbed_work E now text app w app'"
  shows "node_run E gen app' \<and> keeps_blocks (cstate (achain app)) (cstate (achain app')) \<and> wt_epoch w = 0 \<and> wt_boundary_hash w = None \<and>
    (\<exists>ds. generate E 0 (epoch_seed E None) = Some ds \<and>
      (\<forall>n x. header_id E (header (with_nonce (wt_block w) n)) ds = Some x \<and> meets_target x (wt_target w) \<longrightarrow>
         candidate E gen (cstate (achain app')) False (with_nonce (wt_block w) n)))"
proof -
  note hyps = assms(2,3)
  have goes: "goes_on E gen a b" if "node_step E a b" for a b using that by (simp add: goes_on_def)
  have later: "node_run E gen b \<and> keeps_blocks (cstate (achain a)) (cstate (achain b))"
    if "(node_step E)\<^sup>*\<^sup>* a b" "node_run E gen a" for a b
    using goes_on_steps [OF _ that(2) hyps, of b] mono_rtranclp [of "node_step E" "goes_on E gen"] goes that(1) by blast
  obtain a txs h x app1 app2 ds c r1 r2 r3 b where
    s: "list_all (is_signature_valid E) txs" "(node_step E)\<^sup>*\<^sup>* app app1" "tip (cstate (achain app1)) = Some (h, x)"
      "(node_step E)\<^sup>*\<^sup>* app1 app2" "dataset_for_height E (achain app2) (h + 1) = Some (Inr ds, c)"
      "(node_step E)\<^sup>*\<^sup>* (app2\<lparr>achain := c\<rparr>) app'"
    and t: "template_from_reads E (cgenesis (achain app)) now a txs (h, x) r1 r2 = Inr b"
    and w: "wt_block w = b" "wt_target w = target_for_difficulty (difficulty (header b))" "wt_epoch w = epoch_of (height (header b))"
      "wt_boundary_hash w = (if epoch_of (height (header b)) = 0 then None else r3)"
    using assms(5) by (auto simp: disturbed_work_def Let_def)
  note l1 = later [OF s(2) assms(1)] note l2 = later [OF s(4) l1 [THEN conjunct1]]
  have inv1: "node_inv E gen app1" and inv2: "node_inv E gen app2" using node_run_inv [OF _ hyps] l1 l2 by blast+
  have reach2: "reachable E gen (achain app2)" using inv2 by (simp add: node_inv_def)
  have "reachable E gen (achain app)" using node_run_inv [OF assms(1) hyps] by (simp add: node_inv_def)
  then have gen: "cgenesis (achain app) = gen" by (rule reachable_gen [OF _ hyps])
  obtain p d where p: "get_block (cstate (achain app1)) x = Some p" "height (header p) = h" "0 < h + 1"
    "difficulty_due gen (cstate (achain app1)) p = Inr d"
    by (rule stored_parent [OF inv1 hyps assms(4) s(3)])
  have ds: "h + 1 < EPOCH_LENGTH" "generate E 0 (epoch_seed E None) = Some ds"
    using s(5) first_epoch_dataset [OF reachable_inv [OF reach2 hyps] reachable_first_epoch [OF reach2 hyps], of "h + 1"]
    by (auto split: if_splits option.splits)
  have step: "node_step E app2 (app2\<lparr>achain := c\<rparr>)" by (rule dataset_is_step [OF inv2 hyps s(5) p(3)])
  have end_: "node_run E gen app'" "keeps_blocks (cstate (achain app1)) (cstate (achain app'))"
    "keeps_blocks (cstate (achain app)) (cstate (achain app'))"
    using later [OF converse_rtranclp_into_rtranclp [of "node_step E", OF step s(6)] l2 [THEN conjunct1]] l1 l2
      keeps_blocks_trans by blast+
  have b: "height (header b) = h + 1" "prev_hash (header b) = x" "tx_root (header b) = compute_tx_root E b" "transactions b = txs"
    "difficulty_from_reads gen (h + 1) r1 r2 = Inr (difficulty (header b))"
    using t gen by (auto simp: template_from_reads_def compute_tx_root_def split: sum.splits)
  have pos: "0 < difficulty (header b)" by (rule reads_positive [OF b(5) assms(4)])
  have stored: "get_block (cstate (achain app')) x = Some p" "difficulty_due gen (cstate (achain app')) p = Inr d"
    using end_(2) p(1) difficulty_due_mono [OF p(4)] by (simp_all add: keeps_blocks_def)
  have "candidate E gen (cstate (achain app')) False (with_nonce (wt_block w) n)"
    if "header_id E (header (with_nonce (wt_block w) n)) ds = Some y" "meets_target y (wt_target w)" for n y
    using that ds p(2,3) stored b(1-4) pos s(1) by (auto simp: candidate_def sound_block_def w(1,2))
  moreover have "wt_epoch w = 0" "wt_boundary_hash w = None" using ds(1) by (simp_all add: w(3,4) b(1) epoch_of_zero)
  ultimately show ?thesis using end_ ds(2) by blast
qed

text \<open>
  What the node says to such a block, whenever it is posted: with the difficulty that is due it is stored, and
  otherwise it is refused for its difficulty, unless a block with its hash is stored already. In the calm case it
  has the difficulty that is due.
\<close>

definition answered_late :: "'a env_scheme \<Rightarrow> genesis_config \<Rightarrow> address \<Rightarrow> bool \<Rightarrow> block \<Rightarrow> app \<Rightarrow> bool" where
  "answered_late E gen a calm b app \<longleftrightarrow> miner (header b) = a \<and>
     (\<exists>p d. get_block (cstate (achain app)) (prev_hash (header b)) = Some p \<and>
        difficulty_due gen (cstate (achain app)) p = Inr d \<and> (calm \<longrightarrow> difficulty (header b) = d) \<and>
        (difficulty (header b) = d \<longrightarrow> still_stored E a b app) \<and>
        (difficulty (header b) \<noteq> d \<longrightarrow> (\<exists>e app'. rpc_submit_block E b app = Some (Inl e, app') \<and>
           e \<in> {ChainFailed (WrongDifficulty (difficulty (header b)) d), BlockAlreadyKnown} \<and>
           cstate (achain app') = cstate (achain app))))"

lemma candidate_answered:
  assumes "node_inv E gen app" "hash_sizes E" "supply_capped E gen" "candidate E gen (cstate (achain app)) calm b" "miner (header b) = a"
  shows "answered_late E gen a calm b app"
proof -
  have reach: "reachable E gen (achain app)" using assms(1) by (simp add: node_inv_def)
  obtain ds x p d where c: "generate E 0 (epoch_seed E None) = Some ds" "sound_block E gen ds x b"
    "get_block (cstate (achain app)) (prev_hash (header b)) = Some p" "height (header p) + 1 = height (header b)"
    "difficulty_due gen (cstate (achain app)) p = Inr d" "calm \<longrightarrow> difficulty (header b) = d"
    using assms(4) by (auto simp: candidate_def)
  have "still_stored E a b app" if "difficulty (header b) = d"
  proof -
    have "worthy E gen (cstate (achain app)) b" using c that by (auto simp: worthy_def sound_block_def)
    from worthy_stored [OF assms(1-3) this] assms(5) show ?thesis by (simp only: still_stored_def simp_thms)
  qed
  moreover have "\<exists>e app'. rpc_submit_block E b app = Some (Inl e, app') \<and>
      e \<in> {ChainFailed (WrongDifficulty (difficulty (header b)) d), BlockAlreadyKnown} \<and> cstate (achain app') = cstate (achain app)"
    if d: "difficulty (header b) \<noteq> d"
  proof (cases "get_block (cstate (achain app)) x")
    case None
    from wrong_difficulty_refused [OF assms(1-3) c(1) _ this, of b p d] c(2-5) d obtain ch where
      "submit_block E (achain app) b = Some (Inl (WrongDifficulty (difficulty (header b)) d), ch)" "cstate ch = cstate (achain app)"
      by (auto simp: sound_block_def)
    then show ?thesis by (simp add: rpc_submit_block_def accept_and_broadcast_def)
  next
    case (Some k)
    then have "submit_block E (achain app) b = Some (Inr AlreadyKnown, (achain app)\<lparr>dataset_cache := Some (0, ds)\<rparr>)"
      using submit_checked_block(1) [OF reach assms(2,3) c(1,2)] by simp
    then show ?thesis by (simp add: rpc_submit_block_def accept_and_broadcast_def handle_outcome_def Let_def)
  qed
  ultimately show ?thesis using c(3,5,6) assms(5) by (auto simp: answered_late_def)
qed

end
