(* ===== verification/Gpu_Properties.thy ===== *)
theory Gpu_Properties
  imports Mining_Round
begin

text \<open>The properties of the GPU miner, for any device and for one that works, and its rounds against a node.\<close>

definition gpu_miner_ok :: "gpu_miner \<Rightarrow> bool" where
  "gpu_miner_ok m \<longleftrightarrow> (\<forall>e s. gpu_session m = Some (e, s) \<longrightarrow> (\<exists>e' ds. cached_dataset m = Some (e', ds) \<and> session_for ds s))"

text \<open>The dataset a round leaves behind is that of the epoch it was for.\<close>

lemma prepare_round_epoch:
  assumes "prepare_round P G k epoch boundary m = Some (Inr (ds, s, m'))"
  shows "cached_dataset m' = Some (epoch, ds)"
  using assms by (cases "cached_dataset m")
    (auto simp: prepare_round_def choose_dataset_def Let_def split: option.splits if_splits sum.splits)

lemma gpu_round_result:
  assumes "gpu_miner_ok m" "gpu_round P G k epoch boundary b target n m = Some (Inr (mined, m'))"
  shows "gpu_miner_ok m' \<and> (\<exists>ds s s'. cached_dataset m' = Some (epoch, ds) \<and> checked_result P b target ds (Inr mined) \<and>
    choose_dataset P (cached_dataset m) epoch boundary = Some (ds, cached_dataset m') \<and>
    mine_block_gpu P G s b target ds n = Some (Inr mined, s'))"
proof -
  obtain ds s m1 s' where p: "prepare_round P G k epoch boundary m = Some (Inr (ds, s, m1))"
    "mine_block_gpu P G s b target ds n = Some (Inr mined, s')"
    "m' = m1\<lparr>gpu_session := map_option (\<lambda>(e, _). (e, s')) (gpu_session m1)\<rparr>"
    using assms(2) by (auto simp: gpu_round_def split: option.splits sum.splits prod.splits)
  have "session_for ds s" using prepare_round_session [OF p(1)] assms(1) by (auto simp: gpu_miner_ok_def)
  then have l: "checked_result P b target ds (Inr mined)" "session_for ds s'"
    using gpu_loop_checked p(2) unfolding mine_block_gpu_def by blast+
  have c: "cached_dataset m' = Some (epoch, ds)" using prepare_round_epoch [OF p(1)] by (simp add: p(3))
  have "choose_dataset P (cached_dataset m) epoch boundary = Some (ds, cached_dataset m')"
    using p(1) by (auto simp: p(3) prepare_round_def Let_def split: option.splits sum.splits if_splits)
  moreover have "gpu_miner_ok m'" using l(2) c by (auto simp: gpu_miner_ok_def p(3))
  ultimately show ?thesis using l(1) c p(2) by blast
qed

lemma gpu_round_ends:
  assumes "gpu_miner_ok m" "prepare_round P G k epoch boundary m = Some (Inr (ds, s, m'))" "honest P G n ds"
    and "length (bytes_for_pow (header b)) \<le> 136" "0 < n"
    and "header_id P (header (with_nonce b i)) ds = Some x" "meets_target x target"
  shows "\<exists>mined m'. gpu_round P G k epoch boundary b target n m = Some (Inr (mined, m'))"
proof -
  have s: "session_for ds s" using prepare_round_session [OF assms(2)] assms(1) by (auto simp: gpu_miner_ok_def)
  have "i = 0 + of_nat (unat i div n * n + unat i mod n)" by (simp del: of_nat_add of_nat_mult)
  moreover have "good_nonce P (bytes_for_pow (header b)) target ds i"
    using assms(6,7) by (simp add: good_nonce_def header_id_def)
  ultimately have "good_nonce P (bytes_for_pow (header b)) target ds (0 + of_nat (unat i div n * n + unat i mod n))" by simp
  from honest_loop [OF assms(3) s assms(4) this] assms(5) obtain mined s' where
    "gpu_loop P G b target ds n 0 s = Some (Inr mined, s')" by auto
  then show ?thesis using assms(2) by (auto simp: gpu_round_def mine_block_gpu_def)
qed

text \<open>
  C25. The GPU is never trusted, and never starved. Whatever the kernel reports and however datasets and
  sessions were kept between rounds, a block that a round of the GPU miner returns is the template with a
  nonce that meets the target by the CPU's own hash on the dataset of the epoch, and the miner is left
  with that dataset and a session that holds exactly its bytes. If the device works on such batches, some nonce meets
  the target and the batch size is not 0, the round ends with a block.
\<close>

theorem gpu_round_correct:
  assumes "gpu_miner_ok m"
  shows "(\<forall>mined m'. gpu_round P G k epoch boundary b target n m = Some (Inr (mined, m')) \<longrightarrow>
      gpu_miner_ok m' \<and> (\<exists>ds. cached_dataset m' = Some (epoch, ds) \<and> checked_result P b target ds (Inr mined))) \<and>
    (\<forall>ds s m' i x. prepare_round P G k epoch boundary m = Some (Inr (ds, s, m')) \<and> honest P G n ds \<and>
       length (bytes_for_pow (header b)) \<le> 136 \<and> 0 < n \<and>
       header_id P (header (with_nonce b i)) ds = Some x \<and> meets_target x target \<longrightarrow>
     (\<exists>mined m'. gpu_round P G k epoch boundary b target n m = Some (Inr (mined, m'))))"
proof (intro conjI allI impI)
  fix mined m'
  assume "gpu_round P G k epoch boundary b target n m = Some (Inr (mined, m'))"
  from gpu_round_result [OF assms this] show "gpu_miner_ok m'"
    "\<exists>ds. cached_dataset m' = Some (epoch, ds) \<and> checked_result P b target ds (Inr mined)" by blast+
qed (use gpu_round_ends [OF assms] in blast)

text \<open>A device that works: it looks at every nonce of the batch.\<close>

definition sample_hit :: "bytes \<Rightarrow> bytes \<Rightarrow> bytes \<Rightarrow> u64 \<Rightarrow> bool" where
  "sample_hit data hdr target i =
     (case ondris_hash sample_env hdr i \<lparr>ds_epoch = 0, ds_bytes = data\<rparr> of None \<Rightarrow> False | Some x \<Rightarrow> meets_target x target)"

definition sample_gpu :: gpu where
  "sample_gpu =
     \<lparr>upload_ok = (\<lambda>k. True),
      launch_mine = (\<lambda>k data len hdr hlen base acc target n.
        (case find (sample_hit data hdr target) (map (\<lambda>i. base + of_nat i) [0..<n]) of
           None \<Rightarrow> Some (0, 0) | Some i \<Rightarrow> Some (1, i))),
      launch_debug = (\<lambda>k data len hdr hlen i acc.
        map_option as_bytes (ondris_hash_with_accesses sample_env hdr i \<lparr>ds_epoch = 0, ds_bytes = data\<rparr> (unat acc)))\<rparr>"

lemma sample_gpu_honest: "ds_epoch ds = 0 \<Longrightarrow> honest sample_env sample_gpu n ds"
proof -
  assume "ds_epoch ds = 0"
  then have ds: "\<lparr>ds_epoch = 0, ds_bytes = ds_bytes ds\<rparr> = ds" by simp
  have hit: "sample_hit (ds_bytes ds) hdr target i \<longleftrightarrow> good_nonce sample_env hdr target ds i" for hdr target i
    by (simp add: sample_hit_def ds good_nonce_def split: option.split)
  show ?thesis
    unfolding honest_def
  proof (intro conjI allI impI)
    fix k hdr base target
    show "\<exists>f m. launch_mine sample_gpu k (ds_bytes ds) (of_nat (length (ds_bytes ds))) hdr (of_nat (length hdr)) base
          (of_nat ACCESSES) target n = Some (f, m) \<and>
        (if \<exists>i < n. good_nonce sample_env hdr target ds (base + of_nat i)
         then f \<noteq> 0 \<and> good_nonce sample_env hdr target ds m else f = 0)"
    proof (cases "find (sample_hit (ds_bytes ds) hdr target) (map (\<lambda>i. base + of_nat i) [0..<n])")
      case None
      then have "\<not> (\<exists>i < n. good_nonce sample_env hdr target ds (base + of_nat i))"
        by (auto simp: find_None_iff hit)
      with None show ?thesis by (simp add: sample_gpu_def)
    next
      case (Some m)
      then have "good_nonce sample_env hdr target ds m" "\<exists>i < n. good_nonce sample_env hdr target ds (base + of_nat i)"
        by (auto simp: find_Some_iff hit)
      with Some show ?thesis by (simp add: sample_gpu_def)
    qed
  qed (simp add: sample_gpu_def)
qed

theorem gpu_round_correct_witness:
  "\<exists>ds mined m'.
     gpu_round sample_env sample_gpu 0 0 None block_a (target_for_difficulty 1) 4 \<lparr>cached_dataset = None, gpu_session = None\<rparr> =
       Some (Inr (mined, m')) \<and>
     gpu_miner_ok m' \<and> cached_dataset m' = Some (0, ds) \<and> checked_result sample_env block_a (target_for_difficulty 1) ds (Inr mined)"
proof -
  let ?m = "\<lparr>cached_dataset = None, gpu_session = None\<rparr>"
  have ok: "gpu_miner_ok ?m" by (simp add: gpu_miner_ok_def)
  obtain ds where ds: "generate sample_env 0 (epoch_seed sample_env None) = Some ds" "wf_dataset ds" "ds_epoch ds = 0"
    using generate_total [OF sample_env_laws(1), of 0 "epoch_seed sample_env None"] by blast
  obtain s m' where prep: "prepare_round sample_env sample_gpu 0 0 None ?m = Some (Inr (ds, s, m'))"
    by (simp add: prepare_round_def choose_dataset_def ds(1) mining_session_def sample_gpu_def)
  have "header_id sample_env (header (with_nonce block_a 3)) ds = Some (sample_id 1 3)"
  proof -
    have "with_nonce block_a 3 = sample_block 1 sample_root 1 3 [sample_tx 0]"
      by (simp add: with_nonce_def block_a_def sample_block_def)
    then show ?thesis using sample_block_id [OF wf_sample_root ds(2)] by simp
  qed
  moreover have "meets_target (sample_id 1 3) (target_for_difficulty 1)" by (simp add: meets_target_one)
  moreover have "length (bytes_for_pow (header block_a)) \<le> 136"
  proof -
    have "wf_header (header block_a)"
      using wf_sample_tx_root [of "[sample_tx 0]"]
      by (simp add: wf_header_def block_a_def sample_block_def sample_addr_def)
    from length_bytes_for_pow [OF this] show ?thesis by simp
  qed
  moreover note correct = gpu_round_correct [OF ok, where P = sample_env and G = sample_gpu and k = 0 and epoch = 0
      and boundary = None and b = block_a and target = "target_for_difficulty 1" and n = 4]
  ultimately obtain mined m2 where
    "gpu_round sample_env sample_gpu 0 0 None block_a (target_for_difficulty 1) 4 ?m = Some (Inr (mined, m2))"
    using prep sample_gpu_honest [OF ds(3)] by (metis zero_less_numeral)
  with correct show ?thesis by blast
qed

section \<open>Against a node\<close>

text \<open>
  A GPU cannot make the node refuse. Whatever the device does: a block that a round of the GPU miner returns
  for work that a node has just handed out, and that the node has not got, is accepted and stored one above
  the tip, when the pending transactions replay on its accounts.
\<close>

theorem gpu_round_accepted:
  assumes "node_run E gen app" "hash_sizes E" "supply_capped E gen" "0 < initial_difficulty gen"
    and "canonical E gen (cstate (achain app)) bs" "tx_room E gen (cstate (achain app))"
    and "tx_count (map snd bs) + length (mempool_all (cstate (achain app))) < 2 ^ 64"
    and "spec_txs E (mempool_all (cstate (achain app))) (read_ledger (get_account (cstate (achain app)))) \<noteq> None"
    and "rpc_get_work E now query app = Some (Inr w, app1)" "gpu_miner_ok m" "cached_ok E (cached_dataset m)"
    and "gpu_round E G k (wt_epoch w) (wt_boundary_hash w) (wt_block w) (wt_target w) n m = Some (Inr (b, m'))"
  shows "gpu_miner_ok m' \<and> cached_ok E (cached_dataset m') \<and>
    (\<exists>ds x. generate E 0 (epoch_seed E None) = Some ds \<and> header_id E (header b) ds = Some x \<and>
       (get_block (cstate (achain app)) x = None \<longrightarrow>
          (\<exists>app2. rpc_submit_block E b app1 = Some (Inr \<lparr>sb_block_hash = x, sb_height = height (header b)\<rparr>, app2) \<and>
             get_block (cstate (achain app2)) x = Some b \<and> unat (height (header b)) = length bs + 1)))"
proof -
  have inv: "node_inv E gen app" by (rule node_run_inv [OF assms(1-3)])
  from inv assms(2,3,9) obtain ds where w: "wt_epoch w = 0" "wt_boundary_hash w = None" "generate E 0 (epoch_seed E None) = Some ds"
    by (rule node_work)
  obtain ds' s s' where g: "gpu_miner_ok m'" "checked_result E (wt_block w) (wt_target w) ds' (Inr b)"
    "choose_dataset E (cached_dataset m) (wt_epoch w) (wt_boundary_hash w) = Some (ds', cached_dataset m')"
    "mine_block_gpu E G s (wt_block w) (wt_target w) ds' n = Some (Inr b, s')"
    using gpu_round_result [OF assms(10,12)] by blast
  have c: "ds' = ds" "cached_ok E (cached_dataset m')" using choose_dataset_first [OF assms(11) w(3)] g(3) w(1,2) by auto
  obtain x where x: "header_id E (header b) ds = Some x" using g(2) c(1) by (auto simp: checked_result_def)
  have "\<exists>G s n s'. mine_block_gpu E G s (wt_block w) (wt_target w) ds n = Some (Inr b, s')" using g(4) c(1) by blast
  from gpu.mined_accepted [OF assms(1-9) w(3) this] x have
    "get_block (cstate (achain app)) x = None \<longrightarrow>
       (\<exists>app2. rpc_submit_block E b app1 = Some (Inr \<lparr>sb_block_hash = x, sb_height = height (header b)\<rparr>, app2) \<and>
          get_block (cstate (achain app2)) x = Some b \<and> unat (height (header b)) = length bs + 1)"
    by simp
  with g(1) c(2) w(3) x show ?thesis by (intro conjI exI [of _ ds] exI [of _ x]) assumption+
qed

theorem gpu_round_accepted_witness:
  "\<exists>app1 b m' n app2. rpc_get_work sample_env 30 sample_query sample_app = Some (Inr (sample_work []), app1) \<and>
     gpu_round sample_env sample_gpu 0 0 None (wt_block (sample_work [])) (wt_target (sample_work [])) 4
       \<lparr>cached_dataset = None, gpu_session = None\<rparr> = Some (Inr (b, m')) \<and>
     rpc_submit_block sample_env b app1 = Some (Inr \<lparr>sb_block_hash = sample_id 1 n, sb_height = 1\<rparr>, app2)"
proof -
  let ?w = "sample_work []" and ?m = "\<lparr>cached_dataset = None, gpu_session = None\<rparr>"
  have pend: "mempool_all (cstate (achain sample_app)) = []" by (simp add: mempool_all_def sample_app_pending)
  obtain app1 where work: "rpc_get_work sample_env 30 sample_query sample_app = Some (Inr ?w, app1)"
    using like_sample_work [OF like_sample_app] pend by auto
  have wt: "wt_epoch ?w = 0" "wt_boundary_hash ?w = None" "wt_target ?w = target_for_difficulty 1"
    "wt_block ?w = sample_block 1 sample_root 1 0 []" by (simp_all add: sample_work_def)
  obtain ds where ds: "generate sample_env 0 (epoch_seed sample_env None) = Some ds" "wf_dataset ds" "ds_epoch ds = 0"
    using generate_total [OF sample_env_laws(1), of 0 "epoch_seed sample_env None"] by blast
  have ok: "gpu_miner_ok ?m" "cached_ok sample_env (cached_dataset ?m)" by (simp_all add: gpu_miner_ok_def cached_ok_def)
  obtain s m1 where prep: "prepare_round sample_env sample_gpu 0 0 None ?m = Some (Inr (ds, s, m1))"
    by (simp add: prepare_round_def choose_dataset_def ds(1) mining_session_def sample_gpu_def)
  have id: "header_id sample_env (header (with_nonce (sample_block 1 sample_root 1 0 []) i)) ds = Some (sample_id 1 i)" for i
    unfolding with_nonce_sample by (rule sample_block_id [OF wf_sample_root ds(2)])
  have "length (bytes_for_pow (header (sample_block 1 sample_root 1 0 []))) \<le> 136"
  proof -
    have "wf_header (header (sample_block 1 sample_root 1 0 []))"
      using wf_sample_tx_root [of "[]"] by (simp add: wf_header_def sample_block_def sample_addr_def)
    from length_bytes_for_pow [OF this] show ?thesis by simp
  qed
  from gpu_round_ends [OF ok(1) prep sample_gpu_honest [OF ds(3)] this _ id [of 0], of 4 "target_for_difficulty 1"]
  obtain b m' where round: "gpu_round sample_env sample_gpu 0 0 None (wt_block ?w) (wt_target ?w) 4 ?m = Some (Inr (b, m'))"
    by (auto simp: wt meets_target_one)
  then obtain i where b: "b = with_nonce (sample_block 1 sample_root 1 0 []) i"
    using gpu_round_result [OF ok(1) round] by (auto simp: checked_result_def wt)
  have fresh: "get_block (cstate (achain sample_app)) (sample_id 1 i) = None"
    using like_sample_app sample_root_fresh [symmetric] by (simp add: like_sample_def sample_fields)
  have "0 < initial_difficulty sample_gen" by (simp add: sample_gen_def)
  from gpu_round_accepted [OF sample_app_run sample_env_laws(1) sample_capped this
      like_sample_canonical [OF like_sample_app] _ _ work ok, of sample_gpu 0 4 b m'] round
  obtain app2 where "rpc_submit_block sample_env b app1 = Some (Inr \<lparr>sb_block_hash = sample_id 1 i, sb_height = 1\<rparr>, app2)"
    using ds(1) id [of i] fresh by (auto simp: pend wt b)
  with work round show ?thesis by blast
qed

section \<open>The self test\<close>

lemma compare_hashes_passes:
  "compare_hashes P G k ds acc xs = Some (Inr ()) \<Longrightarrow> (hdr, n) \<in> set xs \<Longrightarrow>
     \<exists>j h. ondris_hash_with_accesses P hdr n ds acc = Some h \<and>
        launch_debug G j (ds_bytes ds) (of_nat (length (ds_bytes ds))) hdr (of_nat (length hdr)) n (of_nat acc) = Some (as_bytes h)"
  by (induction P G k ds acc xs rule: compare_hashes.induct)
    (auto simp: hash_debug_def split: option.splits sum.splits if_splits)

text \<open>
  A self test that passes has seen the device return the hash of the CPU for each of its twelve inputs, ten
  on a dataset of 8192 bytes with 8 accesses and two at the real sizes.
\<close>

theorem self_test_passes:
  assumes "self_test P G = Some (Inr ())"
  shows "\<exists>tiny full. generate_with_sizes P 0 (hash_of P (string_bytes ''gpu-self-test-seed'')) 4096 8192 = Some tiny \<and>
    generate P 0 (hash_of P (string_bytes ''gpu-self-test-full-size-seed'')) = Some full \<and>
    (\<forall>(ds, acc, xs) \<in> {(tiny, 8, tiny_checks), (full, ACCESSES, full_checks)}. \<forall>(hdr, n) \<in> set xs. \<exists>j h.
       ondris_hash_with_accesses P hdr n ds acc = Some h \<and>
       launch_debug G j (ds_bytes ds) (of_nat (length (ds_bytes ds))) hdr (of_nat (length hdr)) n (of_nat acc) = Some (as_bytes h))"
proof -
  obtain tiny full where "generate_with_sizes P 0 (hash_of P (string_bytes ''gpu-self-test-seed'')) 4096 8192 = Some tiny"
    "generate_with_sizes P 0 (hash_of P (string_bytes ''gpu-self-test-full-size-seed'')) CACHE_SIZE DATASET_SIZE = Some full"
    "compare_hashes P G 0 tiny 8 tiny_checks = Some (Inr ())" "compare_hashes P G 30 full ACCESSES full_checks = Some (Inr ())"
    using assms by (auto simp: self_test_def split: option.splits sum.splits unit.splits)
  then show ?thesis using compare_hashes_passes by (fastforce simp: generate_def)
qed

end
