(* ===== verification/Miner_Programs.thy ===== *)
theory Miner_Programs
  imports Disturbed_Work Gpu_Properties
begin

text \<open>
  The miners as programs: what they are started with (\<open>main\<close> of \<open>crates/ondris-miner/src/main.rs\<close> and of
  \<open>crates/ondris-miner-gpu/src/main.rs\<close>), how the GPU miner chooses its device (\<open>Gpu::new\<close> in \<open>gpu.rs\<close>), and
  their endless loop next to a node that goes on working: it takes blocks and transactions, reorganises and
  restarts while a miner searches. What a miner posts late is still worth storing.
\<close>

section \<open>Starting the CPU miner\<close>

record miner_args =
  ma_node :: string
  ma_address :: string
  ma_threads :: "nat option"

text \<open>\<open>cores\<close> is what \<open>available_parallelism\<close> answers. The address is sent to the node as it was given.\<close>

definition cpu_start :: "'a prims_scheme \<Rightarrow> nat option \<Rightarrow> miner_args \<Rightarrow> parse_error + nat" where
  "cpu_start P cores args =
     (case addr_from_str P (ma_address args) of
        Inl e \<Rightarrow> Inl e
      | Inr validated \<Rightarrow>
          Inr (case ma_threads args of Some n \<Rightarrow> n | None \<Rightarrow> (case cores of Some n \<Rightarrow> n | None \<Rightarrow> 4)))"

section \<open>Starting the GPU miner\<close>

datatype gpu_command =
    SelfTest
  | Mine string string nat  \<comment> \<open>node, address, batch size\<close>
  | Benchmark nat nat  \<comment> \<open>batch size, number of batches\<close>

record cl_device =
  cl_name :: "string option"
  cl_units :: "u32 option"
  cl_max_alloc :: "u64 option"
  cl_memory :: "u64 option"
  cl_max_group :: "nat option"
  cl_gpu :: gpu  \<comment> \<open>what its buffers and kernels do\<close>

text \<open>
  OpenCL as it answers during one start: the platforms (\<open>None\<close>: the query fails), for each the GPUs it lists
  (\<open>None\<close>: it lists none or fails), and whether context, queue and kernels can be made on a device.
\<close>

record opencl =
  cl_platforms :: "cl_device list option list option"
  makes_context :: "cl_device \<Rightarrow> bool"
  makes_queue :: "cl_device \<Rightarrow> bool"
  builds_kernels :: "cl_device \<Rightarrow> bool"

datatype init_error = PlatformQueryFailed | NoPlatforms | NoGpuDevice | NoContext | NoQueue | BuildFailed

record gpu_device =
  device_name :: string
  max_compute_units :: u32
  max_mem_alloc_size :: u64
  global_mem_size :: u64
  max_work_group_size :: nat
  device :: gpu

text \<open>The first device of the first platform that lists one.\<close>

fun first_device :: "cl_device list option list \<Rightarrow> cl_device option" where
  "first_device [] = None"
| "first_device (Some (d # ds) # ps) = Some d"
| "first_device (Some [] # ps) = first_device ps"
| "first_device (None # ps) = first_device ps"

definition gpu_new :: "opencl \<Rightarrow> init_error + gpu_device" where
  "gpu_new cl =
     (case cl_platforms cl of
        None \<Rightarrow> Inl PlatformQueryFailed
      | Some platforms \<Rightarrow>
          if platforms = [] then Inl NoPlatforms
          else case first_device platforms of
            None \<Rightarrow> Inl NoGpuDevice
          | Some d \<Rightarrow>
              if \<not> makes_context cl d then Inl NoContext
              else if \<not> makes_queue cl d then Inl NoQueue
              else if \<not> builds_kernels cl d then Inl BuildFailed
              else Inr \<lparr>device_name = (case cl_name d of Some name \<Rightarrow> name | None \<Rightarrow> ''<unknown device>''),
                        max_compute_units = (case cl_units d of Some n \<Rightarrow> n | None \<Rightarrow> 0),
                        max_mem_alloc_size = (case cl_max_alloc d of Some n \<Rightarrow> n | None \<Rightarrow> 0),
                        global_mem_size = (case cl_memory d of Some n \<Rightarrow> n | None \<Rightarrow> 0),
                        max_work_group_size = (case cl_max_group d of Some n \<Rightarrow> n | None \<Rightarrow> 0),
                        device = cl_gpu d\<rparr>)"

datatype gpu_main_error = BadMinerAddress parse_error | InitFailed init_error | GpuFailed gpu_error

text \<open>A program that has ended, and one that mines from then on for an address, with a device and a batch size.\<close>

datatype gpu_started = Finished | Mining address gpu nat

text \<open>The address is checked before a device is looked for; the outer \<open>None\<close> is a panic.\<close>

definition gpu_main :: "'a prims_scheme \<Rightarrow> opencl \<Rightarrow> gpu_command \<Rightarrow> (gpu_main_error + gpu_started) option" where
  "gpu_main P cl cmd =
     (case cmd of
        SelfTest \<Rightarrow>
          (case gpu_new cl of
             Inl e \<Rightarrow> Some (Inl (InitFailed e))
           | Inr g \<Rightarrow> map_option (map_sum GpuFailed (\<lambda>_. Finished)) (self_test P (device g)))
      | Mine node address batch_size \<Rightarrow>
          (case addr_from_str P address of
             Inl e \<Rightarrow> Some (Inl (BadMinerAddress e))
           | Inr miner_address \<Rightarrow>
               (case gpu_new cl of
                  Inl e \<Rightarrow> Some (Inl (InitFailed e))
                | Inr g \<Rightarrow> Some (Inr (Mining miner_address (device g) batch_size))))
      | Benchmark batch_size batches \<Rightarrow>
          (case gpu_new cl of
             Inl e \<Rightarrow> Some (Inl (InitFailed e))
           | Inr g \<Rightarrow> map_option (map_sum GpuFailed (\<lambda>_. Finished)) (benchmark P (device g) batch_size batches)))"

lemma first_device_listed:
  "first_device ps = Some d \<Longrightarrow> \<exists>ds. Some (d # ds) \<in> set ps"
  "first_device ps = None \<longleftrightarrow> (\<forall>ds. Some ds \<in> set ps \<longrightarrow> ds = [])"
  by (induction ps rule: first_device.induct) auto

section \<open>The loop of a miner\<close>

text \<open>What the search of a round may return for the work \<open>w\<close>, and what is kept for the next.\<close>

definition cpu_mining ::
    "'a env_scheme \<Rightarrow> nat \<Rightarrow> (u64 \<times> dataset) option \<Rightarrow> work_reply \<Rightarrow> (u64 \<times> dataset) option \<Rightarrow> block \<Rightarrow> bool" where
  "cpu_mining E threads cached w cached' b \<longleftrightarrow>
     (\<exists>ds schedule. choose_dataset E cached (wt_epoch w) (wt_boundary_hash w) = Some (ds, cached') \<and>
        mine_block E schedule (wt_block w) (wt_target w) ds threads = Mined b)"

definition gpu_mining :: "'a env_scheme \<Rightarrow> gpu \<Rightarrow> nat \<Rightarrow> gpu_miner \<Rightarrow> work_reply \<Rightarrow> gpu_miner \<Rightarrow> block \<Rightarrow> bool" where
  "gpu_mining E G batch_size m w m' b \<longleftrightarrow>
     (\<exists>k. gpu_round E G k (wt_epoch w) (wt_boundary_hash w) (wt_block w) (wt_target w) batch_size m = Some (Inr (b, m')))"

record 'm mining_world =
  kept :: 'm
  in_hand :: "block option"
  calm :: bool  \<comment> \<open>nothing came between the reads of the request for its work\<close>
  at_node :: app

text \<open>
  The loop, which both miners share: fetch work and search, then post what was found. The request for work runs in
  the node next to everything else (\<open>disturbed_work\<close>); when nothing comes between its reads it is \<open>rpc_get_work\<close>. Since
  a search sees nothing of the node, fetching and searching are one step; the node moves between it and the post. A
  request that fails, or a post that is lost, is a line in the log.
\<close>

inductive main_loop ::
    "'a env_scheme \<Rightarrow> genesis_config \<Rightarrow> ('m \<Rightarrow> work_reply \<Rightarrow> 'm \<Rightarrow> block \<Rightarrow> bool) \<Rightarrow> string \<Rightarrow>
       'm mining_world \<Rightarrow> 'm mining_world \<Rightarrow> bool"
  for E :: "'a env_scheme" and gen :: genesis_config and mines :: "'m \<Rightarrow> work_reply \<Rightarrow> 'm \<Rightarrow> block \<Rightarrow> bool" and query :: string where
  node_moved: "goes_on E gen (at_node s) app \<Longrightarrow> main_loop E gen mines query s (s\<lparr>at_node := app\<rparr>)"
| no_work: "in_hand s = None \<Longrightarrow> rpc_get_work E now query (at_node s) = Some (Inl e, app) \<Longrightarrow>
    main_loop E gen mines query s (s\<lparr>at_node := app\<rparr>)"
| mined: "in_hand s = None \<Longrightarrow> rpc_get_work E now query (at_node s) = Some (Inr w, app) \<Longrightarrow> mines (kept s) w m b \<Longrightarrow>
    main_loop E gen mines query s (s\<lparr>kept := m, in_hand := Some b, calm := True, at_node := app\<rparr>)"
| mined_meanwhile: "in_hand s = None \<Longrightarrow> disturbed_work E now query (at_node s) w app \<Longrightarrow> mines (kept s) w m b \<Longrightarrow>
    main_loop E gen mines query s (s\<lparr>kept := m, in_hand := Some b, calm := False, at_node := app\<rparr>)"
| posted: "in_hand s = Some b \<Longrightarrow> rpc_submit_block E b (at_node s) = Some (r, app) \<Longrightarrow>
    main_loop E gen mines query s (s\<lparr>in_hand := None, at_node := app\<rparr>)"
| post_lost: "in_hand s = Some b \<Longrightarrow> main_loop E gen mines query s (s\<lparr>in_hand := None\<rparr>)"

definition mining_run ::
    "'a env_scheme \<Rightarrow> genesis_config \<Rightarrow> ('m \<Rightarrow> work_reply \<Rightarrow> 'm \<Rightarrow> block \<Rightarrow> bool) \<Rightarrow> string \<Rightarrow> 'm \<Rightarrow> 'm mining_world \<Rightarrow> bool" where
  "mining_run E gen mines query m0 s \<longleftrightarrow>
     (\<exists>app. node_run E gen app \<and> (main_loop E gen mines query)\<^sup>*\<^sup>* \<lparr>kept = m0, in_hand = None, calm = True, at_node = app\<rparr> s)"

text \<open>The work is for the address that was asked for, and a valid address is never refused.\<close>

lemma work_for_address:
  assumes "addr_from_str E query = Inr a" "rpc_get_work E now query app = Some (r, app1)"
  shows "r = Inr w \<Longrightarrow> miner (header (wt_block w)) = a" "r \<noteq> Inl (BadAddress e)"
  using assms
  by (auto simp: rpc_get_work_def work_template_def Let_def split: option.splits sum.splits prod.splits)

lemma template_miner: "template_from_reads E gen now a txs t r1 r2 = Inr b \<Longrightarrow> miner (header b) = a"
  by (auto simp: template_from_reads_def split: prod.splits sum.splits)

lemma disturbed_for_address:
  assumes "addr_from_str E query = Inr a" "disturbed_work E now query app w app1"
  shows "miner (header (wt_block w)) = a"
  using assms template_miner unfolding disturbed_work_def Let_def by fastforce

text \<open>The contract of a search as the loop sees it, with what it keeps between rounds.\<close>

locale miner_round =
  fixes E :: "'a env_scheme" and ok :: "'m \<Rightarrow> bool" and mines :: "'m \<Rightarrow> work_reply \<Rightarrow> 'm \<Rightarrow> block \<Rightarrow> bool"
  assumes round: "mines m w m' b \<Longrightarrow> ok m \<Longrightarrow> hash_sizes E \<Longrightarrow> generate E 0 (epoch_seed E None) = Some ds \<Longrightarrow>
    wt_epoch w = 0 \<Longrightarrow> wt_boundary_hash w = None \<Longrightarrow>
    ok m' \<and> (\<exists>n x. b = with_nonce (wt_block w) n \<and> header_id E (header b) ds = Some x \<and> meets_target x (wt_target w))"

definition world_ok :: "'a env_scheme \<Rightarrow> genesis_config \<Rightarrow> ('m \<Rightarrow> bool) \<Rightarrow> address \<Rightarrow> 'm mining_world \<Rightarrow> bool" where
  "world_ok E gen ok a s \<longleftrightarrow> node_run E gen (at_node s) \<and> ok (kept s) \<and>
     (\<forall>b. in_hand s = Some b \<longrightarrow> candidate E gen (cstate (achain (at_node s))) (calm s) b \<and> miner (header b) = a)"

context miner_round
begin

lemma loop_keeps:
  assumes "main_loop E gen mines query s s'" "world_ok E gen ok a s" "addr_from_str E query = Inr a"
    and hyps: "hash_sizes E" "supply_capped E gen" "0 < initial_difficulty gen"
  shows "world_ok E gen ok a s'"
  using assms(1)
proof (cases rule: main_loop.cases)
  case (node_moved app)
  with goes_on_keeps [OF node_moved(2) _ hyps(1,2)] assms(2) candidate_mono show ?thesis by (auto simp: world_ok_def)
next
  case (no_work now e app)
  with assms(2) node_run.stepped [OF _ node_step.work_asked [OF no_work(3)]] show ?thesis by (simp add: world_ok_def)
next
  case (mined now w app m b)
  have run: "node_run E gen (at_node s)" "ok (kept s)" using assms(2) by (simp_all add: world_ok_def)
  note inv = node_run_inv [OF run(1) hyps(1,2)]
  obtain ds where w: "wt_epoch w = 0" "wt_boundary_hash w = None" "generate E 0 (epoch_seed E None) = Some ds"
    by (rule node_work [OF inv hyps(1,2) mined(3)])
  obtain n x where b: "b = with_nonce (wt_block w) n" "header_id E (header b) ds = Some x" "meets_target x (wt_target w)" "ok m"
    using round [OF mined(4) run(2) hyps(1) w(3,1,2)] by blast
  have "candidate E gen (cstate (achain app)) True b"
    using worthy_candidate [OF worthy_template [OF inv hyps mined(3) w(3), of n x]] b(1-3) by simp
  moreover have "miner (header b) = a" using work_for_address(1) [OF assms(3) mined(3) refl] by (simp add: b(1) with_nonce_def)
  ultimately show ?thesis
    using node_run.stepped [OF run(1) node_step.work_asked [OF mined(3)]] b(4) by (simp add: world_ok_def mined(1))
next
  case (mined_meanwhile now w app m b)
  have run: "node_run E gen (at_node s)" "ok (kept s)" using assms(2) by (simp_all add: world_ok_def)
  obtain ds where w: "node_run E gen app" "wt_epoch w = 0" "wt_boundary_hash w = None" "generate E 0 (epoch_seed E None) = Some ds"
    "\<And>n x. header_id E (header (with_nonce (wt_block w) n)) ds = Some x \<Longrightarrow> meets_target x (wt_target w) \<Longrightarrow>
       candidate E gen (cstate (achain app)) False (with_nonce (wt_block w) n)"
    using disturbed_candidate [OF run(1) hyps mined_meanwhile(3)] by blast
  obtain n x where b: "b = with_nonce (wt_block w) n" "header_id E (header b) ds = Some x" "meets_target x (wt_target w)" "ok m"
    using round [OF mined_meanwhile(4) run(2) hyps(1) w(4,2,3)] by blast
  moreover have "miner (header b) = a"
    using disturbed_for_address [OF assms(3) mined_meanwhile(3)] by (simp add: b(1) with_nonce_def)
  ultimately show ?thesis using w(1,5) by (simp add: world_ok_def mined_meanwhile(1))
next
  case (posted b r app)
  with assms(2) node_run.stepped [OF _ node_step.block_posted [OF posted(3)]] show ?thesis by (simp add: world_ok_def)
qed (use assms(2) in \<open>simp add: world_ok_def\<close>)

lemma run_keeps:
  assumes "mining_run E gen mines query m0 s" "ok m0" "addr_from_str E query = Inr a"
    and hyps: "hash_sizes E" "supply_capped E gen" "0 < initial_difficulty gen"
  shows "world_ok E gen ok a s"
proof -
  obtain app where app: "node_run E gen app" "(main_loop E gen mines query)\<^sup>*\<^sup>* \<lparr>kept = m0, in_hand = None, calm = True, at_node = app\<rparr> s"
    using assms(1) by (auto simp: mining_run_def)
  from app(2) show ?thesis
  proof (induction rule: rtranclp_induct)
    case (step s1 s2)
    show ?case by (rule loop_keeps [OF step(2,3) assms(3) hyps])
  qed (use app(1) assms(2) in \<open>simp add: world_ok_def\<close>)
qed

end

interpretation cpu_loop: miner_round E "cached_ok E" "cpu_mining E threads" for E :: "'a env_scheme" and threads
proof
  fix m m' :: "(u64 \<times> dataset) option" and w b ds
  assume r: "cpu_mining E threads m w m' b" "cached_ok E m" "hash_sizes E" "generate E 0 (epoch_seed E None) = Some ds"
    "wt_epoch w = 0" "wt_boundary_hash w = None"
  then obtain ds' schedule where s: "choose_dataset E m 0 None = Some (ds', m')"
    "mine_block E schedule (wt_block w) (wt_target w) ds' threads = Mined b" by (auto simp: cpu_mining_def)
  have d: "ds' = ds" "cached_ok E m'" using choose_dataset_first [OF r(2,4)] s(1) by auto
  have "wf_dataset ds" using generate_total [OF r(3), of 0 "epoch_seed E None"] r(4) by auto
  with mine_block_mined [OF s(2) r(3)] d
  show "cached_ok E m' \<and> (\<exists>n x. b = with_nonce (wt_block w) n \<and> header_id E (header b) ds = Some x \<and> meets_target x (wt_target w))"
    by blast
qed

interpretation gpu_loop: miner_round E "\<lambda>m. gpu_miner_ok m \<and> cached_ok E (cached_dataset m)" "gpu_mining E G n"
  for E :: "'a env_scheme" and G n
proof
  fix m m' w b ds
  assume r: "gpu_mining E G n m w m' b" "gpu_miner_ok m \<and> cached_ok E (cached_dataset m)" "hash_sizes E"
    "generate E 0 (epoch_seed E None) = Some ds" "wt_epoch w = 0" "wt_boundary_hash w = None"
  then obtain k where "gpu_round E G k 0 None (wt_block w) (wt_target w) n m = Some (Inr (b, m'))" by (auto simp: gpu_mining_def)
  from gpu_round_result [OF _ this] r(2) obtain ds' where g: "gpu_miner_ok m'" "checked_result E (wt_block w) (wt_target w) ds' (Inr b)"
    "choose_dataset E (cached_dataset m) 0 None = Some (ds', cached_dataset m')" by blast
  have "cached_ok E (cached_dataset m)" using r(2) by simp
  from choose_dataset_first [OF this r(4)] g(3) have "ds' = ds" "cached_ok E (cached_dataset m')" by auto
  with g(1,2) show "(gpu_miner_ok m' \<and> cached_ok E (cached_dataset m')) \<and>
      (\<exists>n x. b = with_nonce (wt_block w) n \<and> header_id E (header b) ds = Some x \<and> meets_target x (wt_target w))"
    by (auto simp: checked_result_def)
qed

lemma world_answered:
  assumes "world_ok E gen ok a s" "in_hand s = Some b" "hash_sizes E" "supply_capped E gen"
  shows "answered_late E gen a (calm s) b (at_node s)"
proof -
  have "node_inv E gen (at_node s)" using assms(1) node_run_inv [OF _ assms(3,4)] by (simp add: world_ok_def)
  with assms show ?thesis by (intro candidate_answered) (simp_all add: world_ok_def)
qed

text \<open>
  C22. Blocks that come late. A miner, with CPU or GPU, whatever its device does, runs next to a node that goes
  on working and restarting while the miner searches, and even while the node answers its request. A block that
  the miner has found pays the address the miner was started with, and whenever it is posted the node stores it,
  as its tip or beside it, if it has the difficulty that is due after its parent; it is never refused as an
  orphan, for its proof of work, its height or its signatures, and an error can only come from replaying its
  branch. When nothing came between the reads of the request it has that difficulty. When something did, it may
  have another one; then it is refused for that, and nothing of it is kept.
\<close>

theorem late_blocks_are_stored:
  assumes "hash_sizes E" "supply_capped E gen" "0 < initial_difficulty gen" "addr_from_str E query = Inr a"
  shows "(\<forall>s b. mining_run E gen (cpu_mining E threads) query None s \<and> in_hand s = Some b \<longrightarrow>
      answered_late E gen a (calm s) b (at_node s)) \<and>
    (\<forall>s b. mining_run E gen (gpu_mining E G n) query \<lparr>cached_dataset = None, gpu_session = None\<rparr> s \<and> in_hand s = Some b \<longrightarrow>
       answered_late E gen a (calm s) b (at_node s))"
proof (intro conjI allI impI; elim conjE)
  have none: "cached_ok E None" "gpu_miner_ok \<lparr>cached_dataset = None, gpu_session = None\<rparr>"
    by (simp_all add: cached_ok_def gpu_miner_ok_def)
  fix b
  show "answered_late E gen a (calm s) b (at_node s)"
    if run: "mining_run E gen (cpu_mining E threads) query None s" and "in_hand s = Some b" for s
    using world_answered [OF cpu_loop.run_keeps [OF run none(1) assms(4,1-3)] that(2) assms(1,2)] .
  show "answered_late E gen a (calm s) b (at_node s)"
    if run: "mining_run E gen (gpu_mining E G n) query \<lparr>cached_dataset = None, gpu_session = None\<rparr> s" and "in_hand s = Some b" for s
    using world_answered [OF gpu_loop.run_keeps [OF run _ assms(4,1-3)] that(2) assms(1,2)] none by simp
qed

text \<open>
  The example: a miner has found a block on the first template of a node, and before it posts the block the node
  hears of another one.
\<close>

theorem late_blocks_are_stored_witness:
  "\<exists>app. node_run sample_env sample_gen app \<and>
     still_stored sample_env (sample_addr 1) (with_nonce (sample_block 1 sample_root 1 0 []) 0) app"
proof -
  let ?w = "sample_work []" and ?b = "with_nonce (sample_block 1 sample_root 1 0 []) 0"
  have pend: "mempool_all (cstate (achain sample_app)) = []" by (simp add: mempool_all_def sample_app_pending)
  obtain app1 where work: "rpc_get_work sample_env 30 sample_query sample_app = Some (Inr ?w, app1)"
    using like_sample_work [OF like_sample_app] pend by auto
  obtain ds where ds: "generate sample_env 0 (epoch_seed sample_env None) = Some ds" "wf_dataset ds"
    using sample_dataset by blast
  have wt: "wt_epoch ?w = 0" "wt_boundary_hash ?w = None" "wt_target ?w = target_for_difficulty 1"
    "wt_block ?w = sample_block 1 sample_root 1 0 []" by (simp_all add: sample_work_def)
  have "header_id sample_env (header (sample_block 1 sample_root 1 0 [])) ds = Some (sample_id 1 0)"
    by (rule sample_block_id [OF wf_sample_root ds(2)])
  moreover have "nonce (header (sample_block 1 sample_root 1 0 [])) = 0" by (simp add: sample_block_def)
  ultimately have hash: "ondris_hash sample_env (bytes_for_pow (header (sample_block 1 sample_root 1 0 []))) 0 ds = Some (sample_id 1 0)"
    by (simp add: header_id_def)
  have "mine_block sample_env [0, 0, 0, 0] (wt_block ?w) (wt_target ?w) ds 1 = Mined ?b"
    by (simp add: wt mine_block_def start_search_def worker_step_def set_worker_def hash meets_target_one del: with_nonce_sample)
  moreover have "choose_dataset sample_env None 0 None = Some (ds, Some (0, ds))" by (simp add: choose_dataset_def Let_def ds(1))
  ultimately have mines: "cpu_mining sample_env 1 None ?w (Some (0, ds)) ?b" unfolding cpu_mining_def by (metis wt(1,2))
  have run1: "node_run sample_env sample_gen app1" by (rule node_run.stepped [OF sample_app_run node_step.work_asked [OF work]])
  obtain app2 where ev: "on_event sample_env (NewBlockEvent (block_at_b [])) app1 = Some app2"
    using on_event_total [OF node_run_inv [OF run1 sample_env_laws(1) sample_capped] sample_env_laws(1) sample_capped] by blast
  let ?loop = "main_loop sample_env sample_gen (cpu_mining sample_env 1) sample_query"
  let ?s0 = "\<lparr>kept = None, in_hand = None, calm = True, at_node = sample_app\<rparr>" and ?s1 = "\<lparr>kept = Some (0, ds), in_hand = Some ?b, calm = True, at_node = app1\<rparr>"
    and ?s2 = "\<lparr>kept = Some (0, ds), in_hand = Some ?b, calm = True, at_node = app2\<rparr>"
  have "?loop ?s0 ?s1" using main_loop.mined [of ?s0 sample_env 30 sample_query ?w app1 "cpu_mining sample_env 1"] work mines by simp
  moreover have "?loop ?s1 ?s2"
    using main_loop.node_moved [of sample_env sample_gen ?s1 app2] node_step.event [OF ev] by (simp add: goes_on_def)
  ultimately have "?loop\<^sup>*\<^sup>* ?s0 ?s2" by simp
  then have "mining_run sample_env sample_gen (cpu_mining sample_env 1) sample_query None ?s2"
    using sample_app_run by (auto simp: mining_run_def)
  moreover have "0 < initial_difficulty sample_gen" by (simp add: sample_gen_def)
  ultimately have "answered_late sample_env sample_gen (sample_addr 1) True ?b app2"
    using late_blocks_are_stored [OF sample_env_laws(1) sample_capped _ sample_query_addr, THEN conjunct1, rule_format, of 1 ?s2 ?b] by simp
  then have "still_stored sample_env (sample_addr 1) ?b app2" unfolding answered_late_def by blast
  with node_run.stepped [OF run1 node_step.event [OF ev]] show ?thesis by blast
qed

end
