(* ===== verification/Wallet.thy ===== *)
theory Wallet
  imports Node
begin

text \<open>
  Model of \<open>crates/ondris-wallet\<close>: the encrypted key file of \<open>keystore.rs\<close> and the commands of
  \<open>main.rs\<close>. Argon2, AES-GCM and \<open>serde_json\<close> are parameters (record \<open>crypto\<close>), random bytes are
  arguments, and requests go to the handlers of theory \<open>Node\<close>; a failed HTTP request is \<open>RequestFailed\<close>.
  The outer \<open>option\<close> is \<open>None\<close> where the code panics.
\<close>

section \<open>The key file\<close>

record keystore =
  ks_public_key :: string
  ks_address :: string
  ks_salt :: string
  ks_nonce :: string
  ks_ciphertext :: string

record crypto =
  argon2 :: "bytes \<Rightarrow> bytes \<Rightarrow> bytes option"  \<comment> \<open>\<open>hash_password_into\<close> of 32 bytes: password, salt\<close>
  aes_encrypt :: "bytes \<Rightarrow> bytes \<Rightarrow> bytes \<Rightarrow> bytes option"  \<comment> \<open>key, nonce of 12 bytes, plaintext\<close>
  aes_decrypt :: "bytes \<Rightarrow> bytes \<Rightarrow> bytes \<Rightarrow> bytes option"
  json_keystore :: "keystore \<Rightarrow> string"
  parse_keystore :: "string \<Rightarrow> keystore option"

datatype wallet_error =
    PasswordTooShort
  | KeyDerivationFailed
  | EncryptionFailed
  | BadHexField
  | WrongPassword
  | BadSeedSize
  | BadKeyFile
  | RequestFailed rpc_error
  | BadRecipient parse_error

definition derive_key :: "crypto \<Rightarrow> bytes \<Rightarrow> bytes \<Rightarrow> wallet_error + bytes" where
  "derive_key K password salt = (case argon2 K password salt of None \<Rightarrow> Inl KeyDerivationFailed | Some key \<Rightarrow> Inr key)"

definition create ::
    "crypto \<Rightarrow> 'a prims_scheme \<Rightarrow> bytes \<Rightarrow> bytes \<Rightarrow> bytes \<Rightarrow> bytes \<Rightarrow> wallet_error + keystore \<times> key_pair" where
  "create K P password seed salt nonce_bytes =
     (let keypair = from_seed seed
      in case derive_key K password salt of
           Inl e \<Rightarrow> Inl e
         | Inr key \<Rightarrow>
             (case aes_encrypt K key nonce_bytes (seed_bytes keypair) of
                None \<Rightarrow> Inl EncryptionFailed
              | Some ciphertext \<Rightarrow>
                  Inr (\<lparr>ks_public_key = pk_to_hex P (public P keypair), ks_address = addr_to_string P (kp_address P keypair),
                        ks_salt = hex_encode P salt, ks_nonce = hex_encode P nonce_bytes,
                        ks_ciphertext = hex_encode P ciphertext\<rparr>, keypair)))"

text \<open>\<open>Nonce::from_slice\<close> panics on a slice that is not 12 bytes long.\<close>

definition unlock :: "crypto \<Rightarrow> 'a prims_scheme \<Rightarrow> keystore \<Rightarrow> bytes \<Rightarrow> (wallet_error + key_pair) option" where
  "unlock K P ks password =
     (case hex_decode P (ks_salt ks) of
        None \<Rightarrow> Some (Inl BadHexField)
      | Some salt \<Rightarrow>
          (case derive_key K password salt of
             Inl e \<Rightarrow> Some (Inl e)
           | Inr key \<Rightarrow>
               (case hex_decode P (ks_nonce ks) of
                  None \<Rightarrow> Some (Inl BadHexField)
                | Some nonce_bytes \<Rightarrow>
                    (case hex_decode P (ks_ciphertext ks) of
                       None \<Rightarrow> Some (Inl BadHexField)
                     | Some ciphertext \<Rightarrow>
                         if length nonce_bytes \<noteq> 12 then None
                         else (case aes_decrypt K key nonce_bytes ciphertext of
                                 None \<Rightarrow> Some (Inl WrongPassword)
                               | Some plaintext \<Rightarrow>
                                   if length plaintext \<noteq> 32 then Some (Inl BadSeedSize)
                                   else Some (Inr (from_seed plaintext)))))))"

definition load_keystore :: "crypto \<Rightarrow> string \<Rightarrow> wallet_error + keystore" where
  "load_keystore K file = (case parse_keystore K file of None \<Rightarrow> Inl BadKeyFile | Some ks \<Rightarrow> Inr ks)"

definition save_keystore :: "crypto \<Rightarrow> keystore \<Rightarrow> string" where
  "save_keystore K ks = json_keystore K ks"

section \<open>Commands\<close>

text \<open>\<open>new\<close>: the file it writes and the address it prints.\<close>

definition wallet_new ::
    "crypto \<Rightarrow> 'a prims_scheme \<Rightarrow> bytes \<Rightarrow> bytes \<Rightarrow> bytes \<Rightarrow> bytes \<Rightarrow> wallet_error + string \<times> string" where
  "wallet_new K P password seed salt nonce_bytes =
     (if \<not> length password \<ge> 8 then Inl PasswordTooShort
      else case create K P password seed salt nonce_bytes of
        Inl e \<Rightarrow> Inl e
      | Inr (ks, keypair) \<Rightarrow> Inr (save_keystore K ks, addr_to_string P (kp_address P keypair)))"

definition wallet_address :: "crypto \<Rightarrow> string \<Rightarrow> wallet_error + string" where
  "wallet_address K file = (case load_keystore K file of Inl e \<Rightarrow> Inl e | Inr ks \<Rightarrow> Inr (ks_address ks))"

definition fetch_account :: "'a prims_scheme \<Rightarrow> string \<Rightarrow> app \<Rightarrow> wallet_error + account_info" where
  "fetch_account P addr app = (case rpc_get_account P addr app of Inl e \<Rightarrow> Inl (RequestFailed e) | Inr info \<Rightarrow> Inr info)"

definition wallet_balance :: "crypto \<Rightarrow> 'a prims_scheme \<Rightarrow> string \<Rightarrow> app \<Rightarrow> wallet_error + account_info" where
  "wallet_balance K P file app =
     (case load_keystore K file of Inl e \<Rightarrow> Inl e | Inr ks \<Rightarrow> fetch_account P (ks_address ks) app)"

definition wallet_send ::
    "crypto \<Rightarrow> 'a env_scheme \<Rightarrow> string \<Rightarrow> bytes \<Rightarrow> string \<Rightarrow> u64 \<Rightarrow> u64 \<Rightarrow> app \<Rightarrow> ((wallet_error + hash256) \<times> app) option" where
  "wallet_send K E file password to am fe app =
     (case load_keystore K file of
        Inl e \<Rightarrow> Some (Inl e, app)
      | Inr ks \<Rightarrow>
          (case unlock K E ks password of
             None \<Rightarrow> None
           | Some (Inl e) \<Rightarrow> Some (Inl e, app)
           | Some (Inr keypair) \<Rightarrow>
               (case fetch_account E (ks_address ks) app of
                  Inl e \<Rightarrow> Some (Inl e, app)
                | Inr info \<Rightarrow>
                    (case addr_from_str E to of
                       Inl e \<Rightarrow> Some (Inl (BadRecipient e), app)
                     | Inr to_addr \<Rightarrow>
                         (case sign_tx E keypair (new_unsigned (public E keypair) to_addr am fe (ai_nonce info)) of
                            None \<Rightarrow> None
                          | Some tx \<Rightarrow>
                              (case rpc_submit_tx E tx app of
                                 (Inl e, app') \<Rightarrow> Some (Inl (RequestFailed e), app')
                               | (Inr h, app') \<Rightarrow> Some (Inr h, app')))))))"

section \<open>What the wallet relies on\<close>

definition crypto_laws :: "crypto \<Rightarrow> bool" where
  "crypto_laws K \<longleftrightarrow>
     (\<forall>key n m c. aes_encrypt K key n m = Some c \<longrightarrow> aes_decrypt K key n c = Some m) \<and>
     (\<forall>ks. parse_keystore K (json_keystore K ks) = Some ks)"

end
