(* ===== verification/Wallet_Properties.thy ===== *)
theory Wallet_Properties
  imports Wallet Reorg_Pending
begin

text \<open>The wallet opens what it sealed, and what it does when it sends twice.\<close>

section \<open>A stand-in for the cryptography\<close>

text \<open>Strings one after the other, each character marked and each string ended by a dot.\<close>

fun read_field :: "string \<Rightarrow> string \<times> string" where
  "read_field (x # c # r) =
     (if x = CHR ''c'' then (case read_field r of (f, r') \<Rightarrow> (c # f, r')) else ([], c # r))"
| "read_field r = ([], [])"

definition write_field :: "string \<Rightarrow> string" where
  "write_field f = concat (map (\<lambda>c. [CHR ''c'', c]) f) @ ''.''"

lemma read_write_field [simp]: "read_field (write_field f @ r) = (f, r)"
  by (induction f) (cases r; simp add: write_field_def)+

lemma read_write_last [simp]: "read_field (write_field f) = (f, [])"
  using read_write_field [of f "[]"] by simp

definition sample_crypto :: crypto where
  "sample_crypto =
     \<lparr>argon2 = (\<lambda>pw salt. Some (take 32 (pw @ salt @ replicate 32 0))),
      aes_encrypt = (\<lambda>key n m. Some (m @ take 16 (key @ replicate 16 0))),
      aes_decrypt = (\<lambda>key n c. if drop (length c - 16) c = take 16 (key @ replicate 16 0)
        then Some (take (length c - 16) c) else None),
      json_keystore = (\<lambda>ks. write_field (ks_public_key ks) @ write_field (ks_address ks) @ write_field (ks_salt ks) @
        write_field (ks_nonce ks) @ write_field (ks_ciphertext ks)),
      parse_keystore = (\<lambda>s0. case read_field s0 of (a, s1) \<Rightarrow> case read_field s1 of (b, s2) \<Rightarrow>
        case read_field s2 of (c, s3) \<Rightarrow> case read_field s3 of (d, s4) \<Rightarrow> case read_field s4 of (e, s5) \<Rightarrow>
        Some \<lparr>ks_public_key = a, ks_address = b, ks_salt = c, ks_nonce = d, ks_ciphertext = e\<rparr>)\<rparr>"

lemma sample_crypto_laws: "crypto_laws sample_crypto"
  by (simp add: crypto_laws_def sample_crypto_def)

section \<open>The key file\<close>

lemma create_cases:
  assumes "create K P password seed salt nonce_bytes = Inr (ks, kp)"
  shows "\<exists>key ct. argon2 K password salt = Some key \<and> aes_encrypt K key nonce_bytes seed = Some ct \<and> kp = from_seed seed \<and>
    ks = \<lparr>ks_public_key = pk_to_hex P (public P kp), ks_address = addr_to_string P (kp_address P kp),
          ks_salt = hex_encode P salt, ks_nonce = hex_encode P nonce_bytes, ks_ciphertext = hex_encode P ct\<rparr>"
proof (cases "argon2 K password salt")
  case (Some key)
  with assms show ?thesis
    by (cases "aes_encrypt K key nonce_bytes seed")
      (auto simp: create_def derive_key_def Let_def seed_bytes_def from_seed_def)
qed (use assms in \<open>simp add: create_def derive_key_def Let_def\<close>)

lemma created_opens:
  assumes "crypto_laws K" "hex_laws P" "length seed = 32" "length nonce_bytes = 12"
    and "create K P password seed salt nonce_bytes = Inr (ks, kp)"
  shows "kp = from_seed seed" "load_keystore K (save_keystore K ks) = Inr ks" "ks_address ks = addr_to_string P (kp_address P kp)"
    "unlock K P ks password = Some (Inr kp)"
    "length bad \<noteq> 12 \<Longrightarrow> unlock K P (ks\<lparr>ks_nonce := hex_encode P bad\<rparr>) password = None"
proof -
  have hex: "hex_decode P (hex_encode P bs) = Some bs" for bs using assms(2) by (simp add: hex_laws_def)
  obtain key ct where k: "argon2 K password salt = Some key" "aes_encrypt K key nonce_bytes seed = Some ct"
    and ks: "kp = from_seed seed" "ks = \<lparr>ks_public_key = pk_to_hex P (public P kp), ks_address = addr_to_string P (kp_address P kp),
        ks_salt = hex_encode P salt, ks_nonce = hex_encode P nonce_bytes, ks_ciphertext = hex_encode P ct\<rparr>"
    using create_cases [OF assms(5)] by blast
  show "kp = from_seed seed" by (fact ks(1))
  show "ks_address ks = addr_to_string P (kp_address P kp)" by (simp add: ks(2))
  show "load_keystore K (save_keystore K ks) = Inr ks"
    using assms(1) by (simp add: load_keystore_def save_keystore_def crypto_laws_def)
  have "aes_decrypt K key nonce_bytes ct = Some seed"
    using assms(1) k(2) by (simp add: crypto_laws_def)
  then show "unlock K P ks password = Some (Inr kp)"
    using assms(3,4) by (simp add: unlock_def ks hex derive_key_def k(1))
  show "length bad \<noteq> 12 \<Longrightarrow> unlock K P (ks\<lparr>ks_nonce := hex_encode P bad\<rparr>) password = None"
    by (simp add: unlock_def ks hex derive_key_def k(1))
qed

text \<open>
  C40. A key file opens with its password. Whatever \<open>new\<close> writes is read back, shows the address of the
  key pair, and unlocks with the same password to the key pair that was sealed. A file whose \<open>nonce\<close> field
  is hex of any other length than 12 bytes does not make \<open>unlock\<close> report an error: it panics.
\<close>

theorem keystore_roundtrip:
  assumes "crypto_laws K" "hex_laws P" "length seed = 32" "length nonce_bytes = 12"
    and "wallet_new K P password seed salt nonce_bytes = Inr (file, addr)"
  shows "\<exists>ks. load_keystore K file = Inr ks \<and> unlock K P ks password = Some (Inr (from_seed seed)) \<and>
    wallet_address K file = Inr addr \<and> addr = addr_to_string P (kp_address P (from_seed seed)) \<and> 8 \<le> length password \<and>
    (\<forall>bad. length bad \<noteq> 12 \<longrightarrow> unlock K P (ks\<lparr>ks_nonce := hex_encode P bad\<rparr>) password = None)"
proof -
  obtain ks kp where c: "create K P password seed salt nonce_bytes = Inr (ks, kp)" "file = save_keystore K ks"
    "addr = addr_to_string P (kp_address P kp)" and pw: "8 \<le> length password"
    using assms(5) by (auto simp: wallet_new_def split: if_splits sum.splits)
  note opened = created_opens [OF assms(1-4) c(1)]
  have "wallet_address K file = Inr addr" by (simp add: wallet_address_def c(2,3) opened(2,3))
  then show ?thesis using c(2,3) opened pw by (intro exI [of _ ks]) simp
qed

definition sample_password :: bytes where
  "sample_password = replicate 8 65"

definition sample_file :: string where
  "sample_file =
     save_keystore sample_crypto (fst (projr (create sample_crypto sample_env sample_password (replicate 32 7) (replicate 16 1) (replicate 12 2))))"

lemma sample_wallet_new:
  "wallet_new sample_crypto sample_env sample_password (replicate 32 7) (replicate 16 1) (replicate 12 2) =
     Inr (sample_file, addr_to_string sample_env (kp_address sample_env sample_key))"
  by (simp add: wallet_new_def create_def derive_key_def Let_def sample_password_def sample_file_def sample_key_def from_seed_def)
    (simp add: sample_crypto_def)

theorem keystore_roundtrip_witness:
  "\<exists>ks. load_keystore sample_crypto sample_file = Inr ks \<and>
     unlock sample_crypto sample_env ks sample_password = Some (Inr sample_key) \<and>
     unlock sample_crypto sample_env (ks\<lparr>ks_nonce := hex_encode sample_env [1, 2, 3]\<rparr>) sample_password = None"
proof -
  have len: "length (replicate 32 (7 :: u8)) = 32" "length (replicate 12 (2 :: u8)) = 12" "length [1, 2, 3 :: u8] \<noteq> 12"
    by simp_all
  from keystore_roundtrip [OF sample_crypto_laws sample_env_laws(2) len(1,2) sample_wallet_new] obtain ks where
    "load_keystore sample_crypto sample_file = Inr ks"
    "unlock sample_crypto sample_env ks sample_password = Some (Inr (from_seed (replicate 32 7)))"
    "\<forall>bad. length bad \<noteq> 12 \<longrightarrow> unlock sample_crypto sample_env (ks\<lparr>ks_nonce := hex_encode sample_env bad\<rparr>) sample_password = None"
    by blast
  moreover have "from_seed (replicate 32 7) = sample_key" by (simp only: sample_key_def from_seed_def)
  ultimately show ?thesis using len(3) by auto
qed

section \<open>Sending\<close>

lemma wallet_send_effect:
  assumes "wallet_send K E file password to am fe app = Some (Inr h, app')"
  shows "\<exists>ks kp info to_addr tx. load_keystore K file = Inr ks \<and> unlock K E ks password = Some (Inr kp) \<and>
    fetch_account E (ks_address ks) app = Inr info \<and> addr_from_str E to = Inr to_addr \<and>
    sign_tx E kp (new_unsigned (public E kp) to_addr am fe (ai_nonce info)) = Some tx \<and> tx_hash E tx = h \<and>
    is_signature_valid E tx \<and> app' = with_net (broadcast (NewTransaction tx)) (with_state (mempool_insert E tx) app)"
  using assms by (auto simp: wallet_send_def rpc_submit_tx_def split: sum.splits option.splits if_splits)

lemma sign_tx_fields:
  assumes "sign_tx E kp (new_unsigned (public E kp) to_addr am fe an) = Some tx"
  shows "tx_from tx = public E kp" "account_nonce tx = an" "amount tx = am" "fee tx = fe" "tx_to tx = to_addr"
  using assms by (auto simp: sign_tx_def new_unsigned_def split: if_splits)

lemma mempool_ok_node: "node_inv E gen app \<Longrightarrow> hash_sizes E \<Longrightarrow> supply_capped E gen \<Longrightarrow> mempool_ok E (cstate (achain app))"
  using reachable_all [of E gen "achain app"] by (simp add: node_inv_def)

text \<open>
  C28. A second send makes the pending transactions unusable. The wallet takes the nonce of the account as confirmed by the chain, so two
  transactions sent before the first is mined carry the same nonce. Both sends succeed, both
  transactions are pending, and from then on the pending transactions replay on no accounts at all, the
  condition under which \<open>unreplayable_pending_stalls_mining\<close> has every mined template refused.
\<close>

theorem two_sends_never_replay:
  assumes "node_run E gen app" "hash_sizes E" "supply_capped E gen"
    and "wallet_send K E file password to1 am1 fe1 app = Some (Inr h1, app1)"
    and "wallet_send K E file password to2 am2 fe2 app1 = Some (Inr h2, app2)" "h1 \<noteq> h2"
  shows "\<exists>tx1 tx2. tx1 \<in> set (mempool_all (cstate (achain app2))) \<and> tx2 \<in> set (mempool_all (cstate (achain app2))) \<and>
    tx_hash E tx1 = h1 \<and> tx_hash E tx2 = h2 \<and> account_nonce tx1 = account_nonce tx2 \<and> node_run E gen app2 \<and>
    (\<forall>L. spec_txs E (mempool_all (cstate (achain app2))) L = None)"
proof -
  from wallet_send_effect [OF assms(4)] obtain ks kp info a1 tx1 where
    1: "load_keystore K file = Inr ks" "unlock K E ks password = Some (Inr kp)" "fetch_account E (ks_address ks) app = Inr info"
    "sign_tx E kp (new_unsigned (public E kp) a1 am1 fe1 (ai_nonce info)) = Some tx1" "tx_hash E tx1 = h1"
    "is_signature_valid E tx1" "app1 = with_net (broadcast (NewTransaction tx1)) (with_state (mempool_insert E tx1) app)"
    by blast
  from wallet_send_effect [OF assms(5)] obtain ks' kp' info2 a2 tx2 where
    "load_keystore K file = Inr ks'" "unlock K E ks' password = Some (Inr kp')" "fetch_account E (ks_address ks') app1 = Inr info2"
    "sign_tx E kp' (new_unsigned (public E kp') a2 am2 fe2 (ai_nonce info2)) = Some tx2" "tx_hash E tx2 = h2"
    "is_signature_valid E tx2" "app2 = with_net (broadcast (NewTransaction tx2)) (with_state (mempool_insert E tx2) app1)"
    by blast
  moreover from this(1,2) 1(1,2) have "ks' = ks" "kp' = kp" by simp_all
  ultimately have
    2: "fetch_account E (ks_address ks) app1 = Inr info2"
    "sign_tx E kp (new_unsigned (public E kp) a2 am2 fe2 (ai_nonce info2)) = Some tx2" "tx_hash E tx2 = h2"
    "is_signature_valid E tx2" "app2 = with_net (broadcast (NewTransaction tx2)) (with_state (mempool_insert E tx2) app1)"
    by simp_all
  have "fetch_account E (ks_address ks) app1 = fetch_account E (ks_address ks) app"
    by (simp add: fetch_account_def rpc_get_account_def 1(7) state_simps split: sum.split)
  then have same: "info2 = info" using 1(3) 2(1) by simp
  have run1: "node_run E gen app1" and run2: "node_run E gen app2"
  proof -
    have "rpc_submit_tx E tx1 app = (Inr h1, app1)" using 1(5-7) by (simp add: rpc_submit_tx_def)
    then show run1: "node_run E gen app1" using node_run.stepped [OF assms(1) node_step.tx_posted] by blast
    have "rpc_submit_tx E tx2 app1 = (Inr h2, app2)" using 2(3-5) by (simp add: rpc_submit_tx_def)
    then show "node_run E gen app2" using node_run.stepped [OF run1 node_step.tx_posted] by blast
  qed
  have ok: "mempool_ok E (cstate (achain app))" "mempool_ok E (cstate (achain app1))"
    using mempool_ok_node [OF node_run_inv [OF assms(1-3)] assms(2,3)]
      mempool_ok_node [OF node_run_inv [OF run1 assms(2,3)] assms(2,3)] by simp_all
  have "tx1 \<in> set (mempool_all (cstate (achain app1)))"
    using pending_transactions_by_hash [OF ok(1), of tx1] by (simp add: 1(7))
  then have in1: "tx1 \<in> set (mempool_all (cstate (achain app2)))" and in2: "tx2 \<in> set (mempool_all (cstate (achain app2)))"
    using pending_transactions_by_hash [OF ok(2), of tx2] 1(5) 2(3) assms(6) by (auto simp: 2(5))
  have "tx1 \<noteq> tx2" using 1(5) 2(3) assms(6) by auto
  then have "spec_txs E (mempool_all (cstate (achain app2))) L = None" for L
    using same_nonce_unreplayable [OF in1 in2, of E L] sign_tx_fields [OF 1(4)] sign_tx_fields [OF 2(2)] same by simp
  moreover have "account_nonce tx1 = account_nonce tx2"
    using sign_tx_fields(2) [OF 1(4)] sign_tx_fields(2) [OF 2(2)] same by simp
  ultimately show ?thesis using in1 in2 1(5) 2(3) run2 by blast
qed

text \<open>The sample wallet pays \<open>am\<close> with a fee of 1 to a second account.\<close>

definition sample_pay :: "u64 \<Rightarrow> u64 \<Rightarrow> transaction" where
  "sample_pay am an =
     (let tx = new_unsigned (public sample_env sample_key) (sample_addr 1) am 1 an
      in tx\<lparr>tx_signature := Some (kp_sign sample_env sample_key (signing_bytes tx))\<rparr>)"

lemma sample_pay_valid: "is_signature_valid sample_env (sample_pay am an)"
  by (simp add: is_signature_valid_def sample_pay_def Let_def verify_def kp_sign_def public_def sample_env_def
      new_unsigned_def signing_bytes_def)

lemma sample_pay_hash: "tx_hash sample_env (sample_pay am an) = tx_hash sample_env (sample_pay am' an') \<Longrightarrow> am = am'"
  by (simp add: tx_hash_def hash_of_def sample_env_def sample_pay_def Let_def new_unsigned_def signing_bytes_def
      sample_hash_def public_def sample_key_def sample_addr_def)

lemma sample_opened:
  "\<exists>ks. load_keystore sample_crypto sample_file = Inr ks \<and> ks_address ks = addr_to_string sample_env (sample_addr 7) \<and>
     unlock sample_crypto sample_env ks sample_password = Some (Inr sample_key)"
proof -
  let ?r = "create sample_crypto sample_env sample_password (replicate 32 7) (replicate 16 1) (replicate 12 2)"
  obtain ks kp where c: "?r = Inr (ks, kp)"
    by (simp add: create_def derive_key_def Let_def) (simp add: sample_crypto_def)
  have len: "length (replicate 32 (7 :: u8)) = 32" "length (replicate 12 (2 :: u8)) = 12" by simp_all
  note opened = created_opens [OF sample_crypto_laws sample_env_laws(2) len c]
  have kp: "kp = sample_key" using opened(1) by (simp only: sample_key_def from_seed_def)
  have "kp_address sample_env sample_key = sample_addr 7"
    by (simp add: kp_address_def to_address_def public_def sample_env_def sample_key_def sample_hash_def sample_addr_def)
  then show ?thesis using opened(2-4) c by (intro exI [of _ ks]) (simp add: sample_file_def kp)
qed

lemma sample_send_ok:
  assumes "ai_nonce (account_info_new (sample_addr 7) (get_account (cstate (achain app)) (sample_addr 7))) = an"
  shows "wallet_send sample_crypto sample_env sample_file sample_password (addr_to_string sample_env (sample_addr 1)) am 1 app =
    Some (Inr (tx_hash sample_env (sample_pay am an)), posted (sample_pay am an) app)"
proof -
  obtain ks where ks: "load_keystore sample_crypto sample_file = Inr ks"
    "ks_address ks = addr_to_string sample_env (sample_addr 7)"
    "unlock sample_crypto sample_env ks sample_password = Some (Inr sample_key)"
    using sample_opened by blast
  have read: "addr_from_str sample_env (addr_to_string sample_env (sample_addr k)) = Inr (sample_addr k)" for k
    using addr_from_str_printed(1) [OF sample_env_laws(2), of "sample_addr k"] by (simp add: sample_addr_def)
  have "sign_tx sample_env sample_key (new_unsigned (public sample_env sample_key) (sample_addr 1) am 1 an) =
      Some (sample_pay am an)"
    by (simp add: sign_tx_def sample_pay_def Let_def new_unsigned_def)
  then show ?thesis
    using assms by (simp add: wallet_send_def ks fetch_account_def rpc_get_account_def read posted_valid [OF sample_pay_valid]
        rpc_submit_tx_def sample_pay_valid)
qed

theorem two_sends_never_replay_witness:
  "\<exists>app2. node_run sample_env sample_gen app2 \<and>
     (\<forall>L. spec_txs sample_env (mempool_all (cstate (achain app2))) L = None)"
proof -
  let ?acc = "get_account (cstate (achain sample_app)) (sample_addr 7)"
  define an where "an = ai_nonce (account_info_new (sample_addr 7) ?acc)"
  let ?app1 = "posted (sample_pay 10 an) sample_app"
  have 1: "wallet_send sample_crypto sample_env sample_file sample_password (addr_to_string sample_env (sample_addr 1)) 10 1 sample_app =
      Some (Inr (tx_hash sample_env (sample_pay 10 an)), ?app1)"
    by (rule sample_send_ok) (simp add: an_def)
  have 2: "wallet_send sample_crypto sample_env sample_file sample_password (addr_to_string sample_env (sample_addr 1)) 20 1 ?app1 =
      Some (Inr (tx_hash sample_env (sample_pay 20 an)), posted (sample_pay 20 an) ?app1)"
    by (rule sample_send_ok) (simp add: an_def posted_valid [OF sample_pay_valid] state_simps)
  have ne: "tx_hash sample_env (sample_pay 10 an) \<noteq> tx_hash sample_env (sample_pay 20 an)"
    using sample_pay_hash [of 10 an 20 an] by auto
  from two_sends_never_replay [OF sample_app_run sample_env_laws(1) sample_capped 1 2 ne] show ?thesis by blast
qed

end
