(* ===== verification/Wallet_Program.thy ===== *)
theory Wallet_Program
  imports Wallet_Properties
begin

text \<open>
  The wallet as a program (\<open>main\<close> of \<open>crates/ondris-wallet/src/main.rs\<close>): its commands, the password that is
  given or typed, the files it reads and writes and the nodes it talks to. The commands themselves are those of
  theory \<open>Wallet\<close>; here they are put together, with the errors of files and connections, and a wallet is
  followed from \<open>new\<close> to its first transaction.
\<close>

datatype wallet_command =
    New string "bytes option"  \<comment> \<open>\<open>--out\<close> and \<open>--password\<close>\<close>
  | ShowAddress string
  | Balance string string  \<comment> \<open>wallet and node\<close>
  | Send string "bytes option" string u64 u64 string  \<comment> \<open>wallet, password, recipient, amount, fee, node\<close>

text \<open>Files by path, and the nodes that answer under a URL.\<close>

record wallet_world =
  wfiles :: "string \<Rightarrow> string option"
  wnodes :: "string \<Rightarrow> app option"

text \<open>What one call of the program takes from outside: the prompt, random bytes, and whether a file can be written.\<close>

record wallet_input =
  typed :: "bytes option"
  rnd_seed :: bytes
  rnd_salt :: bytes
  rnd_nonce :: bytes
  can_write :: "string \<Rightarrow> bool"

datatype wallet_output =
    Created string string
  | AddressLine string
  | BalanceLines account_info
  | Sent hash256

datatype cli_error =
    WalletFailed wallet_error
  | NoPassword
  | CannotRead string
  | CannotWrite string
  | NodeUnreachable

definition get_password :: "wallet_input \<Rightarrow> bytes option \<Rightarrow> cli_error + bytes" where
  "get_password i provided =
     (case provided of
        Some p \<Rightarrow> Inr p
      | None \<Rightarrow> (case typed i of None \<Rightarrow> Inl NoPassword | Some p \<Rightarrow> Inr p))"

text \<open>The commands; \<open>None\<close> is a panic.\<close>

definition run_new ::
    "crypto \<Rightarrow> 'a env_scheme \<Rightarrow> wallet_input \<Rightarrow> string \<Rightarrow> bytes option \<Rightarrow> wallet_world \<Rightarrow> (cli_error + wallet_output) \<times> wallet_world" where
  "run_new K E i out pw w =
     (case get_password i pw of
        Inl e \<Rightarrow> (Inl e, w)
      | Inr password \<Rightarrow>
          (case wallet_new K E password (rnd_seed i) (rnd_salt i) (rnd_nonce i) of
             Inl e \<Rightarrow> (Inl (WalletFailed e), w)
           | Inr (data, addr) \<Rightarrow>
               if can_write i out then (Inr (Created out addr), w\<lparr>wfiles := (wfiles w)(out \<mapsto> data)\<rparr>)
               else (Inl (CannotWrite out), w)))"

definition run_address :: "crypto \<Rightarrow> string \<Rightarrow> wallet_world \<Rightarrow> cli_error + wallet_output" where
  "run_address K path w =
     (case wfiles w path of
        None \<Rightarrow> Inl (CannotRead path)
      | Some data \<Rightarrow> (case wallet_address K data of Inl e \<Rightarrow> Inl (WalletFailed e) | Inr addr \<Rightarrow> Inr (AddressLine addr)))"

definition run_balance :: "crypto \<Rightarrow> 'a env_scheme \<Rightarrow> string \<Rightarrow> string \<Rightarrow> wallet_world \<Rightarrow> cli_error + wallet_output" where
  "run_balance K E path node w =
     (case wfiles w path of
        None \<Rightarrow> Inl (CannotRead path)
      | Some data \<Rightarrow>
          (case load_keystore K data of
             Inl e \<Rightarrow> Inl (WalletFailed e)
           | Inr ks \<Rightarrow>
               (case wnodes w node of
                  None \<Rightarrow> Inl NodeUnreachable
                | Some app \<Rightarrow>
                    (case wallet_balance K E data app of
                       Inl e \<Rightarrow> Inl (WalletFailed e)
                     | Inr info \<Rightarrow> Inr (BalanceLines info)))))"

text \<open>The key is unlocked before the node is asked for anything.\<close>

definition run_send ::
    "crypto \<Rightarrow> 'a env_scheme \<Rightarrow> wallet_input \<Rightarrow> string \<Rightarrow> bytes option \<Rightarrow> string \<Rightarrow> u64 \<Rightarrow> u64 \<Rightarrow> string \<Rightarrow> wallet_world \<Rightarrow>
       ((cli_error + wallet_output) \<times> wallet_world) option" where
  "run_send K E i path pw to am fe node w =
     (case wfiles w path of
        None \<Rightarrow> Some (Inl (CannotRead path), w)
      | Some data \<Rightarrow>
          (case load_keystore K data of
             Inl e \<Rightarrow> Some (Inl (WalletFailed e), w)
           | Inr ks \<Rightarrow>
               (case get_password i pw of
                  Inl e \<Rightarrow> Some (Inl e, w)
                | Inr password \<Rightarrow>
                    (case wnodes w node of
                       None \<Rightarrow>
                         (case unlock K E ks password of
                            None \<Rightarrow> None
                          | Some (Inl e) \<Rightarrow> Some (Inl (WalletFailed e), w)
                          | Some (Inr keypair) \<Rightarrow> Some (Inl NodeUnreachable, w))
                     | Some app \<Rightarrow>
                         (case wallet_send K E data password to am fe app of
                            None \<Rightarrow> None
                          | Some (Inl e, app') \<Rightarrow> Some (Inl (WalletFailed e), w\<lparr>wnodes := (wnodes w)(node \<mapsto> app')\<rparr>)
                          | Some (Inr h, app') \<Rightarrow> Some (Inr (Sent h), w\<lparr>wnodes := (wnodes w)(node \<mapsto> app')\<rparr>))))))"

definition wallet_main ::
    "crypto \<Rightarrow> 'a env_scheme \<Rightarrow> wallet_input \<Rightarrow> wallet_command \<Rightarrow> wallet_world \<Rightarrow> ((cli_error + wallet_output) \<times> wallet_world) option" where
  "wallet_main K E i cmd w =
     (case cmd of
        New out pw \<Rightarrow> Some (run_new K E i out pw w)
      | ShowAddress path \<Rightarrow> Some (run_address K path w, w)
      | Balance path node \<Rightarrow> Some (run_balance K E path node w, w)
      | Send path pw to am fe node \<Rightarrow> run_send K E i path pw to am fe node w)"

section \<open>A wallet from its making to its first transaction\<close>

lemma run_new_created:
  assumes "run_new K E i out pw w = (Inr (Created path addr), w1)" "crypto_laws K" "hex_laws E"
    and "length (rnd_seed i) = 32" "length (rnd_nonce i) = 12"
  shows "\<exists>password ks data. get_password i pw = Inr password \<and> path = out \<and> w1 = w\<lparr>wfiles := (wfiles w)(out \<mapsto> data)\<rparr> \<and>
    load_keystore K data = Inr ks \<and> ks_address ks = addr \<and> addr = addr_to_string E (kp_address E (from_seed (rnd_seed i))) \<and>
    unlock K E ks password = Some (Inr (from_seed (rnd_seed i)))"
proof -
  obtain password data where n: "get_password i pw = Inr password"
    "wallet_new K E password (rnd_seed i) (rnd_salt i) (rnd_nonce i) = Inr (data, addr)"
    "path = out" "w1 = w\<lparr>wfiles := (wfiles w)(out \<mapsto> data)\<rparr>"
    using assms(1) by (auto simp: run_new_def split: sum.splits if_splits)
  obtain ks kp where c: "create K E password (rnd_seed i) (rnd_salt i) (rnd_nonce i) = Inr (ks, kp)" "data = save_keystore K ks"
    "addr = addr_to_string E (kp_address E kp)"
    using n(2) by (auto simp: wallet_new_def split: if_splits sum.splits)
  from created_opens [OF assms(2-5) c(1)] n c show ?thesis by (intro exI [of _ password] exI [of _ ks] exI [of _ data]) simp
qed

lemma signed_payment:
  assumes "ed25519_laws E" "hex_laws E" "length (signing_key kp) = 32"
  shows "\<exists>tx. sign_tx E kp (new_unsigned (public E kp) to am fe an) = Some tx \<and> is_signature_valid E tx \<and>
    tx_from tx = public E kp \<and> tx_to tx = to \<and> amount tx = am \<and> fee tx = fe \<and> account_nonce tx = an"
  using sign_verify [OF assms]
  by (simp add: sign_tx_def is_signature_valid_def new_unsigned_def signing_bytes_def)

text \<open>
  C30. A wallet works from its making on. After \<open>new\<close> has reported an address for a path, whatever was in that
  file before is gone; \<open>address\<close> prints the same address; \<open>balance\<close> shows what any node that answers says of
  the account of the new key; and \<open>send\<close>, with the password of \<open>new\<close> and a well-formed recipient, makes a
  transaction of the new key with the given amount and fee and the nonce of the account, validly signed,
  which the node takes as pending and passes on to its peers.
\<close>

theorem wallet_life:
  assumes "crypto_laws K" "hex_laws E" "ed25519_laws E" "hash_sizes E"
    and "length (rnd_seed i) = 32" "length (rnd_nonce i) = 12" "kp = from_seed (rnd_seed i)"
    and "wallet_main K E i (New out pw) w = Some (Inr (Created path addr), w1)"
    and "get_password j pw' = get_password i pw" "wnodes w node = Some app" "length (addr_bytes to) = 20"
  shows "path = out \<and> (\<forall>p. p \<noteq> out \<longrightarrow> wfiles w1 p = wfiles w p) \<and>
    wallet_main K E j (ShowAddress out) w1 = Some (Inr (AddressLine addr), w1) \<and>
    wallet_main K E j (Balance out node) w1 =
      Some (Inr (BalanceLines (account_info_new (kp_address E kp) (get_account (cstate (achain app)) (kp_address E kp)))), w1) \<and>
    (\<exists>tx. wallet_main K E j (Send out pw' (addr_to_string E to) am fe node) w1 = Some (Inr (Sent (tx_hash E tx)),
         w1\<lparr>wnodes := (wnodes w)(node \<mapsto> with_net (broadcast (NewTransaction tx)) (with_state (mempool_insert E tx) app))\<rparr>) \<and>
       is_signature_valid E tx \<and> tx_from tx = public E kp \<and> tx_to tx = to \<and> amount tx = am \<and> fee tx = fe \<and>
       account_nonce tx = acct_nonce (get_account (cstate (achain app)) (kp_address E kp)))"
proof -
  have "run_new K E i out pw w = (Inr (Created path addr), w1)" using assms(8) by (simp add: wallet_main_def)
  from run_new_created [OF this assms(1,2,5,6), folded assms(7)] obtain password ks data where
    n: "get_password i pw = Inr password" "path = out" "w1 = w\<lparr>wfiles := (wfiles w)(out \<mapsto> data)\<rparr>" "load_keystore K data = Inr ks"
    "ks_address ks = addr" "addr = addr_to_string E (kp_address E kp)" "unlock K E ks password = Some (Inr kp)"
    by blast
  have "length (addr_bytes (kp_address E kp)) = 20" by (simp add: kp_address_def to_address_def hash_sizes_blake3 [OF assms(4)])
  note read = addr_from_str_printed(1) [OF assms(2) this] addr_from_str_printed(1) [OF assms(2,11)]
  let ?acc = "get_account (cstate (achain app)) (kp_address E kp)"
  have "length (signing_key kp) = 32" using assms(5,7) by (simp add: from_seed_def)
  from signed_payment [OF assms(3,2) this, of to am fe "acct_nonce ?acc"] obtain tx where
    tx: "sign_tx E kp (new_unsigned (public E kp) to am fe (acct_nonce ?acc)) = Some tx" "is_signature_valid E tx"
    "tx_from tx = public E kp" "tx_to tx = to" "amount tx = am" "fee tx = fe" "account_nonce tx = acct_nonce ?acc"
    by blast
  have fetch: "fetch_account E addr app = Inr (account_info_new (kp_address E kp) ?acc)"
    by (simp add: fetch_account_def rpc_get_account_def n(6) read)
  have "wallet_send K E data password (addr_to_string E to) am fe app =
      Some (Inr (tx_hash E tx), with_net (broadcast (NewTransaction tx)) (with_state (mempool_insert E tx) app))"
    using fetch tx(1,2) by (simp add: wallet_send_def n(4,5,7) read account_info_new_def rpc_submit_tx_def)
  then have "wallet_main K E j (Send out pw' (addr_to_string E to) am fe node) w1 = Some (Inr (Sent (tx_hash E tx)),
      w1\<lparr>wnodes := (wnodes w)(node \<mapsto> with_net (broadcast (NewTransaction tx)) (with_state (mempool_insert E tx) app))\<rparr>)"
    using assms(9,10) n(1) by (simp add: wallet_main_def run_send_def n(3,4))
  moreover have "wallet_main K E j (Balance out node) w1 = Some (Inr (BalanceLines (account_info_new (kp_address E kp) ?acc)), w1)"
    using fetch assms(10) by (simp add: wallet_main_def run_balance_def wallet_balance_def n(3,4,5))
  moreover have "wallet_main K E j (ShowAddress out) w1 = Some (Inr (AddressLine addr), w1)"
    by (simp add: wallet_main_def run_address_def wallet_address_def n(3,4,5))
  moreover have "path = out" "\<forall>p. p \<noteq> out \<longrightarrow> wfiles w1 p = wfiles w p" by (simp_all add: n(2,3))
  ultimately show ?thesis using tx(2-7) by blast
qed

text \<open>A second \<open>new\<close> on the path of a wallet, by the same person or another.\<close>

definition sample_input :: wallet_input where
  "sample_input =
     \<lparr>typed = Some sample_password, rnd_seed = replicate 32 7, rnd_salt = replicate 16 1, rnd_nonce = replicate 12 2,
      can_write = (\<lambda>path. True)\<rparr>"

definition sample_world :: wallet_world where
  "sample_world = \<lparr>wfiles = [''k'' \<mapsto> ''an older wallet''], wnodes = [''n'' \<mapsto> sample_app]\<rparr>"

theorem wallet_life_witness:
  "\<exists>w1 tx. wallet_main sample_crypto sample_env sample_input (New ''k'' (Some sample_password)) sample_world =
      Some (Inr (Created ''k'' (addr_to_string sample_env (kp_address sample_env sample_key))), w1) \<and>
    wallet_main sample_crypto sample_env sample_input (Send ''k'' None (addr_to_string sample_env (sample_addr 1)) 10 1 ''n'') w1 =
      Some (Inr (Sent (tx_hash sample_env tx)), w1\<lparr>wnodes := (wnodes sample_world)(''n'' \<mapsto>
        with_net (broadcast (NewTransaction tx)) (with_state (mempool_insert sample_env tx) sample_app))\<rparr>) \<and>
    is_signature_valid sample_env tx \<and> amount tx = 10"
proof -
  let ?w1 = "sample_world\<lparr>wfiles := (wfiles sample_world)(''k'' \<mapsto> sample_file)\<rparr>"
  have new: "wallet_main sample_crypto sample_env sample_input (New ''k'' (Some sample_password)) sample_world =
      Some (Inr (Created ''k'' (addr_to_string sample_env (kp_address sample_env sample_key))), ?w1)"
    by (simp add: wallet_main_def run_new_def get_password_def)
      (simp add: sample_input_def sample_wallet_new)
  have pw: "get_password sample_input None = get_password sample_input (Some sample_password)"
    by (simp add: get_password_def sample_input_def)
  have len: "length (rnd_seed sample_input) = 32" "length (rnd_nonce sample_input) = 12" "length (addr_bytes (sample_addr 1)) = 20"
    by (simp_all add: sample_input_def sample_addr_def)
  have node: "wnodes sample_world ''n'' = Some sample_app" by (simp add: sample_world_def)
  from wallet_life [OF sample_crypto_laws sample_env_laws(2,3,1) len(1,2) refl new pw node len(3), of 10 1]
  show ?thesis using new by blast
qed

end
