(* ===== verification/Spec2Isabelle.thy ===== *)
theory Spec2Isabelle
  imports Ondris_Hash_Ref Consensus Store_Writes Session Node_Tasks Sync_Pair Fork_Stall Startup Miner_Programs Wallet_Program
begin

text \<open>
  Verification of Ondris, a proof-of-work cryptocurrency in Rust: node, CPU and GPU miner, wallet
  (\<open>crates/\<close> of the repository). This theory only gathers the development; each theory below opens
  with a note of its own.

  \<^bold>\<open>The program.\<close> A node (\<open>ondris-node\<close>) keeps a chain of blocks in a key-value store
  (\<open>ondris-core\<close>), exchanges blocks and transactions with its peers over encrypted connections
  (\<open>ondris-network\<close>) and serves an HTTP interface. Miners (\<open>ondris-miner\<close>, \<open>ondris-miner-gpu\<close>) ask it for
  a template, search a nonce for which the memory-hard hash of \<open>ondris-pow\<close> meets the target, and
  post the block. The wallet (\<open>ondris-wallet\<close>) keeps a key in an encrypted file and posts transactions.

  \<^bold>\<open>Conventions.\<close> Integers are words of their Rust width; plain arithmetic wraps, as in the release
  profile, and \<open>sat_add\<close>, \<open>sat_sub\<close>, \<open>sat_mul\<close> are the saturating operations. Arrays and slices are lists
  of bytes. A function that can panic or not return has result type \<open>option\<close>, with \<open>None\<close> for both, and
  errors are the left part of a sum. State is passed and returned; \<open>None\<close> is therefore never a
  silent failure, and that functions return is proved. Third-party code is a parameter with its documented
  behaviour as named hypotheses: \<open>prims\<close> and \<open>env\<close> hold BLAKE3, hex, Ed25519 and the JSON of transactions
  (\<open>hash_sizes\<close>, \<open>hex_laws\<close>, \<open>ed25519_laws\<close>), \<open>net_env\<close> the JSON of messages, \<open>snow\<close> the Noise protocol
  (\<open>snow_xx\<close>, \<open>snow_paired\<close>, \<open>snow_halves\<close>), \<open>crypto\<close> Argon2, AES-GCM and the JSON of key files (\<open>crypto_laws\<close>), \<open>gpu\<close> the
  OpenCL device (\<open>honest\<close>, only where a device must work). \<open>sample_env\<close>, \<open>sample_net_env\<close>, \<open>sample_snow\<close>,
  \<open>sample_crypto\<close> and \<open>sample_gpu\<close> are instances that satisfy them; the theorems with hypotheses are applied
  to them in a theorem of the same name with the suffix \<open>_witness\<close>.

  \<^bold>\<open>Theories.\<close>

  \<^item> \<open>Ondris_Prelude\<close>: words, saturating arithmetic, byte encodings (locale \<open>int_codec\<close>), slices, chunks.
  \<^item> \<open>Primitives\<close> (\<open>ondris-primitives/src/lib.rs\<close>): hashes, keys, signatures, addresses and their text
    forms; locale \<open>hex_codec\<close>, interpreted on the encoder of \<open>noise.rs\<close>.
  \<^item> \<open>Pow\<close> (\<open>ondris-pow/src/lib.rs\<close>): dataset and hash; they never panic, and their result is a hash.
  \<^item> \<open>Difficulty\<close> (\<open>difficulty.rs\<close>): the byte-wise division is exact; what one retarget can change.
  \<^item> \<open>Ledger_Types\<close> (\<open>transaction.rs\<close>, \<open>header.rs\<close>, \<open>block.rs\<close>, \<open>genesis.rs\<close>): what is signed, hashed and
    bound by the Merkle root.
  \<^item> \<open>Chain_State\<close> (\<open>state.rs\<close>): the trees of the store as finite maps; locales \<open>kv_tree\<close> (the ordered
    tree) and \<open>account_view\<close> (reads after writes of accounts, for the store and for the overlay).
  \<^item> \<open>Chain\<close> (\<open>chain.rs\<close>): opening, submission, fork choice, reorganisation, templates. \<open>Ledger_Spec\<close> is the
    abstract ledger of natural numbers that the 64-bit simulation refines; \<open>Chain_Fork\<close> shows that the
    fork paths end at the last common block; \<open>Chain_Invariant\<close> states the invariant and the runs
    (\<open>reachable\<close>), \<open>Fork_Choice\<close> the abstract effect of a submission (\<open>submit_effect\<close>), \<open>Chain_Runs\<close> that every
    run keeps the invariant and has these effects. \<open>Sample_Chain\<close> is the worked example.
    \<open>Chain_Properties\<close>: refinement, replayed accounts, supply, fork choice, the stop at height 2047.
    \<open>Mining_Properties\<close>: templates are accepted, and how an altered body shuts out an honest block.
    \<open>Store_Writes\<close>: genesis and submission as logs of their single writes (\<open>submit_block_log\<close>), of which the
    model of \<open>Chain\<close> is the composition; what is seen between two writes, and after a stop there.
    \<open>Consensus\<close>: no stored branch that replays is heavier than the canonical one, so nodes with the same
    blocks agree.
  \<^item> \<open>Noise_Transport\<close>, \<open>Network\<close> (\<open>noise.rs\<close>, \<open>ondris-network/src/lib.rs\<close>): handshake, framing (locale
    \<open>framing\<close>), encrypted reader and writer, messages; peers and channels as a step relation \<open>net_step\<close>.
    Reader and writer share one transport state (\<open>use_shared\<close>); each sees only its own half of it.
    \<open>Network_Properties\<close>: delivery once and in order, leaked and overwritten peers. \<open>Session\<close>: two ends from
    the handshake to the last message.
  \<^item> \<open>Node\<close> (\<open>ondris-node/src/main.rs\<close>, \<open>rpc_types.rs\<close>): start, event loop, cascade over orphans,
    handlers; \<open>node_run\<close> are the runs, with restarts. \<open>Node_Runs\<close>: invariant and effects of every
    handler; \<open>Sample_Node\<close>: the example as a node. \<open>Node_Properties\<close>: every request is answered, what
    clients read, orphans. \<open>Node_Tasks\<close>: the handlers as tasks, with a step for each access to what they share
    (\<open>outcome_actions\<close>, \<open>task_step\<close>, \<open>system_step\<close>).
    \<open>Pending_Stall\<close>, \<open>Reorg_Pending\<close>: what pending transactions do to mining. \<open>Gossip\<close>: two nodes and the
    connection between them (\<open>node_pair\<close>): \<open>pair_step\<close> lets both also do everything else a node does, \<open>link_step\<close>
    is the connection alone; a transaction travels for ever and comes back. \<open>Catch_Up\<close>: a node that is behind
    takes the missing blocks in any order; \<open>Sync_Pair\<close>: it fetches them from a connected node by \<open>link_step\<close>;
    \<open>Fork_Stall\<close>: it does not, when its own tip is on another branch.
    \<open>Startup\<close>: the process of a node: what its start needs and how it fails, its tasks and its router
    (\<open>process_step\<close>), and the lives of a data directory (\<open>machine\<close>), which refine \<open>node_run\<close>.
  \<^item> \<open>Miner\<close> (\<open>ondris-miner/src/main.rs\<close>): worker threads under a schedule; locale \<open>nonce_search\<close>, the contract
    of a search, interpreted for the CPU here and for the GPU in \<open>Gpu_Miner\<close>. \<open>Mining_Round\<close>: the client
    of the contract, and rounds of the CPU miner against a node: what they post, and that they end under every
    fair order of the threads (\<open>fair_schedule\<close>). \<open>Late_Blocks\<close>: what a block is worth that is posted when the
    node has moved on. \<open>Template_Race\<close>: a template read without the write lock, while the store changes;
    \<open>Disturbed_Work\<close>: a request for work between whose reads the node goes on.
  \<^item> \<open>Gpu_Miner\<close> (\<open>ondris-miner-gpu/src/gpu.rs\<close>, \<open>main.rs\<close>): session, batches, search, self test,
    benchmark, for any device. \<open>Gpu_Properties\<close>: what its rounds return. \<open>Blake3_Ref\<close>,
    \<open>Ondris_Hash_Ref\<close> (\<open>blake3_ref.rs\<close>, \<open>ondris_hash_ref.rs\<close>): the streaming BLAKE3 is the recursive tree,
    and the reference hash is the consensus hash. \<open>Miner_Programs\<close>: the two miners as programs, the choice of a
    GPU, and their loop next to a node that goes on working, also while it answers a request for work (locale
    \<open>miner_round\<close>, interpreted for both).
  \<^item> \<open>Wallet\<close> (\<open>ondris-wallet\<close>): key file and commands against the handlers of the node.
    \<open>Wallet_Properties\<close>: a key file opens; what two sends do. \<open>Wallet_Program\<close>: \<open>main\<close> with files,
    prompt and connections, and a wallet from its making to its first transaction.

  \<^bold>\<open>Hypotheses on runs.\<close> \<open>supply_capped\<close>: premine and emission stay below \<open>2 ^ 64 - 1\<close>, which both
  shipped configurations satisfy (\<open>shipped_configs_capped\<close>). \<open>tx_room\<close>: no branch holds \<open>2 ^ 64\<close>
  transactions, needed because nonces wrap. Loops whose end is not structural are
  \<open>partial_function (option)\<close> or \<open>function\<close> with a measure, and proved to return: \<open>fork_paths\<close> and the cascade on
  every run, the GPU search for an honest device and a nonce that meets the target. There is no fuel.

  \<^bold>\<open>Steps.\<close> The worker threads of the CPU miner are interleaved at each of their accesses to shared state, and in
  \<open>Node_Tasks\<close> the handlers of a node are, between any two accesses; a theorem about them is about every
  schedule. \<open>submit_block\<close> is one step outside \<open>Store_Writes\<close>: it holds the write lock; a reader between two of its
  writes sees a state of \<open>between_two_writes\<close>. In \<open>node_step\<close>, and so in \<open>node_run\<close>, \<open>pair_step\<close> and \<open>link_step\<close>, a
  handler is one step. For requests for work \<open>disturbed_work\<close> undoes this: the loops of the miners meet both. The
  answers of the handlers that only read (\<open>rpc_reads_canonical\<close>) are those of a node between two submissions.

  \<^bold>\<open>Not modelled.\<close> I/O failures of the database while a node runs, and of files beyond those that the code
  returns as errors; how clap reads a command line into the argument types, how axum reads a request into
  \<open>request\<close>, and the JSON of the answers; log lines and progress displays; the pause after a failed request;
  \<open>kernel.cl\<close>, which is not Rust and stands behind the parameter \<open>gpu\<close>; time, which is an argument where it is
  read; website and scripts. Unit tests (about 750 lines of the Rust files) are not code of the program.
  That a stop leaves a prefix of the writes is what a log-structured store gives;
  lost or reordered writes are not modelled, and neither is \<open>flush\<close>.
\<close>

end
